(* ===== verification/Adsb_Prelude.thy ===== *)
theory Adsb_Prelude
  imports Complex_Main "HOL-Library.Word"
begin

text \<open>
  Shared vocabulary of the development: the machine integer types the sources use, the named
  collections of facts the component theories fill, and the generic lemmas on words, lists and
  options that more than one component needs.
\<close>

unbundle bit_operations_syntax

type_synonym u8 = "8 word"
type_synonym u16 = "16 word"
type_synonym u32 = "32 word"
type_synonym u64 = "64 word"
type_synonym i16 = "16 word"
type_synonym i32 = "32 word"

named_theorems double_simps
  \<comment> \<open>computation rules of the binary64 arithmetic\<close>

named_theorems record_simps
  \<comment> \<open>setter and getter definitions of the accumulated aircraft record\<close>

named_theorems conn_simps
  \<comment> \<open>one-step definitions of the concurrent components\<close>

subsection \<open>Words\<close>

lemma word_minus_ge_iff:
  fixes a b w :: "'a::len word"
  shows "(b \<le> a \<and> w \<le> a - b) \<longleftrightarrow> uint b + uint w \<le> uint a \<and> b \<le> a"
proof (cases "b \<le> a")
  case True
  then have "uint (a - b) = uint a - uint b" by (rule uint_minus_simple_alt [THEN iffD1])
  with True show ?thesis by (auto simp: word_le_def)
qed simp

lemma uint_minus_le: "b \<le> a \<Longrightarrow> uint (a - b) = uint a - uint b" for a b :: "'a::len word"
  by (rule uint_minus_simple_alt [THEN iffD1])

lemma uint_word_of_int_bounded:
  "0 \<le> k \<Longrightarrow> k < 2 ^ LENGTH('a) \<Longrightarrow> uint (word_of_int k :: 'a::len word) = k"
  by (simp add: uint_word_of_int)

subsection \<open>Clamping integers\<close>

definition clamp_int :: "int \<Rightarrow> int \<Rightarrow> int \<Rightarrow> int" where
  "clamp_int v lo hi = (if v < lo then lo else if hi < v then hi else v)"

lemma clamp_int_bounds: "lo \<le> hi \<Longrightarrow> lo \<le> clamp_int v lo hi \<and> clamp_int v lo hi \<le> hi"
  by (auto simp: clamp_int_def)

lemma clamp_int_twice:
  "lo' \<le> lo \<Longrightarrow> hi \<le> hi' \<Longrightarrow> lo \<le> hi \<Longrightarrow> clamp_int (clamp_int v lo' hi') lo hi = clamp_int v lo hi"
  by (auto simp: clamp_int_def)

lemma clamp_int_id: "lo \<le> v \<Longrightarrow> v \<le> hi \<Longrightarrow> clamp_int v lo hi = v"
  by (auto simp: clamp_int_def)

lemma const_upd [simp]: "(\<lambda>_. c)(x := c) = (\<lambda>_. c)"
  by (rule ext) simp

subsection \<open>Lists\<close>

lemma dropWhile_eq_Nil_iff: "dropWhile P xs = [] \<longleftrightarrow> (\<forall>x\<in>set xs. P x)"
  by (induction xs) auto

lemma takeWhile_all: "\<forall>x\<in>set xs. P x \<Longrightarrow> takeWhile P xs = xs"
  by (induction xs) auto

lemma filter_neq_id: "x \<notin> set xs \<Longrightarrow> filter (\<lambda>y. y \<noteq> x) xs = xs"
  by (induction xs) auto

end
