(* ===== verification/Charconv.thy ===== *)
theory Charconv
  imports Binary64
begin

text \<open>
  The parts of the C and C++ standard libraries the parser uses: \<^theory_text>\<open>std::from_chars\<close> for
  integers and for double, and \<^theory_text>\<open>strtol\<close>. A call of from\_chars returns the unread rest of the
  text (the returned pointer), the error code, and the final content of the output variable, which
  keeps its initial value unless the conversion succeeds.
\<close>

datatype errc = errc_ok | invalid_argument | result_out_of_range

subsection \<open>Digits\<close>

definition digit_value :: "char \<Rightarrow> int" where
  \<comment> \<open>the value of an alphanumeric character as a digit, 36 for any other character\<close>
  "digit_value c =
     (let n = of_char c in
      if 48 \<le> n \<and> n \<le> 57 then n - 48
      else if 97 \<le> n \<and> n \<le> 122 then n - 87
      else if 65 \<le> n \<and> n \<le> 90 then n - 55 else 36)"

definition is_digit :: "int \<Rightarrow> char \<Rightarrow> bool" where
  "is_digit base c = (digit_value c < base)"

definition digits_val :: "int \<Rightarrow> string \<Rightarrow> int" where
  "digits_val base cs = foldl (\<lambda>a c. a * base + digit_value c) 0 cs"

subsection \<open>std::from\_chars for integers\<close>

fun from_chars_unsigned :: "int \<Rightarrow> int \<Rightarrow> string \<Rightarrow> int \<Rightarrow> string \<times> errc \<times> int" where
  "from_chars_unsigned hi base s v0 =
     (let ds = takeWhile (is_digit base) s; rest = dropWhile (is_digit base) s; v = digits_val base ds
      in if ds = [] then (s, invalid_argument, v0)
         else if hi < v then (rest, result_out_of_range, v0)
         else (rest, errc_ok, v))"

fun from_chars_signed :: "int \<Rightarrow> int \<Rightarrow> int \<Rightarrow> string \<Rightarrow> int \<Rightarrow> string \<times> errc \<times> int" where
  "from_chars_signed lo hi base s v0 =
     (let neg = (s \<noteq> [] \<and> hd s = CHR ''-'');
          body = (if neg then tl s else s);
          ds = takeWhile (is_digit base) body;
          rest = dropWhile (is_digit base) body;
          v = (if neg then - digits_val base ds else digits_val base ds)
      in if ds = [] then (s, invalid_argument, v0)
         else if v < lo \<or> hi < v then (rest, result_out_of_range, v0)
         else (rest, errc_ok, v))"

subsection \<open>std::from\_chars for double\<close>

definition ascii_lower :: "char \<Rightarrow> char" where
  "ascii_lower c = (if 65 \<le> (of_char c :: nat) \<and> (of_char c :: nat) \<le> 90 then char_of (of_char c + 32 :: nat) else c)"

definition has_prefix_ci :: "string \<Rightarrow> string \<Rightarrow> bool" where
  \<comment> \<open>the text starts with the given lower-case word, ignoring case\<close>
  "has_prefix_ci w s = (map ascii_lower (take (length w) s) = w)"

definition nan_char :: "char \<Rightarrow> bool" where
  "nan_char c = (is_digit 36 c \<or> c = CHR ''_'')"

definition skip_nan_payload :: "string \<Rightarrow> string" where
  \<comment> \<open>the optional n-char-sequence in brackets after nan\<close>
  "skip_nan_payload s =
     (case s of
        [] \<Rightarrow> s
      | c # t \<Rightarrow>
          if c = CHR ''('' then
            (case dropWhile nan_char t of
               [] \<Rightarrow> s
             | d # u \<Rightarrow> if d = CHR '')'' then u else s)
          else s)"

definition parse_exponent :: "string \<Rightarrow> string \<times> int" where
  \<comment> \<open>an exponent part, or nothing where the text has no complete one\<close>
  "parse_exponent s =
     (if s \<noteq> [] \<and> (hd s = CHR ''e'' \<or> hd s = CHR ''E'') then
        (let t = tl s;
             neg = (t \<noteq> [] \<and> hd t = CHR ''-'');
             u = (if t \<noteq> [] \<and> (hd t = CHR ''-'' \<or> hd t = CHR ''+'') then tl t else t);
             ds = takeWhile (is_digit 10) u
         in if ds = [] then (s, 0)
            else (dropWhile (is_digit 10) u, if neg then - digits_val 10 ds else digits_val 10 ds))
      else (s, 0))"

definition parse_decimal :: "string \<Rightarrow> (string \<times> int \<times> int) option" where
  \<comment> \<open>digits with an optional point and exponent: the rest, the digits as an integer, and the
      power of ten it is scaled by\<close>
  "parse_decimal s =
     (let ip = takeWhile (is_digit 10) s; r1 = dropWhile (is_digit 10) s;
          point = (r1 \<noteq> [] \<and> hd r1 = CHR ''.'');
          fp = (if point then takeWhile (is_digit 10) (tl r1) else []);
          r2 = (if point then dropWhile (is_digit 10) (tl r1) else r1)
      in if ip @ fp = [] then None
         else (let (r3, ex) = parse_exponent r2
               in Some (r3, digits_val 10 (ip @ fp), ex - int (length fp))))"

definition decimal_to_double :: "bool \<Rightarrow> int \<Rightarrow> int \<Rightarrow> double" where
  \<comment> \<open>the double nearest to \<open>m * 10 ^ x\<close>, with the given sign\<close>
  "decimal_to_double neg m x =
     (if 0 \<le> x then round_ratio neg (m * 10 ^ nat x) 1 else round_ratio neg m (10 ^ nat (- x)))"

fun is_zero :: "double \<Rightarrow> bool" where
  "is_zero (Fin s m e) = (m = 0)"
| "is_zero (Inf s) = False"
| "is_zero NaN = False"

definition from_chars_double :: "string \<Rightarrow> double \<Rightarrow> string \<times> errc \<times> double" where
  \<comment> \<open>a decimal that overflows, or that is not zero and rounds to zero, is out of range\<close>
  "from_chars_double s v0 =
     (let neg = (s \<noteq> [] \<and> hd s = CHR ''-'');
          body = (if neg then tl s else s)
      in if has_prefix_ci ''infinity'' body then (drop 8 body, errc_ok, Inf neg)
         else if has_prefix_ci ''inf'' body then (drop 3 body, errc_ok, Inf neg)
         else if has_prefix_ci ''nan'' body then (skip_nan_payload (drop 3 body), errc_ok, NaN)
         else (case parse_decimal body of
                 None \<Rightarrow> (s, invalid_argument, v0)
               | Some (rest, m, x) \<Rightarrow>
                   (let v = decimal_to_double neg m x
                    in if \<not> isfinite v \<or> (is_zero v \<and> m \<noteq> 0) then (rest, result_out_of_range, v0)
                       else (rest, errc_ok, v))))"

subsection \<open>strtol\<close>

definition is_space :: "char \<Rightarrow> bool" where
  \<comment> \<open>isspace in the C locale, which the program never leaves\<close>
  "is_space c = ((of_char c :: nat) = 32 \<or> (9 \<le> (of_char c :: nat) \<and> (of_char c :: nat) \<le> 13))"

definition c_string :: "string \<Rightarrow> string" where
  \<comment> \<open>what a function that reads a null-terminated string sees\<close>
  "c_string s = takeWhile (\<lambda>c. c \<noteq> CHR 0x00) s"

definition strtol :: "nat \<Rightarrow> string \<Rightarrow> int \<Rightarrow> int" where
  \<comment> \<open>for a long of the given width: no digits give 0, an out-of-range number the nearest limit\<close>
  "strtol lw s base =
     (let t = dropWhile is_space (c_string s);
          neg = (t \<noteq> [] \<and> hd t = CHR ''-'');
          u = (if t \<noteq> [] \<and> (hd t = CHR ''-'' \<or> hd t = CHR ''+'') then tl t else t);
          n = digits_val base (takeWhile (is_digit base) u)
      in clamp_int (if neg then - n else n) (- (2 ^ (lw - 1))) (2 ^ (lw - 1) - 1))"

subsection \<open>Numerals\<close>

text \<open>The full-field grammars the strict parsers accept.\<close>

definition digit_string :: "int \<Rightarrow> string \<Rightarrow> bool" where
  "digit_string base s \<longleftrightarrow> s \<noteq> [] \<and> list_all (is_digit base) s"

definition is_neg :: "string \<Rightarrow> bool" where
  "is_neg s \<longleftrightarrow> s \<noteq> [] \<and> hd s = CHR ''-''"

definition signed_numeral :: "string \<Rightarrow> bool" where
  "signed_numeral s \<longleftrightarrow> digit_string 10 (if is_neg s then tl s else s)"

definition signed_val :: "string \<Rightarrow> int" where
  "signed_val s = (if is_neg s then - digits_val 10 (tl s) else digits_val 10 s)"

lemma digit_value_nonneg: "0 \<le> digit_value c"
  by (simp add: digit_value_def Let_def)

lemma digits_val_snoc: "digits_val b (cs @ [c]) = digits_val b cs * b + digit_value c"
  by (simp add: digits_val_def)

lemma digits_val_Nil [simp]: "digits_val b [] = 0"
  by (simp add: digits_val_def)

lemma digits_val_nonneg: "0 \<le> b \<Longrightarrow> 0 \<le> digits_val b cs"
  by (induction cs rule: rev_induct) (simp_all add: digits_val_snoc digit_value_nonneg)

lemma takeWhile_full_iff: "dropWhile P s = [] \<longleftrightarrow> takeWhile P s = s"
  by (metis append_Nil2 dropWhile_eq_Nil_conv takeWhile_dropWhile_id takeWhile_eq_all_conv)

lemma digit_string_takeWhile:
  assumes "digit_string base s"
  shows "takeWhile (is_digit base) s = s" and "dropWhile (is_digit base) s = []" and "s \<noteq> []"
  using assms by (simp_all add: digit_string_def list_all_iff)

lemma not_digit_string_cases:
  assumes "\<not> digit_string base s"
  shows "takeWhile (is_digit base) s = [] \<or> dropWhile (is_digit base) s \<noteq> []"
proof (cases s)
  case (Cons c t)
  with assms show ?thesis by (auto simp: digit_string_def list_all_iff)
qed simp

text \<open>
  The callers test that the pointer reached the end of the field and look at the error code. On a
  full digit string the outcome depends on the range only; on anything else one of the two tests
  fails, whatever the range.
\<close>

lemma from_chars_unsigned_full:
  assumes "digit_string base s"
  shows "from_chars_unsigned hi base s v0 =
    (if hi < digits_val base s then ([], result_out_of_range, v0) else ([], errc_ok, digits_val base s))"
  unfolding from_chars_unsigned.simps Let_def digit_string_takeWhile(1,2)[OF assms]
  using digit_string_takeWhile(3)[OF assms] by simp

lemma from_chars_unsigned_other:
  assumes "\<not> digit_string base s" and "from_chars_unsigned hi base s v0 = (rest, ec, v)"
  shows "rest \<noteq> [] \<or> ec = invalid_argument"
  using not_digit_string_cases[OF assms(1)] assms(2) by (auto simp: Let_def split: if_splits)

lemma from_chars_signed_full:
  assumes "signed_numeral s"
  shows "from_chars_signed lo hi 10 s v0 =
    (if signed_val s < lo \<or> hi < signed_val s then ([], result_out_of_range, v0) else ([], errc_ok, signed_val s))"
proof -
  define body where "body = (if is_neg s then tl s else s)"
  have b: "digit_string 10 body" using assms by (simp add: signed_numeral_def body_def)
  show ?thesis
    unfolding from_chars_signed.simps Let_def is_neg_def [symmetric] body_def [symmetric]
      digit_string_takeWhile(1,2)[OF b]
    using digit_string_takeWhile(3)[OF b] by (simp add: signed_val_def body_def)
qed

lemma from_chars_signed_other:
  assumes "\<not> signed_numeral s" and "from_chars_signed lo hi 10 s v0 = (rest, ec, v)"
  shows "rest \<noteq> [] \<or> ec = invalid_argument"
proof -
  define body where "body = (if is_neg s then tl s else s)"
  have "\<not> digit_string 10 body" using assms by (simp add: signed_numeral_def body_def)
  from not_digit_string_cases[OF this] assms(2) show ?thesis
    by (auto simp: Let_def is_neg_def [symmetric] body_def [symmetric] split: if_splits)
qed

subsection \<open>Printing and reading back\<close>

text \<open>
  The digits of a number in base 16 or 10, most significant first, as the peers print them, and
  the fact that reading them back gives the number.
\<close>

definition digit_char :: "int \<Rightarrow> char" where
  "digit_char d = (if d < 10 then char_of (48 + d) else char_of (55 + d))"

fun to_digits :: "nat \<Rightarrow> int \<Rightarrow> int \<Rightarrow> string" where
  \<comment> \<open>exactly the given number of digits, zero padded\<close>
  "to_digits 0 b n = []"
| "to_digits (Suc k) b n = to_digits k b (n div b) @ [digit_char (n mod b)]"

lemma digit_value_digit_char:
  assumes "0 \<le> d" and "d < 36"
  shows "digit_value (digit_char d) = d"
  using assms by (auto simp: digit_value_def digit_char_def Let_def of_char_of)

lemma to_digits_props:
  assumes "1 < b" and "b \<le> 36" and "0 \<le> n" and "n < b ^ k"
  shows "digits_val b (to_digits k b n) = n \<and> list_all (is_digit b) (to_digits k b n)
    \<and> length (to_digits k b n) = k"
  using assms(3,4)
proof (induction k arbitrary: n)
  case (Suc k)
  have d: "0 \<le> n mod b" "n mod b < b" using assms(1) by simp_all
  have "n div b < b ^ k"
  proof (rule ccontr)
    assume "\<not> ?thesis"
    then have "b * b ^ k \<le> b * (n div b)" using assms(1) by (intro mult_left_mono) auto
    also have "\<dots> \<le> n" using assms(1) by (simp add: minus_mod_eq_mult_div [symmetric])
    finally show False using Suc.prems by simp
  qed
  with Suc have "digits_val b (to_digits k b (n div b)) = n div b"
    and "list_all (is_digit b) (to_digits k b (n div b))" "length (to_digits k b (n div b)) = k"
    using assms(1) by (simp_all add: pos_imp_zdiv_nonneg_iff)
  with d assms(2) show ?case
    by (auto simp: digits_val_snoc digit_value_digit_char list_all_iff is_digit_def)
qed simp

end
