(* ===== verification/Adsb_Data.thy ===== *)
theory Adsb_Data
  imports Binary64
begin

text \<open>
  The data the components exchange: the coordinate of src/src/point.hpp and the aircraft record
  ADSBData of src/src/dump1090.hpp, with its constructor, its setters and its staleness test. The
  getters of the two classes are the field selectors.
\<close>

record Point =
  valid :: bool
  latitude :: double
  longitude :: double

definition zero_double :: double where
  "zero_double = double_lit 0 1"

definition Point_default :: Point where
  "Point_default = \<lparr>valid = False, latitude = zero_double, longitude = zero_double\<rparr>"

definition Point_at :: "double \<Rightarrow> double \<Rightarrow> Point" where
  "Point_at lat lng = \<lparr>valid = True, latitude = lat, longitude = lng\<rparr>"

record ADSBData =
  ICAOAddress :: u32
  callsign :: string
  callsign_set :: bool
  callsign_time :: u64
  altitude :: u32
  altitude_set :: bool
  altitude_time :: u64
  speed :: double
  speed_set :: bool
  speed_time :: u64
  heading :: double
  heading_set :: bool
  heading_time :: u64
  pos :: Point
  vert_vel :: i16
  vert_vel_set :: bool
  vert_vel_time :: u64
  squawk :: u16
  squawk_set :: bool
  squawk_time :: u64
  last_seen :: u64

definition new_ADSBData :: "u32 \<Rightarrow> ADSBData" where
  "new_ADSBData addr =
     \<lparr>ICAOAddress = addr,
      callsign = [], callsign_set = False, callsign_time = 0,
      altitude = 0, altitude_set = False, altitude_time = 0,
      speed = zero_double, speed_set = False, speed_time = 0,
      heading = zero_double, heading_set = False, heading_time = 0,
      pos = Point_default,
      vert_vel = 0, vert_vel_set = False, vert_vel_time = 0,
      squawk = 0, squawk_set = False, squawk_time = 0,
      last_seen = 0\<rparr>"

definition setCallsign :: "string \<Rightarrow> u64 \<Rightarrow> ADSBData \<Rightarrow> ADSBData" where
  [record_simps]: "setCallsign v t d = d\<lparr>callsign := v, callsign_set := True, callsign_time := t\<rparr>"

definition setPosition :: "Point \<Rightarrow> ADSBData \<Rightarrow> ADSBData" where
  [record_simps]: "setPosition v d = d\<lparr>pos := v\<rparr>"

definition setAltitude :: "u32 \<Rightarrow> u64 \<Rightarrow> ADSBData \<Rightarrow> ADSBData" where
  [record_simps]: "setAltitude v t d = d\<lparr>altitude := v, altitude_set := True, altitude_time := t\<rparr>"

definition setSpeed :: "double \<Rightarrow> u64 \<Rightarrow> ADSBData \<Rightarrow> ADSBData" where
  [record_simps]: "setSpeed v t d = d\<lparr>speed := v, speed_set := True, speed_time := t\<rparr>"

definition setHeading :: "double \<Rightarrow> u64 \<Rightarrow> ADSBData \<Rightarrow> ADSBData" where
  [record_simps]: "setHeading v t d = d\<lparr>heading := v, heading_set := True, heading_time := t\<rparr>"

definition setVertVel :: "i16 \<Rightarrow> u64 \<Rightarrow> ADSBData \<Rightarrow> ADSBData" where
  [record_simps]: "setVertVel v t d = d\<lparr>vert_vel := v, vert_vel_set := True, vert_vel_time := t\<rparr>"

definition setSquawk :: "u16 \<Rightarrow> u64 \<Rightarrow> ADSBData \<Rightarrow> ADSBData" where
  [record_simps]: "setSquawk v t d = d\<lparr>squawk := v, squawk_set := True, squawk_time := t\<rparr>"

definition setLastSeen :: "u64 \<Rightarrow> ADSBData \<Rightarrow> ADSBData" where
  [record_simps]: "setLastSeen t d = d\<lparr>last_seen := t\<rparr>"

definition isStale :: "ADSBData \<Rightarrow> u64 \<Rightarrow> u64 \<Rightarrow> bool" where
  "isStale d now window = (last_seen d \<le> now \<and> window \<le> now - last_seen d)"

text \<open>The staleness test is the comparison of the clock values as integers; nothing wraps.\<close>

lemma isStale_uint:
  "isStale d now window \<longleftrightarrow>
     uint (last_seen d) + uint window \<le> uint now \<and> uint (last_seen d) \<le> uint now"
  unfolding isStale_def word_minus_ge_iff by (simp add: word_le_def)

end
