(* ===== verification/Rounding.thy ===== *)
theory Rounding
  imports Binary64
begin

text \<open>
  Correctness of the executable binary64 arithmetic: the value of a finite double as a real, the
  real-valued rounding function \<open>rnd\<close>, the lemma that \<open>round_ratio\<close> computes it, and the
  consequences the conversions use. Rounding is monotone and leaves representable values alone;
  the comparisons compare the values; sums and products are the rounded exact results.
\<close>

subsection \<open>Values\<close>

fun dval :: "double \<Rightarrow> real" where
  "dval (Fin s m e) = real_of_int (sgn_int s m) * 2 powi e"
| "dval (Inf s) = (if s then - (2 ^ 1024) else 2 ^ 1024)"
| "dval NaN = 0"

fun wf_double :: "double \<Rightarrow> bool" where
  "wf_double (Fin s m e) =
     (0 \<le> m \<and> m < 2 ^ 53 \<and> - 1074 \<le> e \<and> e \<le> 971 \<and> (m < 2 ^ 52 \<longrightarrow> e = - 1074))"
| "wf_double (Inf s) = True"
| "wf_double NaN = True"

lemma sgn_int_simps [simp]: "sgn_int False m = m" "sgn_int True m = - m"
  by (simp_all add: sgn_int_def)

lemma abs_sgn_int [simp]: "\<bar>sgn_int s m\<bar> = \<bar>m\<bar>"
  by (simp add: sgn_int_def)

lemma powi2_pos [simp]: "0 < (2::real) powi e"
  by (simp add: power_int_def)

lemma powi2_nonneg [simp]: "0 \<le> (2::real) powi e"
  by (simp add: less_imp_le)

lemma powi2_neq0 [simp]: "(2::real) powi e \<noteq> 0"
  using powi2_pos[of e] by linarith

lemma powi2_add: "(2::real) powi (a + b) = 2 powi a * 2 powi b"
  by (simp add: power_int_add)

lemma powi2_le_iff: "(2::real) powi a \<le> 2 powi b \<longleftrightarrow> a \<le> b"
  by (meson linorder_not_less one_less_numeral_iff power_int_increasing power_int_strict_increasing
      semiring_norm(76) less_le_not_le not_le one_le_numeral)

lemma powi2_less_iff: "(2::real) powi a < 2 powi b \<longleftrightarrow> a < b"
  using powi2_le_iff[of b a] by linarith

lemma powi2_nat: "0 \<le> e \<Longrightarrow> (2::real) powi e = 2 ^ nat e"
  by (simp add: power_int_def)

lemma scale2_pos [simp]: "0 < scale2 e"
  by (simp add: scale2_def)

lemma scale2_ratio: "real_of_int (scale2 e) / real_of_int (scale2 (- e)) = 2 powi e"
  by (auto simp: scale2_def power_int_def field_simps)

lemma common_scale_val:
  "g \<le> e \<Longrightarrow> real_of_int (common_scale m e g) * 2 powi g = real_of_int m * 2 powi e"
proof -
  assume "g \<le> e"
  then have "(2::real) powi e = 2 ^ nat (e - g) * 2 powi g"
    by (metis diff_add_cancel diff_ge_0_iff_ge powi2_add powi2_nat)
  then show ?thesis by (simp add: common_scale_def)
qed

subsection \<open>Rounding half to even\<close>

definition rhe :: "real \<Rightarrow> int" where
  "rhe x =
     (if x - \<lfloor>x\<rfloor> < 1/2 then \<lfloor>x\<rfloor>
      else if x - \<lfloor>x\<rfloor> = 1/2 then (if even \<lfloor>x\<rfloor> then \<lfloor>x\<rfloor> else \<lfloor>x\<rfloor> + 1)
      else \<lfloor>x\<rfloor> + 1)"

lemma rne_rhe:
  assumes "0 < b"
  shows "rne a b = rhe (real_of_int a / real_of_int b)"
proof -
  have fl: "\<lfloor>real_of_int a / real_of_int b\<rfloor> = a div b"
    by (simp add: floor_divide_of_int_eq)
  have "real_of_int a = real_of_int (a div b) * real_of_int b + real_of_int (a mod b)"
    by (metis div_mult_mod_eq of_int_add of_int_mult)
  then have fr: "real_of_int a / real_of_int b - real_of_int (a div b)
      = real_of_int (a mod b) / real_of_int b"
    using assms by (simp add: field_simps)
  have lt: "real_of_int (a mod b) / real_of_int b < 1/2 \<longleftrightarrow> 2 * (a mod b) < b"
    and eq: "real_of_int (a mod b) / real_of_int b = 1/2 \<longleftrightarrow> 2 * (a mod b) = b"
    using assms by (simp_all add: field_simps) linarith+
  show ?thesis
    unfolding rne_def rhe_def Let_def fl fr lt eq by simp
qed

lemma rhe_of_int [simp]: "rhe (real_of_int k) = k"
  by (simp add: rhe_def)

lemma rhe_error: "\<bar>real_of_int (rhe x) - x\<bar> \<le> 1/2"
  unfolding rhe_def by (auto simp: abs_if) linarith+

lemma rhe_le_floor_Suc: "rhe x \<le> \<lfloor>x\<rfloor> + 1" and floor_le_rhe: "\<lfloor>x\<rfloor> \<le> rhe x"
  by (auto simp: rhe_def)

lemma rhe_mono: "x \<le> y \<Longrightarrow> rhe x \<le> rhe y"
proof -
  assume xy: "x \<le> y"
  then have fl: "\<lfloor>x\<rfloor> \<le> \<lfloor>y\<rfloor>" by (rule floor_mono)
  show ?thesis
  proof (cases "\<lfloor>x\<rfloor> = \<lfloor>y\<rfloor>")
    case True
    with xy show ?thesis unfolding rhe_def by auto
  next
    case False
    with fl show ?thesis
      using rhe_le_floor_Suc[of x] floor_le_rhe[of y] by linarith
  qed
qed

lemma rhe_minus: "rhe (- x) = - rhe x"
proof (cases "x = real_of_int \<lfloor>x\<rfloor>")
  case True
  then obtain k where "x = real_of_int k" by blast
  then show ?thesis using rhe_of_int[of "- k"] by simp
next
  case False
  then have fl: "\<lfloor>- x\<rfloor> = - \<lfloor>x\<rfloor> - 1" by linarith
  have lt: "- x - real_of_int \<lfloor>- x\<rfloor> < 1/2 \<longleftrightarrow> \<not> (x - \<lfloor>x\<rfloor> \<le> 1/2)"
    and eq: "- x - real_of_int \<lfloor>- x\<rfloor> = 1/2 \<longleftrightarrow> x - \<lfloor>x\<rfloor> = 1/2"
    using fl by auto
  show ?thesis unfolding rhe_def lt eq fl by auto
qed

subsection \<open>The rounding of a real number to binary64, with an unbounded exponent\<close>

definition rexp :: "real \<Rightarrow> int" where
  "rexp x = max (\<lfloor>log 2 \<bar>x\<bar>\<rfloor> - 52) (- 1074)"

definition rnd :: "real \<Rightarrow> real" where
  "rnd x = real_of_int (rhe (x / 2 powi rexp x)) * 2 powi rexp x"

definition representable :: "real \<Rightarrow> bool" where
  "representable x \<longleftrightarrow> (\<exists>m e. x = real_of_int m * 2 powi e \<and> \<bar>m\<bar> \<le> 2 ^ 53 \<and> - 1074 \<le> e)"

lemma floor_log2_bounds:
  assumes "0 < x"
  shows "2 powi \<lfloor>log 2 x\<rfloor> \<le> x" and "x < 2 powi (\<lfloor>log 2 x\<rfloor> + 1)"
proof -
  have "2 powr real_of_int \<lfloor>log 2 x\<rfloor> \<le> 2 powr log 2 x" by simp
  with assms show "2 powi \<lfloor>log 2 x\<rfloor> \<le> x" by (simp add: powr_real_of_int')
  have "2 powr log 2 x < 2 powr real_of_int (\<lfloor>log 2 x\<rfloor> + 1)" by simp
  with assms show "x < 2 powi (\<lfloor>log 2 x\<rfloor> + 1)"
    by (metis powr_log_cancel powr_real_of_int' zero_le_numeral zero_neq_numeral
        less_numeral_extra(1) numeral_One numeral_eq_iff semiring_norm(83) zero_less_numeral)
qed

lemma floor_log2_unique:
  assumes "2 powi k \<le> x" and "x < 2 powi (k + 1)"
  shows "\<lfloor>log 2 x\<rfloor> = k"
proof -
  have x: "0 < x" using assms(1) powi2_pos[of k] by linarith
  from floor_log2_bounds[OF x] assms have "2 powi \<lfloor>log 2 x\<rfloor> < (2::real) powi (k + 1)"
    and "(2::real) powi k < 2 powi (\<lfloor>log 2 x\<rfloor> + 1)" by linarith+
  then show ?thesis by (simp add: powi2_less_iff)
qed

lemma rnd_0 [simp]: "rnd 0 = 0"
  by (simp add: rnd_def rhe_def)

lemma rexp_minus [simp]: "rexp (- x) = rexp x"
  by (simp add: rexp_def)

lemma rnd_minus: "rnd (- x) = - rnd x"
  by (simp add: rnd_def rhe_minus)

lemma rexp_ge: "- 1074 \<le> rexp x"
  by (simp add: rexp_def)

lemma scaled_less: "\<bar>x\<bar> < 2 powi (rexp x + 53)"
proof (cases "x = 0")
  case False
  then have "\<bar>x\<bar> < 2 powi (\<lfloor>log 2 \<bar>x\<bar>\<rfloor> + 1)" by (simp add: floor_log2_bounds)
  also have "\<dots> \<le> 2 powi (rexp x + 53)" by (simp add: powi2_le_iff rexp_def)
  finally show ?thesis .
qed simp

lemma scaled_ge:
  assumes "x \<noteq> 0" and "rexp x \<noteq> - 1074"
  shows "2 powi (rexp x + 52) \<le> \<bar>x\<bar>"
proof -
  from assms(2) have "rexp x + 52 = \<lfloor>log 2 \<bar>x\<bar>\<rfloor>" by (simp add: rexp_def max_def split: if_splits)
  with assms(1) show ?thesis by (simp add: floor_log2_bounds)
qed

lemma rnd_representable:
  assumes "representable x"
  shows "rnd x = x"
proof (cases "x = 0")
  case False
  from assms obtain m e where x: "x = real_of_int m * 2 powi e"
    and m: "\<bar>m\<bar> \<le> 2 ^ 53" and e: "- 1074 \<le> e"
    by (auto simp: representable_def)
  have "\<exists>k. x / 2 powi rexp x = real_of_int k"
  proof (cases "rexp x \<le> e")
    case True
    define g where "g = rexp x"
    from True have ge: "g \<le> e" by (simp only: g_def)
    have "x = real_of_int (m * 2 ^ nat (e - g)) * 2 powi g"
      unfolding x common_scale_val[OF ge, of m, symmetric] by (simp only: common_scale_def)
    then have "x / 2 powi g = real_of_int (m * 2 ^ nat (e - g))"
      by (simp only: nonzero_divide_eq_eq powi2_neq0 not_False_eq_True)
    then show ?thesis unfolding g_def by blast
  next
    case lt: False
    with e have "2 powi (rexp x + 52) \<le> \<bar>x\<bar>" using False by (intro scaled_ge) auto
    also have "\<bar>x\<bar> = real_of_int \<bar>m\<bar> * 2 powi e" by (simp add: x abs_mult)
    also have "\<dots> \<le> 2 powi 53 * 2 powi e"
    proof (rule mult_right_mono)
      have "real_of_int \<bar>m\<bar> \<le> real_of_int (2 ^ 53)" using m by (simp only: of_int_le_iff)
      then show "real_of_int \<bar>m\<bar> \<le> 2 powi 53" by simp
    qed simp
    finally have "2 powi (rexp x + 52) \<le> (2::real) powi (53 + e)" by (simp only: powi2_add)
    with lt have re: "rexp x = e + 1" by (simp add: powi2_le_iff)
    have "2 powi (e + 53) \<le> \<bar>x\<bar>" using \<open>2 powi (rexp x + 52) \<le> \<bar>x\<bar>\<close> re by (simp add: add.commute)
    then have "2 powi 53 * 2 powi e \<le> real_of_int \<bar>m\<bar> * 2 powi e"
      by (simp only: powi2_add x abs_mult) (simp add: ac_simps)
    then have "2 powi 53 \<le> real_of_int \<bar>m\<bar>" by (simp add: mult_le_cancel_right)
    then have "\<bar>m\<bar> = 2 ^ 53" using m by simp
    then have "m = 2 ^ 53 \<or> m = - (2 ^ 53)" by linarith
    then have "m = 2 * 2 ^ 52 \<or> m = 2 * (- (2 ^ 52))" by simp
    then obtain k where "m = 2 * k" by blast
    then have "x = real_of_int k * 2 powi rexp x"
      unfolding re powi2_add by (simp add: x)
    then have "x / 2 powi rexp x = real_of_int k"
      by (simp only: nonzero_divide_eq_eq powi2_neq0 not_False_eq_True)
    then show ?thesis by blast
  qed
  then obtain k where k: "x / 2 powi rexp x = real_of_int k" by blast
  then have "rnd x = real_of_int k * 2 powi rexp x" by (simp only: rnd_def rhe_of_int)
  also have "\<dots> = x / 2 powi rexp x * 2 powi rexp x" by (simp only: k)
  also have "\<dots> = x" by simp
  finally show ?thesis .
qed simp

lemma rnd_nonneg: "0 \<le> x \<Longrightarrow> 0 \<le> rnd x"
proof -
  assume "0 \<le> x"
  then have "0 \<le> x / 2 powi rexp x" by simp
  then have "rhe 0 \<le> rhe (x / 2 powi rexp x)" by (rule rhe_mono)
  then show ?thesis using rhe_of_int[of 0] by (simp add: rnd_def)
qed

lemma rnd_mono_pos:
  assumes "0 < x" and "x \<le> y"
  shows "rnd x \<le> rnd y"
proof -
  have "\<lfloor>log 2 x\<rfloor> \<le> \<lfloor>log 2 y\<rfloor>" using assms by (intro floor_mono) simp
  then have ee: "rexp x \<le> rexp y" using assms by (auto simp: rexp_def)
  show ?thesis
  proof (cases "rexp x = rexp y")
    case True
    from assms(2) have "rhe (x / 2 powi rexp y) \<le> rhe (y / 2 powi rexp y)"
      by (intro rhe_mono) (simp add: divide_right_mono)
    with True show ?thesis by (simp add: rnd_def)
  next
    case False
    with ee have lt: "rexp x < rexp y" by simp
    have "x / 2 powi rexp x \<le> real_of_int (2 ^ 53)"
      using scaled_less[of x] assms(1) by (simp add: powi2_add field_simps)
    then have "rhe (x / 2 powi rexp x) \<le> rhe (real_of_int (2 ^ 53))" by (rule rhe_mono)
    then have "rhe (x / 2 powi rexp x) \<le> 2 ^ 53" by (simp only: rhe_of_int)
    then have "real_of_int (rhe (x / 2 powi rexp x)) \<le> 2 powi 53" by simp
    then have "rnd x \<le> 2 powi 53 * 2 powi rexp x"
      unfolding rnd_def by (rule mult_right_mono) simp
    also have "\<dots> = 2 powi (53 + rexp x)" by (simp only: powi2_add)
    also have "\<dots> \<le> 2 powi (52 + rexp y)" using lt by (simp only: powi2_le_iff)
    also have "\<dots> = 2 powi 52 * 2 powi rexp y" by (simp only: powi2_add)
    also have "\<dots> \<le> rnd y"
    proof -
      from rexp_ge[of x] lt have ne: "rexp y \<noteq> - 1074" by linarith
      have "2 powi (rexp y + 52) \<le> y" using scaled_ge[OF _ ne] assms by simp
      then have "real_of_int (2 ^ 52) \<le> y / 2 powi rexp y"
        by (simp add: powi2_add field_simps)
      then have "rhe (real_of_int (2 ^ 52)) \<le> rhe (y / 2 powi rexp y)" by (rule rhe_mono)
      then have "2 ^ 52 \<le> rhe (y / 2 powi rexp y)" by (simp only: rhe_of_int)
      then have "2 powi 52 \<le> real_of_int (rhe (y / 2 powi rexp y))" by simp
      then show ?thesis unfolding rnd_def by (rule mult_right_mono) simp
    qed
    finally show ?thesis .
  qed
qed

lemma rnd_mono: "x \<le> y \<Longrightarrow> rnd x \<le> rnd y"
proof -
  assume xy: "x \<le> y"
  consider "0 < x" | "x \<le> 0" "0 \<le> y" | "y < 0" by linarith
  then show ?thesis
  proof cases
    case 1
    then show ?thesis using xy by (rule rnd_mono_pos)
  next
    case 2
    then have "rnd x \<le> 0" using rnd_nonneg[of "- x"] by (simp add: rnd_minus)
    also have "0 \<le> rnd y" using 2 by (simp add: rnd_nonneg)
    finally show ?thesis .
  next
    case 3
    then have "rnd (- y) \<le> rnd (- x)" using xy by (intro rnd_mono_pos) auto
    then show ?thesis by (simp add: rnd_minus)
  qed
qed

lemma rnd_error: "\<bar>rnd x - x\<bar> \<le> 2 powi (rexp x - 1)"
proof -
  let ?u = "(2::real) powi rexp x"
  have "rnd x - x = (real_of_int (rhe (x / ?u)) - x / ?u) * ?u"
    by (simp add: rnd_def field_simps)
  then have "\<bar>rnd x - x\<bar> = \<bar>real_of_int (rhe (x / ?u)) - x / ?u\<bar> * ?u"
    by (simp add: abs_mult)
  also have "\<dots> \<le> 1/2 * ?u" by (rule mult_right_mono [OF rhe_error]) simp
  also have "\<dots> = 2 powi (rexp x - 1)" by (simp add: power_int_diff)
  finally show ?thesis .
qed


subsection \<open>The executable rounding computes \<open>rnd\<close>\<close>

lemma flog2_floor:
  assumes "0 < n" and "0 < d"
  shows "flog2 n d = \<lfloor>log 2 (real_of_int n / real_of_int d)\<rfloor>"
proof -
  define k where "k = bitlen n - bitlen d"
  have bl: "1 \<le> bitlen x" if "0 < x" for x using that by (simp add: bitlen_alt_def)
  have up: "real_of_int x < 2 powi bitlen x" and low: "2 powi (bitlen x - 1) \<le> real_of_int x"
    if "0 < x" for x
  proof -
    from bitlen_bounds[OF that] have "x < 2 ^ nat (bitlen x)" and "2 ^ nat (bitlen x - 1) \<le> x" by auto
    then have "real_of_int x < real_of_int (2 ^ nat (bitlen x))"
      and "real_of_int (2 ^ nat (bitlen x - 1)) \<le> real_of_int x" by (simp_all only: of_int_less_iff of_int_le_iff)
    with bl[OF that] show "real_of_int x < 2 powi bitlen x" and "2 powi (bitlen x - 1) \<le> real_of_int x"
      by (simp_all add: powi2_nat)
  qed
  have d0: "0 < real_of_int d" and n0: "0 < real_of_int n" using assms by simp_all
  have "real_of_int n < 2 powi bitlen n" using up[OF assms(1)] .
  also have "\<dots> = 2 powi (k + 1) * 2 powi (bitlen d - 1)" by (simp add: k_def flip: powi2_add)
  also have "\<dots> \<le> 2 powi (k + 1) * real_of_int d" using low[OF assms(2)] by simp
  finally have hi: "real_of_int n / real_of_int d < 2 powi (k + 1)" using d0 by (simp add: field_simps)
  have "2 powi (k - 1) * real_of_int d \<le> 2 powi (k - 1) * 2 powi bitlen d" using up[OF assms(2)] by simp
  also have "\<dots> = 2 powi (bitlen n - 1)" by (simp add: k_def flip: powi2_add)
  also have "\<dots> \<le> real_of_int n" using low[OF assms(1)] .
  finally have lo: "2 powi (k - 1) \<le> real_of_int n / real_of_int d" using d0 by (simp add: field_simps)
  have "d * scale2 k \<le> n * scale2 (- k) \<longleftrightarrow>
      real_of_int d * real_of_int (scale2 k) \<le> real_of_int n * real_of_int (scale2 (- k))"
    by (simp flip: of_int_mult)
  also have "\<dots> \<longleftrightarrow> real_of_int (scale2 k) / real_of_int (scale2 (- k)) \<le> real_of_int n / real_of_int d"
    using d0 by (simp add: field_simps)
  also have "\<dots> \<longleftrightarrow> 2 powi k \<le> real_of_int n / real_of_int d" by (simp only: scale2_ratio)
  finally have c: "d * scale2 k \<le> n * scale2 (- k) \<longleftrightarrow> 2 powi k \<le> real_of_int n / real_of_int d" .
  show ?thesis
  proof (cases "2 powi k \<le> real_of_int n / real_of_int d")
    case True
    with hi have "\<lfloor>log 2 (real_of_int n / real_of_int d)\<rfloor> = k" by (intro floor_log2_unique)
    with True c show ?thesis by (simp add: flog2_def Let_def flip: k_def)
  next
    case False
    with lo have "\<lfloor>log 2 (real_of_int n / real_of_int d)\<rfloor> = k - 1" by (intro floor_log2_unique) auto
    with False c show ?thesis by (simp add: flog2_def Let_def flip: k_def)
  qed
qed

lemma scaled_quotient:
  assumes "0 < d"
  shows "real_of_int (n * scale2 (- e)) / real_of_int (d * scale2 e)
    = real_of_int n / real_of_int d / 2 powi e"
  using scale2_ratio[of e, symmetric] by simp

text \<open>The significand of a rounded value, before the carry into the next binade is normalised.\<close>

lemma significand_bounds:
  assumes "0 < x"
  shows "rhe (x / 2 powi rexp x) \<le> 2 ^ 53" and "0 \<le> rhe (x / 2 powi rexp x)"
    and "rexp x \<noteq> - 1074 \<Longrightarrow> 2 ^ 52 \<le> rhe (x / 2 powi rexp x)"
proof -
  have "x / 2 powi rexp x \<le> real_of_int (2 ^ 53)"
    using scaled_less[of x] assms by (simp add: powi2_add field_simps)
  then have "rhe (x / 2 powi rexp x) \<le> rhe (real_of_int (2 ^ 53))" by (rule rhe_mono)
  then show "rhe (x / 2 powi rexp x) \<le> 2 ^ 53" by (simp only: rhe_of_int)
  have "rhe (real_of_int 0) \<le> rhe (x / 2 powi rexp x)" using assms by (intro rhe_mono) simp
  then show "0 \<le> rhe (x / 2 powi rexp x)" by (simp only: rhe_of_int)
  assume "rexp x \<noteq> - 1074"
  then have "2 powi (rexp x + 52) \<le> x" using scaled_ge[of x] assms by simp
  then have "real_of_int (2 ^ 52) \<le> x / 2 powi rexp x" by (simp add: powi2_add field_simps)
  then have "rhe (real_of_int (2 ^ 52)) \<le> rhe (x / 2 powi rexp x)" by (rule rhe_mono)
  then show "2 ^ 52 \<le> rhe (x / 2 powi rexp x)" by (simp only: rhe_of_int)
qed


lemma round_ratio_rhe:
  assumes "0 < n" and "0 < d"
  defines "x \<equiv> real_of_int n / real_of_int d"
  shows "round_ratio s n d =
    (let q = rhe (x / 2 powi rexp x); e = rexp x;
         (m, f) = (if q = 2 ^ 53 then (2 ^ 52, e + 1) else (q, e))
     in if 971 < f then Inf s else Fin s m f)"
proof -
  have x: "0 < x" using assms by simp
  have re: "max (flog2 n d - 52) (- 1074) = rexp x"
    using x assms(1,2) by (simp add: rexp_def flog2_floor x_def)
  have "rne (n * scale2 (- rexp x)) (d * scale2 (rexp x))
      = rhe (real_of_int (n * scale2 (- rexp x)) / real_of_int (d * scale2 (rexp x)))"
    using assms(2) by (intro rne_rhe) simp
  also have "\<dots> = rhe (x / 2 powi rexp x)" by (simp only: scaled_quotient[OF assms(2)] x_def)
  finally show ?thesis using assms(1) by (simp only: round_ratio_def re Let_def) simp
qed

lemma overflow_bound: "971 < f \<Longrightarrow> 2 ^ 52 \<le> m \<Longrightarrow> 2 ^ 1024 \<le> real_of_int m * 2 powi f"
proof -
  assume "971 < f" and m: "2 ^ 52 \<le> m"
  have "2 ^ 1024 = (2::real) powi 52 * 2 powi 972" by simp
  also have "\<dots> \<le> 2 powi 52 * 2 powi f"
    using \<open>971 < f\<close> by (intro mult_left_mono powi2_le_iff [THEN iffD2]) simp_all
  also have "\<dots> \<le> real_of_int m * 2 powi f"
  proof (rule mult_right_mono)
    from m have "real_of_int (2 ^ 52) \<le> real_of_int m" by (simp only: of_int_le_iff)
    then show "2 powi 52 \<le> real_of_int m" by simp
  qed simp
  finally show ?thesis .
qed

lemma no_overflow_bound:
  assumes "m < 2 ^ 53" and "f \<le> 971"
  shows "real_of_int m * 2 powi f < 2 ^ 1024"
proof -
  from assms(1) have "real_of_int m < real_of_int (2 ^ 53)" by (simp only: of_int_less_iff)
  then have "real_of_int m * 2 powi f < 2 powi 53 * 2 powi f" by simp
  also have "\<dots> \<le> 2 powi 53 * 2 powi 971"
    using assms(2) by (intro mult_left_mono powi2_le_iff [THEN iffD2]) simp_all
  also have "\<dots> = 2 ^ 1024" by simp
  finally show ?thesis .
qed

text \<open>
  The one lemma about \<open>round_ratio\<close> the rest of the development uses: a well-formed double whose
  value is the rounded ratio, or an infinity exactly when the rounded ratio is out of range.
\<close>

lemma round_ratio_cases:
  assumes "0 \<le> n" and "0 < d"
  obtains (finite) m e where "round_ratio s n d = Fin s m e" and "wf_double (Fin s m e)"
      and "real_of_int m * 2 powi e = rnd (real_of_int n / real_of_int d)"
      and "rnd (real_of_int n / real_of_int d) < 2 ^ 1024"
  | (overflow) "round_ratio s n d = Inf s" and "2 ^ 1024 \<le> rnd (real_of_int n / real_of_int d)"
proof (cases "n = 0")
  case True
  have "round_ratio s n d = Fin s 0 (- 1074)" using True by (simp add: round_ratio_def)
  moreover have "wf_double (Fin s 0 (- 1074))" by simp
  ultimately show ?thesis using that(1)[of 0 "- 1074"] True by simp
next
  case False
  define x where "x = real_of_int n / real_of_int d"
  define q where "q = rhe (x / 2 powi rexp x)"
  define m where "m = (if q = 2 ^ 53 then 2 ^ 52 else q)"
  define f where "f = (if q = 2 ^ 53 then rexp x + 1 else rexp x)"
  have n: "0 < n" and x: "0 < x" using False assms by (simp_all add: x_def)
  have r: "round_ratio s n d = (if 971 < f then Inf s else Fin s m f)"
    using round_ratio_rhe[OF n assms(2), of s]
    by (simp add: Let_def m_def f_def q_def flip: x_def)
  have val: "real_of_int m * 2 powi f = rnd x"
  proof (cases "q = 2 ^ 53")
    case True
    then have "real_of_int m * 2 powi f = 2 ^ 52 * (2 * 2 powi rexp x)"
      by (simp add: m_def f_def powi2_add)
    also have "\<dots> = real_of_int q * 2 powi rexp x" using True by simp
    finally show ?thesis by (simp add: rnd_def q_def)
  qed (simp add: m_def f_def rnd_def q_def)
  have q: "0 \<le> q" "q \<le> 2 ^ 53" "rexp x \<noteq> - 1074 \<Longrightarrow> 2 ^ 52 \<le> q"
    using significand_bounds[OF x] by (simp_all add: q_def)
  have m: "0 \<le> m" "m < 2 ^ 53" using q by (auto simp: m_def)
  have f: "- 1074 \<le> f" using rexp_ge[of x] by (simp add: f_def)
  have norm: "m < 2 ^ 52 \<Longrightarrow> f = - 1074" using q(3) by (auto simp: m_def f_def split: if_splits)
  show ?thesis
  proof (cases "971 < f")
    case True
    with norm have "2 ^ 52 \<le> m" by (cases "m < 2 ^ 52") auto
    then have "2 ^ 1024 \<le> rnd x" using overflow_bound[of f m] True val by simp
    then show ?thesis using that(2) r True by (simp add: x_def)
  next
    case fin: False
    have "rnd x < 2 ^ 1024" using no_overflow_bound[of m f] m(2) fin val by simp
    moreover have "wf_double (Fin s m f)" using m f norm fin by auto
    ultimately show ?thesis using that(1)[of m f] r fin val by (simp add: x_def)
  qed
qed

subsection \<open>Rounded dyadic values, products and sums\<close>

definition rounds_to :: "double \<Rightarrow> real \<Rightarrow> bool" where
  \<comment> \<open>the double is the correctly rounded value of the real, overflow to the infinity of its sign\<close>
  "rounds_to z x \<longleftrightarrow> wf_double z \<and>
     (if \<bar>rnd x\<bar> < 2 ^ 1024 then isfinite z \<and> dval z = rnd x else z = Inf (x < 0))"

lemma round_ratio_rounds_to:
  assumes "0 \<le> n" and "0 < d"
  shows "rounds_to (round_ratio s n d) ((if s then - 1 else 1) * (real_of_int n / real_of_int d))"
proof -
  let ?x = "real_of_int n / real_of_int d"
  have x0: "0 \<le> rnd ?x" using assms by (intro rnd_nonneg) simp
  show ?thesis
  proof (rule round_ratio_cases[OF assms, of s])
    fix m e
    assume r: "round_ratio s n d = Fin s m e" and wf: "wf_double (Fin s m e)"
      and v: "real_of_int m * 2 powi e = rnd ?x" and lt: "rnd ?x < 2 ^ 1024"
    have "dval (Fin s m e) = (if s then - 1 else 1) * rnd ?x" by (simp add: v [symmetric])
    with x0 lt show ?thesis
      by (simp only: r rounds_to_def wf isfinite.simps) (simp add: rnd_minus)
  next
    assume r: "round_ratio s n d = Inf s" and ov: "2 ^ 1024 \<le> rnd ?x"
    then have "n \<noteq> 0" by auto
    then have "(if s then - 1 else 1) * ?x < 0 \<longleftrightarrow> s"
      using assms by (auto simp: divide_less_0_iff)
    with r ov x0 show ?thesis by (simp only: rounds_to_def r wf_double.simps) (simp add: rnd_minus)
  qed
qed

lemma round_dyadic_rounds_to:
  assumes "0 \<le> m"
  shows "rounds_to (round_dyadic s m e) (real_of_int (sgn_int s m) * 2 powi e)"
proof -
  have "real_of_int (m * scale2 e) / real_of_int (scale2 (- e)) = real_of_int m * 2 powi e"
    using scale2_ratio[of e] by (simp flip: times_divide_eq_right)
  then show ?thesis
    using round_ratio_rounds_to[of "m * scale2 e" "scale2 (- e)" s] assms
    by (cases s) (simp_all add: round_dyadic_def less_imp_le)
qed

lemma isfinite_Fin: "isfinite x \<longleftrightarrow> (\<exists>s m e. x = Fin s m e)"
  by (cases x) auto

lemma mult_rounds_to:
  assumes "isfinite x" and "isfinite y" and "wf_double x" and "wf_double y"
  shows "rounds_to (x * y) (dval x * dval y)"
proof -
  from assms obtain s m e t n f where xy: "x = Fin s m e" "y = Fin t n f"
    by (auto simp: isfinite_Fin)
  have "real_of_int (sgn_int (s \<noteq> t) (m * n)) * 2 powi (e + f) = dval x * dval y"
    by (simp add: xy powi2_add sgn_int_def)
  moreover have "0 \<le> m * n" using assms(3,4) by (simp add: xy)
  ultimately show ?thesis
    using round_dyadic_rounds_to[of "m * n" "s \<noteq> t" "e + f"] by (simp add: xy times_double_def)
qed

lemma add_exact_value:
  fixes e f :: int
  defines "g \<equiv> min e f"
  shows "real_of_int (common_scale m e g + common_scale n f g) * 2 powi g
     = real_of_int m * 2 powi e + real_of_int n * 2 powi f"
  by (simp add: distrib_right common_scale_val g_def)

lemma add_rounds_to:
  assumes "isfinite x" and "isfinite y"
  shows "rounds_to (x + y) (dval x + dval y)"
proof -
  from assms obtain s m e t n f where xy: "x = Fin s m e" "y = Fin t n f"
    by (auto simp: isfinite_Fin)
  define g where "g = min e f"
  define k where "k = common_scale (sgn_int s m) e g + common_scale (sgn_int t n) f g"
  define b where "b = (if k = 0 then s \<and> t else k < 0)"
  have "sgn_int b \<bar>k\<bar> = k" by (auto simp: sgn_int_def b_def)
  then have "real_of_int (sgn_int b \<bar>k\<bar>) * 2 powi g = dval x + dval y"
    using add_exact_value[of "sgn_int s m" e f "sgn_int t n"] by (simp add: xy g_def k_def)
  moreover have "x + y = round_dyadic b \<bar>k\<bar> g"
    by (simp add: xy plus_double_def Let_def k_def g_def b_def)
  ultimately show ?thesis using round_dyadic_rounds_to[of "\<bar>k\<bar>" b g] by simp
qed

subsection \<open>Comparisons\<close>

lemma common_scale_less_iff:
  "common_scale m e (min e f) < common_scale n f (min e f)
     \<longleftrightarrow> real_of_int m * 2 powi e < real_of_int n * 2 powi f"
proof -
  have "common_scale m e (min e f) < common_scale n f (min e f)
     \<longleftrightarrow> real_of_int (common_scale m e (min e f)) * 2 powi (min e f)
        < real_of_int (common_scale n f (min e f)) * 2 powi (min e f)"
    by (simp add: mult_less_cancel_right_pos)
  then show ?thesis by (simp add: common_scale_val)
qed

lemma wf_dval_bounds:
  assumes "wf_double x" and "isfinite x"
  shows "\<bar>dval x\<bar> < 2 ^ 1024"
proof -
  from assms obtain s m e where "x = Fin s m e" by (auto simp: isfinite_Fin)
  with assms show ?thesis using no_overflow_bound[of m e] by (simp add: abs_mult flip: of_int_abs)
qed

lemma less_dval:
  assumes "wf_double x" and "wf_double y" and "x \<noteq> NaN" and "y \<noteq> NaN"
  shows "x < y \<longleftrightarrow> dval x < dval y"
proof (cases "isfinite x"; cases "isfinite y")
  assume "isfinite x" "isfinite y"
  then show ?thesis
    by (auto simp: isfinite_Fin less_double_def Let_def common_scale_less_iff)
next
  assume "isfinite x" and "\<not> isfinite y"
  with assms wf_dval_bounds[of x] show ?thesis by (cases x; cases y) (auto simp: less_double_def)
next
  assume "\<not> isfinite x" and "isfinite y"
  with assms wf_dval_bounds[of y] show ?thesis by (cases x; cases y) (auto simp: less_double_def)
next
  assume "\<not> isfinite x" and "\<not> isfinite y"
  with assms show ?thesis by (cases x; cases y) (auto simp: less_double_def)
qed

lemma common_scale_eq_iff:
  "common_scale m e (min e f) = common_scale n f (min e f)
     \<longleftrightarrow> real_of_int m * 2 powi e = real_of_int n * 2 powi f"
  using common_scale_less_iff[of m e f n] common_scale_less_iff[of n f e m]
  by (auto simp: min.commute)

lemma double_eq_dval:
  assumes "wf_double x" and "wf_double y" and "x \<noteq> NaN" and "y \<noteq> NaN"
  shows "double_eq x y \<longleftrightarrow> dval x = dval y"
  using assms wf_dval_bounds[of x] wf_dval_bounds[of y]
  by (cases x; cases y) (auto simp: Let_def common_scale_eq_iff)

lemma le_dval:
  assumes "wf_double x" and "wf_double y" and "x \<noteq> NaN" and "y \<noteq> NaN"
  shows "x \<le> y \<longleftrightarrow> dval x \<le> dval y"
proof -
  have "x \<le> y \<longleftrightarrow> x < y \<or> double_eq x y" by (simp add: less_eq_double_def less_double_def)
  with assms show ?thesis by (auto simp: less_dval double_eq_dval)
qed

lemma neg_double: "isfinite (- x) = isfinite x" "wf_double (- x) = wf_double x" "dval (- x) = - dval x"
  by (cases x; simp add: uminus_double_def sgn_int_def)+

lemma minus_double_eq: "x - y = x + (- y)" for x y :: double
  by (simp add: minus_double_def plus_double_def uminus_double_def)

lemma minus_rounds_to:
  "isfinite x \<Longrightarrow> isfinite y \<Longrightarrow> rounds_to (x - y) (dval x - dval y)"
  using add_rounds_to[of x "- y"] by (simp add: minus_double_eq neg_double)

lemma less_NaN [simp]: "\<not> NaN < x" "\<not> x < NaN"
  by (cases x; simp add: less_double_def)+

lemma clamp_NaN [simp]: "clamp NaN lo hi = NaN"
  by (simp add: clamp_def)

lemma clamp_dval:
  assumes "wf_double v" "wf_double lo" "wf_double hi"
    and "v \<noteq> NaN" "lo \<noteq> NaN" "hi \<noteq> NaN"
  shows "dval (clamp v lo hi) = (if dval v < dval lo then dval lo else if dval hi < dval v then dval hi else dval v)"
  using assms by (simp add: clamp_def less_dval)

subsection \<open>Truncation\<close>

lemma trunc_double_dval:
  assumes "wf_double x" and "isfinite x"
  shows "trunc_double x = Some (if 0 \<le> dval x then \<lfloor>dval x\<rfloor> else \<lceil>dval x\<rceil>)"
proof -
  from assms obtain s m e where x: "x = Fin s m e" by (auto simp: isfinite_Fin)
  have m: "0 \<le> m" using assms x by simp
  define k where "k = (if 0 \<le> e then m * 2 ^ nat e else m div 2 ^ nat (- e))"
  define v where "v = real_of_int m * 2 powi e"
  have fl: "\<lfloor>v\<rfloor> = k"
  proof (cases "0 \<le> e")
    case True
    then have "v = real_of_int k" by (simp add: v_def k_def powi2_nat)
    then show ?thesis by simp
  next
    case False
    then have "v = real_of_int m / real_of_int (2 ^ nat (- e))"
      by (simp add: v_def power_int_def field_simps)
    with False show ?thesis by (simp only: floor_divide_of_int_eq k_def if_False)
  qed
  have v0: "0 \<le> v" using m by (simp add: v_def)
  have t: "trunc_double x = Some (sgn_int s k)" by (simp add: x k_def)
  have d: "dval x = (if s then - v else v)" by (simp add: x v_def)
  consider "\<not> s" | "s" "v = 0" | "s" "0 < v" using v0 by linarith
  then show ?thesis
  proof cases
    case 1
    then show ?thesis using v0 by (simp only: t d fl if_False sgn_int_def if_True)
  next
    case 2
    then have "k = 0" using fl by simp
    with 2 show ?thesis by (simp add: t d)
  next
    case 3
    then have "\<not> 0 \<le> - v" by simp
    with 3(1) show ?thesis by (simp only: t d if_True if_False sgn_int_def ceiling_minus fl)
  qed
qed


subsection \<open>Representable values\<close>

lemma representableI: "\<bar>m\<bar> \<le> 2 ^ 53 \<Longrightarrow> k \<le> 1074 \<Longrightarrow> representable (real_of_int m / 2 ^ k)"
proof -
  assume m: "\<bar>m\<bar> \<le> 2 ^ 53" and k: "k \<le> 1074"
  have "real_of_int m / 2 ^ k = real_of_int m * 2 powi (- int k)"
    by (simp add: power_int_minus field_simps)
  with m k show ?thesis unfolding representable_def by (intro exI[of _ m] exI[of _ "- int k"]) simp
qed

lemma representable_int: "\<bar>m\<bar> \<le> 2 ^ 53 \<Longrightarrow> representable (real_of_int m)"
  using representableI[of m 0] by simp

lemma rnd_int: "\<bar>m\<bar> \<le> 2 ^ 53 \<Longrightarrow> rnd (real_of_int m) = real_of_int m"
  by (intro rnd_representable representable_int)

lemma rnd_le: "representable y \<Longrightarrow> x \<le> y \<Longrightarrow> rnd x \<le> y"
  using rnd_mono[of x y] by (simp add: rnd_representable)

lemma rnd_ge: "representable y \<Longrightarrow> y \<le> x \<Longrightarrow> y \<le> rnd x"
  using rnd_mono[of y x] by (simp add: rnd_representable)

lemma rounds_to_small:
  "rounds_to z x \<Longrightarrow> \<bar>rnd x\<bar> < 2 ^ 1024 \<Longrightarrow> wf_double z \<and> isfinite z \<and> dval z = rnd x"
  by (simp add: rounds_to_def)

lemma rounds_to_not_NaN: "rounds_to z x \<Longrightarrow> wf_double z \<and> z \<noteq> NaN"
  by (auto simp: rounds_to_def split: if_splits)

lemma double_of_int_val:
  assumes "\<bar>i\<bar> \<le> 2 ^ 53"
  shows "wf_double (double_of_int i) \<and> isfinite (double_of_int i) \<and> dval (double_of_int i) = real_of_int i"
proof -
  have "(if i < 0 then - 1 else 1) * (real_of_int \<bar>i\<bar> / real_of_int 1) = real_of_int i" by simp
  then have "rounds_to (double_of_int i) (real_of_int i)"
    using round_ratio_rounds_to[of "\<bar>i\<bar>" 1 "i < 0"] by (simp add: double_of_int_def)
  moreover have "\<bar>real_of_int i\<bar> < 2 ^ 1024"
  proof -
    have "real_of_int \<bar>i\<bar> \<le> real_of_int (2 ^ 53)" using assms by (simp only: of_int_le_iff)
    then show ?thesis by simp
  qed
  ultimately show ?thesis using rounds_to_small rnd_int[OF assms] by fastforce
qed

lemma half_val:
  "wf_double (double_lit 5 10)" "isfinite (double_lit 5 10)" "dval (double_lit 5 10) = 1/2"
proof -
  have "double_lit 5 10 = Fin False (2 ^ 52) (- 53)" by code_simp
  then show "wf_double (double_lit 5 10)" "isfinite (double_lit 5 10)" "dval (double_lit 5 10) = 1/2"
    by (simp_all add: power_int_def power_divide)
qed

end
