(* ===== verification/Sbs1_Fields.thy ===== *)
theory Sbs1_Fields
  imports Charconv Adsb_Data Rounding
begin

text \<open>
  The field parsers of src/src/dump1090.cpp: sbs1\_to\_address, sbs1\_to\_double, sbs1\_to\_altitude,
  sbs1\_to\_vertrate and sbs1\_to\_squawk. The width of long is a parameter where the source uses
  long, and every result is shown not to depend on it. A locale states the contract of a strict
  field parser, which the four integer parsers satisfy.
\<close>

subsection \<open>The parsers\<close>

definition sbs1_address_base :: int where "sbs1_address_base = 16"

definition icao_address_max :: int where "icao_address_max = 0xFFFFFF"

definition sbs1_to_address :: "string \<Rightarrow> u32 option" where
  "sbs1_to_address s =
     (let (rest, ec, v) = from_chars_unsigned (2 ^ 32 - 1) sbs1_address_base s 0
      in if ec \<noteq> errc_ok \<or> rest \<noteq> [] \<or> v = 0 \<or> icao_address_max < v then None
         else Some (word_of_int v))"

definition max_latitude :: double where "max_latitude = double_lit 90 1"

definition max_longitude :: double where "max_longitude = double_lit 180 1"

definition max_track :: double where "max_track = double_lit 360 1"

definition max_speed :: double where "max_speed = dbl_max"

definition sbs1_to_double :: "string \<Rightarrow> double \<Rightarrow> double \<Rightarrow> double option" where
  "sbs1_to_double s lo hi =
     (let (rest, ec, v) = from_chars_double s zero_double
      in if ec \<noteq> errc_ok \<or> rest \<noteq> [] \<or> \<not> isfinite v \<or> v < lo \<or> hi < v then None
         else Some v)"

definition looks_negative :: "string \<Rightarrow> bool" where
  "looks_negative s = (s \<noteq> [] \<and> hd s = CHR ''-'')"

definition sbs1_to_altitude :: "string \<Rightarrow> u32 option" where
  "sbs1_to_altitude s =
     (let ll_min = - (2 ^ 63); ll_max = 2 ^ 63 - 1;
          (rest, ec, v) = from_chars_signed ll_min ll_max 10 s 0
      in if rest \<noteq> [] \<or> (ec \<noteq> errc_ok \<and> ec \<noteq> result_out_of_range) then None
         else (let v = (if ec = result_out_of_range then (if looks_negative s then ll_min else ll_max) else v)
               in Some (word_of_int (clamp_int v 0 (2 ^ 32 - 1)))))"

definition sbs1_to_vertrate :: "nat \<Rightarrow> string \<Rightarrow> i16 option" where
  "sbs1_to_vertrate lw s =
     (let l_min = - (2 ^ (lw - 1)); l_max = 2 ^ (lw - 1) - 1;
          (rest, ec, v) = from_chars_signed l_min l_max 10 s 0
      in if rest \<noteq> [] \<or> (ec \<noteq> errc_ok \<and> ec \<noteq> result_out_of_range) then None
         else (let v = (if ec = result_out_of_range then (if looks_negative s then l_min else l_max) else v)
               in Some (word_of_int (clamp_int v (- (2 ^ 15)) (2 ^ 15 - 1)))))"

function squawk_digits_ok :: "int \<Rightarrow> bool" where
  \<comment> \<open>the loop over the decimal digits\<close>
  "squawk_digits_ok digits =
     (if 0 < digits then (if 7 < digits mod 10 then False else squawk_digits_ok (digits div 10)) else True)"
  by pat_completeness auto
termination
  by (relation "measure nat") (auto simp: nat_less_eq_zless)

declare squawk_digits_ok.simps [simp del]

definition sbs1_to_squawk :: "nat \<Rightarrow> string \<Rightarrow> u16 option" where
  "sbs1_to_squawk lw s =
     (let squawk_max = 7777;
          (rest, ec, v) = from_chars_unsigned (2 ^ lw - 1) 10 s 0
      in if rest \<noteq> [] \<or> ec \<noteq> errc_ok \<or> squawk_max < v then None
         else if \<not> squawk_digits_ok v then None
         else Some (word_of_int v))"

subsection \<open>The contract of a strict field parser\<close>

text \<open>
  A strict parser accepts only non-empty fields built from a fixed alphabet: whatever carries any
  other character, in particular trailing garbage, is rejected. An exact one accepts exactly the
  fields of a grammar and returns their value.
\<close>

locale strict_field_parser =
  fixes parse :: "string \<Rightarrow> 'a option" and alphabet :: "char \<Rightarrow> bool"
  assumes accepts_alphabet: "parse s = Some v \<Longrightarrow> list_all alphabet s"
    and empty_rejected: "parse [] = None"
begin

lemma foreign_rejected: "c \<in> set s \<Longrightarrow> \<not> alphabet c \<Longrightarrow> parse s = None"
  using accepts_alphabet[of s] by (cases "parse s") (auto simp: list_all_iff)

lemma trailing_garbage_rejected: "\<not> alphabet c \<Longrightarrow> parse (s @ c # t) = None"
  by (rule foreign_rejected[of c]) simp_all

end

locale exact_field_parser = strict_field_parser parse alphabet
  for parse :: "string \<Rightarrow> 'a option" and alphabet :: "char \<Rightarrow> bool" +
  fixes grammar :: "string \<Rightarrow> bool" and value_of :: "string \<Rightarrow> 'a"
  assumes parse_eq: "parse s = (if grammar s then Some (value_of s) else None)"
begin

lemma accepted_value: "parse s = Some v \<longleftrightarrow> grammar s \<and> v = value_of s"
  by (auto simp: parse_eq)

lemma rejected_iff: "parse s = None \<longleftrightarrow> \<not> grammar s"
  by (simp add: parse_eq)

end

definition dash_or_digit :: "char \<Rightarrow> bool" where
  "dash_or_digit c \<longleftrightarrow> c = CHR ''-'' \<or> is_digit 10 c"

lemma signed_numeral_alphabet: "signed_numeral s \<Longrightarrow> list_all dash_or_digit s \<and> s \<noteq> []"
  by (cases s) (auto simp: signed_numeral_def is_neg_def digit_string_def dash_or_digit_def list_all_iff
      split: if_splits)

lemma looks_negative_is_neg: "looks_negative s = is_neg s"
  by (simp add: looks_negative_def is_neg_def)

text \<open>Saturating in two steps, with the sign read off the text, is clamping once.\<close>

lemma saturate_clamp:
  assumes "signed_numeral s" and "l \<le> lo" and "hi \<le> h" and "lo \<le> hi" and "l \<le> 0" "0 \<le> h"
  shows "clamp_int (if signed_val s < l \<or> h < signed_val s then (if is_neg s then l else h) else signed_val s) lo hi
    = clamp_int (signed_val s) lo hi"
proof -
  have "is_neg s \<Longrightarrow> signed_val s \<le> 0" "\<not> is_neg s \<Longrightarrow> 0 \<le> signed_val s"
    using digits_val_nonneg[of 10] by (simp_all add: signed_val_def)
  with assms(2-) show ?thesis by (auto simp: clamp_int_def)
qed

lemma sbs1_to_altitude_eq:
  "sbs1_to_altitude s =
     (if signed_numeral s then Some (word_of_int (clamp_int (signed_val s) 0 (2 ^ 32 - 1))) else None)"
proof (cases "signed_numeral s")
  case True
  show ?thesis
    using saturate_clamp[OF True, of "- (2 ^ 63)" 0 "2 ^ 32 - 1" "2 ^ 63 - 1"]
    by (auto simp: sbs1_to_altitude_def from_chars_signed_full[OF True] Let_def looks_negative_is_neg True
        simp del: from_chars_signed.simps)
next
  case False
  obtain rest ec v where r: "from_chars_signed (- (2 ^ 63)) (2 ^ 63 - 1) 10 s 0 = (rest, ec, v)"
    by (metis prod_cases3)
  with from_chars_signed_other[OF False r] False show ?thesis
    by (auto simp: sbs1_to_altitude_def r Let_def simp del: from_chars_signed.simps)
qed


lemma sbs1_to_vertrate_eq:
  assumes lw: "16 \<le> lw"
  shows "sbs1_to_vertrate lw s =
     (if signed_numeral s then Some (word_of_int (clamp_int (signed_val s) (- (2 ^ 15)) (2 ^ 15 - 1))) else None)"
proof -
  let ?h = "2 ^ (lw - 1) :: int"
  have "(2::int) ^ 15 \<le> ?h" using lw by (intro power_increasing) simp_all
  then have b: "- ?h \<le> - (2 ^ 15)" "2 ^ 15 - 1 \<le> ?h - 1" by simp_all
  show ?thesis
  proof (cases "signed_numeral s")
    case True
    show ?thesis
      using saturate_clamp[OF True b] b
      by (auto simp: sbs1_to_vertrate_def from_chars_signed_full[OF True] Let_def looks_negative_is_neg True
          simp del: from_chars_signed.simps)
  next
    case False
    obtain rest ec v where r: "from_chars_signed (- ?h) (?h - 1) 10 s 0 = (rest, ec, v)"
      by (metis prod_cases3)
    with from_chars_signed_other[OF False r] False show ?thesis
      by (auto simp: sbs1_to_vertrate_def r Let_def simp del: from_chars_signed.simps)
  qed
qed

lemma squawk_digits_ok_snoc:
  assumes "0 \<le> a" "0 \<le> d" "d < 10"
  shows "squawk_digits_ok (a * 10 + d) \<longleftrightarrow> d \<le> 7 \<and> squawk_digits_ok a"
proof (cases "0 < a * 10 + d")
  case True
  with assms show ?thesis by (subst squawk_digits_ok.simps) (auto simp: div_mult_self3)
next
  case False
  with assms have "a = 0" "d = 0" by simp_all
  then show ?thesis by simp
qed

lemma squawk_digits_ok_octal:
  "digit_string 10 s \<Longrightarrow> squawk_digits_ok (digits_val 10 s) \<longleftrightarrow> list_all (is_digit 8) s"
proof (induction s rule: rev_induct)
  case Nil
  then show ?case by (simp add: digit_string_def)
next
  case (snoc c s)
  have c: "0 \<le> digit_value c" "digit_value c < 10"
    using snoc.prems by (simp_all add: digit_string_def digit_value_nonneg is_digit_def)
  have d8: "is_digit 8 c \<longleftrightarrow> digit_value c \<le> 7" by (auto simp: is_digit_def)
  have ih: "squawk_digits_ok (digits_val 10 s) \<longleftrightarrow> list_all (is_digit 8) s"
  proof (cases "s = []")
    case True
    then show ?thesis by (simp add: squawk_digits_ok.simps)
  next
    case False
    then show ?thesis using snoc by (simp add: digit_string_def)
  qed
  show ?case
    using squawk_digits_ok_snoc[OF digits_val_nonneg[of 10 s] c] ih d8
    by (simp add: digits_val_snoc conj_commute)
qed

lemma octal_is_decimal: "list_all (is_digit 8) s \<Longrightarrow> list_all (is_digit 10) s"
  by (auto simp: list_all_iff is_digit_def)

lemma sbs1_to_squawk_eq:
  assumes lw: "16 \<le> lw"
  shows "sbs1_to_squawk lw s =
     (if digit_string 8 s \<and> digits_val 10 s \<le> 7777 then Some (word_of_int (digits_val 10 s)) else None)"
proof -
  let ?h = "2 ^ lw - 1 :: int"
  have "(2::int) ^ 16 \<le> 2 ^ lw" using lw by (intro power_increasing) simp_all
  then have h: "7777 \<le> ?h" by simp
  show ?thesis
  proof (cases "digit_string 10 s")
    case True
    have "squawk_digits_ok (digits_val 10 s) \<longleftrightarrow> digit_string 8 s"
      using squawk_digits_ok_octal[OF True] True by (simp add: digit_string_def)
    with h show ?thesis
      by (auto simp: sbs1_to_squawk_def from_chars_unsigned_full[OF True] Let_def
          simp del: from_chars_unsigned.simps)
  next
    case False
    then have "\<not> digit_string 8 s" using octal_is_decimal[of s] by (auto simp: digit_string_def)
    obtain rest ec v where r: "from_chars_unsigned ?h 10 s 0 = (rest, ec, v)"
      by (metis prod_cases3)
    with from_chars_unsigned_other[OF False r] \<open>\<not> digit_string 8 s\<close> show ?thesis
      by (auto simp: sbs1_to_squawk_def r Let_def simp del: from_chars_unsigned.simps)
  qed
qed

definition icao_numeral :: "string \<Rightarrow> bool" where
  "icao_numeral s \<longleftrightarrow> digit_string 16 s \<and> 0 < digits_val 16 s \<and> digits_val 16 s \<le> 0xFFFFFF"

lemma sbs1_to_address_eq:
  "sbs1_to_address s = (if icao_numeral s then Some (word_of_int (digits_val 16 s)) else None)"
proof (cases "digit_string 16 s")
  case True
  then show ?thesis
    using digits_val_nonneg[of 16 s]
    by (auto simp: sbs1_to_address_def sbs1_address_base_def icao_address_max_def icao_numeral_def
        from_chars_unsigned_full[OF True] Let_def simp del: from_chars_unsigned.simps)
next
  case False
  obtain rest ec v where r: "from_chars_unsigned (2 ^ 32 - 1) 16 s 0 = (rest, ec, v)"
    by (metis prod_cases3)
  with from_chars_unsigned_other[OF False r] False show ?thesis
    by (auto simp: sbs1_to_address_def sbs1_address_base_def icao_numeral_def r Let_def
        simp del: from_chars_unsigned.simps)
qed

subsection \<open>Interpretations of the contract\<close>

interpretation altitude_parser: exact_field_parser sbs1_to_altitude dash_or_digit
  signed_numeral "\<lambda>s. word_of_int (clamp_int (signed_val s) 0 (2 ^ 32 - 1))"
  by unfold_locales
    (auto simp: sbs1_to_altitude_eq signed_numeral_alphabet split: if_splits
      dest: signed_numeral_alphabet)

interpretation address_parser: exact_field_parser sbs1_to_address "is_digit 16"
  icao_numeral "\<lambda>s. word_of_int (digits_val 16 s)"
  by unfold_locales (auto simp: sbs1_to_address_eq icao_numeral_def digit_string_def split: if_splits)

interpretation vertrate_parser: exact_field_parser "sbs1_to_vertrate (max 16 lw)" dash_or_digit
  signed_numeral "\<lambda>s. word_of_int (clamp_int (signed_val s) (- (2 ^ 15)) (2 ^ 15 - 1))" for lw
  by unfold_locales
    (auto simp: sbs1_to_vertrate_eq signed_numeral_alphabet split: if_splits
      dest: signed_numeral_alphabet)

interpretation squawk_parser: exact_field_parser "sbs1_to_squawk (max 16 lw)" "is_digit 8"
  "\<lambda>s. digit_string 8 s \<and> digits_val 10 s \<le> 7777" "\<lambda>s. word_of_int (digits_val 10 s)" for lw
  by unfold_locales (auto simp: sbs1_to_squawk_eq digit_string_def split: if_splits)

end
