(* ===== verification/Sbs1_Double.thy ===== *)
theory Sbs1_Double
  imports Sbs1_Fields
begin

text \<open>
  The decimal field parser sbs1\_to\_double of src/src/dump1090.cpp: what it accepts, that the
  accepted value is finite and in range, and that a plain decimal is read as the nearest double.
\<close>

definition float_char :: "char \<Rightarrow> bool" where
  "float_char c \<longleftrightarrow> is_digit 10 c \<or> c \<in> set ''.+-eE''"

subsection \<open>The characters of an accepted field\<close>

lemma list_all_take_drop:
  "list_all P (takeWhile Q s) \<Longrightarrow> list_all P (dropWhile Q s) \<Longrightarrow> list_all P s"
  by (metis list_all_append takeWhile_dropWhile_id)

lemma digits_float_char: "list_all float_char (takeWhile (is_digit 10) s)"
  by (auto simp: list_all_iff float_char_def dest: set_takeWhileD)

lemma parse_exponent_chars: "parse_exponent s = ([], x) \<Longrightarrow> list_all float_char s"
proof -
  assume a: "parse_exponent s = ([], x)"
  show ?thesis
  proof (cases "s = []")
    case False
    define t where "t = tl s"
    define u where "u = (if t \<noteq> [] \<and> (hd t = CHR ''-'' \<or> hd t = CHR ''+'') then tl t else t)"
    from False have s: "s = hd s # t" by (simp add: t_def)
    from a False have e: "hd s = CHR ''e'' \<or> hd s = CHR ''E''" and d: "dropWhile (is_digit 10) u = []"
      by (auto simp: parse_exponent_def Let_def t_def [symmetric] u_def [symmetric] split: if_splits)
    have "list_all float_char u"
      by (rule list_all_take_drop[OF digits_float_char]) (subst d, simp)
    then have "list_all float_char t"
      by (cases t) (auto simp: u_def float_char_def split: if_splits)
    then show ?thesis using e by (subst s) (auto simp: float_char_def)
  qed simp
qed

lemma parse_decimal_chars: "parse_decimal s = Some ([], m, x) \<Longrightarrow> list_all float_char s \<and> s \<noteq> [] \<and> 0 \<le> m"
proof -
  assume a: "parse_decimal s = Some ([], m, x)"
  define r1 where "r1 = dropWhile (is_digit 10) s"
  define r2 where "r2 = (if r1 \<noteq> [] \<and> hd r1 = CHR ''.'' then dropWhile (is_digit 10) (tl r1) else r1)"
  from a obtain y where e: "parse_exponent r2 = ([], y)"
    by (auto simp: parse_decimal_def Let_def r1_def [symmetric] r2_def split: if_splits prod.splits)
  then have "list_all float_char r2" by (rule parse_exponent_chars)
  then have "list_all float_char r1"
    using list_all_take_drop[OF digits_float_char, of "tl r1"]
    by (cases r1) (auto simp: r2_def float_char_def split: if_splits)
  then have "list_all float_char s" using list_all_take_drop[OF digits_float_char] by (simp add: r1_def)
  moreover have "s \<noteq> []" using a by (auto simp: parse_decimal_def)
  moreover have "0 \<le> m" using a
    by (auto simp: parse_decimal_def Let_def digits_val_nonneg split: if_splits prod.splits)
  ultimately show ?thesis by simp
qed

lemma decimal_to_double_rounds_to:
  assumes "0 \<le> m"
  shows "rounds_to (decimal_to_double neg m x) ((if neg then - 1 else 1) * (real_of_int m * 10 powi x))"
proof (cases "0 \<le> x")
  case True
  then have e: "real_of_int m * 10 powi x = real_of_int (m * 10 ^ nat x) / real_of_int 1"
    by (simp add: power_int_def)
  show ?thesis unfolding e
    using True round_ratio_rounds_to[of "m * 10 ^ nat x" 1 neg] assms by (simp add: decimal_to_double_def)
next
  case False
  then have e: "real_of_int m * 10 powi x = real_of_int m / real_of_int (10 ^ nat (- x))"
    by (simp add: power_int_def field_simps)
  show ?thesis unfolding e
    using False round_ratio_rounds_to[of m "10 ^ nat (- x)" neg] assms by (simp add: decimal_to_double_def)
qed

lemma from_chars_double_finite:
  assumes "from_chars_double s v0 = ([], errc_ok, v)" and "isfinite v"
  obtains m x where "parse_decimal (if is_neg s then tl s else s) = Some ([], m, x)"
    and "v = decimal_to_double (is_neg s) m x"
  using assms
  by (auto simp: from_chars_double_def Let_def is_neg_def [symmetric] split: if_splits option.splits prod.splits)

lemma sbs1_to_double_Some:
  assumes "sbs1_to_double s lo hi = Some v"
  shows "isfinite v \<and> wf_double v \<and> \<not> v < lo \<and> \<not> hi < v \<and> s \<noteq> [] \<and> list_all float_char s"
proof -
  from assms have f: "from_chars_double s zero_double = ([], errc_ok, v)" and fin: "isfinite v"
    and b: "\<not> v < lo" "\<not> hi < v"
    by (auto simp: sbs1_to_double_def split: prod.splits if_splits)
  obtain m x where p: "parse_decimal (if is_neg s then tl s else s) = Some ([], m, x)"
    and v: "v = decimal_to_double (is_neg s) m x"
    using from_chars_double_finite[OF f fin] .
  note c = parse_decimal_chars[OF p]
  have "wf_double v" using decimal_to_double_rounds_to[of m] c by (simp add: v rounds_to_def)
  moreover have "s \<noteq> [] \<and> list_all float_char s"
    using c by (cases s) (auto simp: is_neg_def float_char_def split: if_splits)
  ultimately show ?thesis using fin b by simp
qed

interpretation double_parser: strict_field_parser "\<lambda>s. sbs1_to_double s lo hi" float_char for lo hi
proof
  show "list_all float_char s" if "sbs1_to_double s lo hi = Some v" for s v
    using sbs1_to_double_Some[OF that] by simp
  show "sbs1_to_double [] lo hi = None"
    using sbs1_to_double_Some[of "[]"] by (cases "sbs1_to_double [] lo hi") auto
qed

subsection \<open>Plain decimals\<close>

definition plain_decimal :: "bool \<Rightarrow> string \<Rightarrow> string \<Rightarrow> string" where
  "plain_decimal neg ip fp =
     (if neg then ''-'' else []) @ ip @ (if fp = [] then [] else CHR ''.'' # fp)"

definition plain_value :: "bool \<Rightarrow> string \<Rightarrow> string \<Rightarrow> real" where
  "plain_value neg ip fp =
     (if neg then - 1 else 1) * (real_of_int (digits_val 10 (ip @ fp)) / 10 ^ length fp)"

lemma digit_char_range: "is_digit 10 c \<longleftrightarrow> 48 \<le> (of_char c :: nat) \<and> (of_char c :: nat) \<le> 57"
proof -
  have "(of_char c :: int) = int (of_char c)" by (simp only: of_nat_of_char)
  then show ?thesis unfolding is_digit_def digit_value_def Let_def by auto
qed

lemma ascii_lower_digit: "is_digit 10 c \<Longrightarrow> ascii_lower c = c"
  by (auto simp: digit_char_range ascii_lower_def)

lemma not_digits [simp]:
  "\<not> is_digit 10 (CHR ''.'')" "\<not> is_digit 10 (CHR ''-'')" "\<not> is_digit 10 (CHR ''i'')" "\<not> is_digit 10 (CHR ''n'')"
  by code_simp+

lemma digit_no_prefix:
  assumes "is_digit 10 c" and "w \<noteq> []" and "\<not> is_digit 10 (hd w)"
  shows "\<not> has_prefix_ci w (c # s)"
  using assms by (cases w) (auto simp: has_prefix_ci_def ascii_lower_digit)

lemma parse_decimal_plain:
  assumes "list_all (is_digit 10) ip" "list_all (is_digit 10) fp" "ip \<noteq> []"
  shows "parse_decimal (ip @ (if fp = [] then [] else CHR ''.'' # fp)) =
    Some ([], digits_val 10 (ip @ fp), - int (length fp))"
proof -
  have i: "takeWhile (is_digit 10) (ip @ t) = ip @ takeWhile (is_digit 10) t"
    "dropWhile (is_digit 10) (ip @ t) = dropWhile (is_digit 10) t" for t
    using assms(1) by (simp_all add: list_all_iff takeWhile_append2 dropWhile_append2)
  have f: "takeWhile (is_digit 10) fp = fp" "dropWhile (is_digit 10) fp = []"
    using assms(2) by (simp_all add: list_all_iff)
  have e: "parse_exponent [] = ([], 0)" by (simp add: parse_exponent_def)
  show ?thesis
  proof (cases "fp = []")
    case True
    show ?thesis using assms(3) unfolding True if_P[OF refl] parse_decimal_def Let_def i
      by (simp add: e)
  next
    case False
    have point: "takeWhile (is_digit 10) (CHR ''.'' # fp) = []"
      "dropWhile (is_digit 10) (CHR ''.'' # fp) = CHR ''.'' # fp" by simp_all
    show ?thesis using assms(3) False unfolding if_not_P[OF False] parse_decimal_def Let_def i point list.sel
      by (simp only: f list.sel if_True simp_thms list.distinct append_Nil2) (simp add: e)
  qed
qed

lemma from_chars_double_plain:
  fixes neg :: bool
  assumes "list_all (is_digit 10) ip" "list_all (is_digit 10) fp" "ip \<noteq> []"
  defines "m \<equiv> digits_val 10 (ip @ fp)" and "z \<equiv> decimal_to_double neg (digits_val 10 (ip @ fp)) (- int (length fp))"
  shows "from_chars_double (plain_decimal neg ip fp) v0 =
    (if \<not> isfinite z \<or> (is_zero z \<and> m \<noteq> 0) then ([], result_out_of_range, v0) else ([], errc_ok, z))"
proof -
  define body where "body = ip @ (if fp = [] then [] else CHR ''.'' # fp)"
  obtain c t where ip: "ip = c # t" using assms(3) by (cases ip) auto
  have c: "is_digit 10 c" using assms(1) by (simp add: ip)
  then have "c \<noteq> CHR ''-''" by auto
  then have s: "is_neg (plain_decimal neg ip fp) = neg"
    "(if neg then tl (plain_decimal neg ip fp) else plain_decimal neg ip fp) = body"
    by (simp_all add: plain_decimal_def is_neg_def ip body_def)
  have np: "\<not> has_prefix_ci w body" if "w \<noteq> []" "\<not> is_digit 10 (hd w)" for w
    using digit_no_prefix[OF c that] by (simp add: body_def ip)
  have p: "parse_decimal body = Some ([], m, - int (length fp))"
    using parse_decimal_plain[OF assms(1-3)] by (simp add: body_def m_def)
  show ?thesis
    unfolding from_chars_double_def Let_def is_neg_def [symmetric] s
    by (simp add: np p z_def m_def)
qed

lemma wf_representable: "wf_double v \<Longrightarrow> isfinite v \<Longrightarrow> representable (dval v)"
proof -
  assume w: "wf_double v" and f: "isfinite v"
  from f obtain s m e where v: "v = Fin s m e" by (auto simp: isfinite_Fin)
  with w have "\<bar>sgn_int s m\<bar> \<le> 2 ^ 53" "- 1074 \<le> e" by auto
  then show ?thesis unfolding representable_def v dval.simps by blast
qed

lemma is_zero_dval: "isfinite z \<Longrightarrow> is_zero z \<longleftrightarrow> dval z = 0"
  by (cases z) (auto simp: sgn_int_def)


subsection \<open>Properties\<close>

lemma plain_rounds_to:
  "rounds_to (decimal_to_double neg (digits_val 10 (ip @ fp)) (- int (length fp))) (plain_value neg ip fp)"
proof -
  have "real_of_int m * 10 powi (- int k) = real_of_int m / 10 ^ k" for m k
    by (simp add: power_int_minus field_simps)
  then show ?thesis
    using decimal_to_double_rounds_to[OF digits_val_nonneg, of 10 neg "ip @ fp" "- int (length fp)"]
    by (simp add: plain_value_def)
qed

text \<open>C29: a plain decimal field (digits, optionally a sign and a fraction) parses to the double nearest to
  its exact value, if that lies in the given range, and is rejected otherwise; the one exception
  is a non-zero value too small for the type.\<close>

theorem sbs1_to_double_nearest:
  assumes "list_all (is_digit 10) ip" and "list_all (is_digit 10) fp" and "ip \<noteq> []"
    and lo: "wf_double lo" "isfinite lo" and hi: "wf_double hi" "isfinite hi"
    and tiny: "plain_value neg ip fp = 0 \<or> rnd (plain_value neg ip fp) \<noteq> 0"
  shows "if dval lo \<le> rnd (plain_value neg ip fp) \<and> rnd (plain_value neg ip fp) \<le> dval hi
    then (\<exists>v. sbs1_to_double (plain_decimal neg ip fp) lo hi = Some v \<and> wf_double v \<and>
            dval v = rnd (plain_value neg ip fp))
    else sbs1_to_double (plain_decimal neg ip fp) lo hi = None"
proof -
  define q where "q = plain_value neg ip fp"
  define m where "m = digits_val 10 (ip @ fp)"
  define z where "z = decimal_to_double neg m (- int (length fp))"
  have r: "rounds_to z q" unfolding z_def q_def m_def by (rule plain_rounds_to)
  have fc: "from_chars_double (plain_decimal neg ip fp) zero_double =
    (if \<not> isfinite z \<or> (is_zero z \<and> m \<noteq> 0) then ([], result_out_of_range, zero_double) else ([], errc_ok, z))"
    using from_chars_double_plain[OF assms(1-3)] by (simp add: z_def m_def)
  have nn: "lo \<noteq> NaN" "hi \<noteq> NaN" using lo hi by auto
  have m0: "m = 0 \<longleftrightarrow> q = 0" by (simp add: q_def m_def plain_value_def)
  show ?thesis
  proof (cases "isfinite z")
    case True
    then have z: "wf_double z" "dval z = rnd q" "z \<noteq> NaN"
      using r by (auto simp: rounds_to_def split: if_splits)
    have "\<not> (is_zero z \<and> m \<noteq> 0)" using tiny True z m0 by (auto simp: is_zero_dval q_def [symmetric])
    then show ?thesis
      unfolding q_def [symmetric]
      using True z lo hi nn by (auto simp: sbs1_to_double_def fc less_dval)
  next
    case False
    then have "2 ^ 1024 \<le> \<bar>rnd q\<bar>" using r by (auto simp: rounds_to_def not_less split: if_splits)
    moreover have "\<bar>dval lo\<bar> < 2 ^ 1024" "\<bar>dval hi\<bar> < 2 ^ 1024" using wf_dval_bounds lo hi by blast+
    ultimately have "\<not> (dval lo \<le> rnd q \<and> rnd q \<le> dval hi)" by linarith
    then show ?thesis
      unfolding q_def [symmetric] using False by (simp add: sbs1_to_double_def fc)
  qed
qed

lemma max_latitude_val: "max_latitude = Fin False 6333186975989760 (- 46)"
  by code_simp

theorem sbs1_to_double_nearest_witness:
  "rnd (plain_value True ''43'' ''5'') \<noteq> 0 \<and>
   (if dval (- max_latitude) \<le> rnd (plain_value True ''43'' ''5'') \<and>
       rnd (plain_value True ''43'' ''5'') \<le> dval max_latitude
    then (\<exists>v. sbs1_to_double (plain_decimal True ''43'' ''5'') (- max_latitude) max_latitude = Some v \<and>
            wf_double v \<and> dval v = rnd (plain_value True ''43'' ''5''))
    else sbs1_to_double (plain_decimal True ''43'' ''5'') (- max_latitude) max_latitude = None)"
proof -
  have "digits_val 10 ''435'' = 435" by code_simp
  then have v: "plain_value True ''43'' ''5'' = real_of_int (- 87) / 2 ^ 1" by (simp add: plain_value_def)
  have "rnd (plain_value True ''43'' ''5'') = real_of_int (- 87) / 2 ^ 1"
    unfolding v by (intro rnd_representable representableI) simp_all
  then have n: "rnd (plain_value True ''43'' ''5'') \<noteq> 0" by simp
  have d: "list_all (is_digit 10) ''43''" "list_all (is_digit 10) ''5''" by code_simp+
  have w: "wf_double (- max_latitude)" "isfinite (- max_latitude)" "wf_double max_latitude" "isfinite max_latitude"
    by (simp_all add: neg_double max_latitude_val)
  show ?thesis using n sbs1_to_double_nearest[OF d _ w, of True] by blast
qed

text \<open>C30: a field with a character outside the alphabet of numbers (for instance trailing garbage after a
  valid number) is rejected by all five field parsers, as is the empty field.\<close>

theorem fields_reject_garbage:
  assumes "s = [] \<or> (\<exists>c \<in> set s. \<not> is_digit 16 c \<and> c \<notin> set ''.+-'')" and "16 \<le> lw"
  shows "sbs1_to_address s = None \<and> sbs1_to_altitude s = None \<and> sbs1_to_vertrate lw s = None \<and>
    sbs1_to_squawk lw s = None \<and> sbs1_to_double s lo hi = None"
proof (cases "s = []")
  case True
  have m: "max 16 lw = lw" using assms(2) by simp
  show ?thesis
    using address_parser.empty_rejected altitude_parser.empty_rejected double_parser.empty_rejected[of lo hi]
      vertrate_parser.empty_rejected[of lw] squawk_parser.empty_rejected[of lw]
    by (simp add: True m)
next
  case False
  with assms obtain c where c: "c \<in> set s" "\<not> is_digit 16 c" "c \<notin> set ''.+-''" by blast
  have m: "max 16 lw = lw" using assms(2) by simp
  have sub: "\<not> is_digit 10 c" "\<not> is_digit 8 c" using c(2) by (simp_all add: is_digit_def)
  have e: "is_digit 16 (CHR ''e'')" "is_digit 16 (CHR ''E'')" by code_simp+
  have "\<not> dash_or_digit c" "\<not> float_char c"
    using c sub e by (auto simp: dash_or_digit_def float_char_def)
  then show ?thesis
    using c sub address_parser.foreign_rejected[OF c(1)] altitude_parser.foreign_rejected[OF c(1)]
      vertrate_parser.foreign_rejected[OF c(1), of lw] squawk_parser.foreign_rejected[OF c(1), of lw]
      double_parser.foreign_rejected[OF c(1)]
    by (simp add: m)
qed

theorem fields_reject_garbage_witness:
  "sbs1_to_address ''1200x'' = None \<and> sbs1_to_altitude ''1200x'' = None \<and> sbs1_to_vertrate 32 ''1200x'' = None \<and>
    sbs1_to_squawk 32 ''1200x'' = None \<and> sbs1_to_double ''1200x'' (- max_latitude) max_latitude = None"
proof (rule fields_reject_garbage)
  have "\<not> is_digit 16 (CHR ''x'')" by code_simp
  then show "''1200x'' = [] \<or> (\<exists>c \<in> set ''1200x''. \<not> is_digit 16 c \<and> c \<notin> set ''.+-'')" by simp
qed simp

lemma address_print_parse:
  fixes a :: "24 word"
  shows "sbs1_to_address (to_digits 6 16 (uint a)) = (if a = 0 then None else Some (word_of_int (uint a)))"
proof -
  have lt: "uint a < 16777216" using unsigned_less[of a] by simp
  then have p: "digits_val 16 (to_digits 6 16 (uint a)) = uint a"
    "list_all (is_digit 16) (to_digits 6 16 (uint a))" "length (to_digits 6 16 (uint a)) = 6"
    using to_digits_props[of 16 "uint a" 6] by simp_all
  then have "to_digits 6 16 (uint a) \<noteq> []" by auto
  then have d: "digit_string 16 (to_digits 6 16 (uint a))" using p(2) by (simp add: digit_string_def)
  have z: "uint a = 0 \<longleftrightarrow> a = 0" by (simp add: unsigned_eq_0_iff)
  have "0 < uint a \<longleftrightarrow> a \<noteq> 0" using z uint_ge_0[of a] by linarith
  then have "icao_numeral (to_digits 6 16 (uint a)) \<longleftrightarrow> a \<noteq> 0"
    unfolding icao_numeral_def p(1) using d lt by auto
  then show ?thesis unfolding sbs1_to_address_eq p(1) by simp
qed

text \<open>C28: the integer fields are parsed exactly, whatever the width of long: altitude and vertical rate accept an
  optional minus and digits and saturate at the range of the field; a squawk is octal digits up to
  7777; an address is hexadecimal digits with a value of 1 to 2 to the 24 minus 1; and the six
  hexadecimal digits of every non-zero 24-bit address are read back as that address.\<close>

theorem integer_fields_exact:
  assumes "16 \<le> lw"
  shows "sbs1_to_altitude s =
      (if signed_numeral s then Some (word_of_int (clamp_int (signed_val s) 0 (2 ^ 32 - 1))) else None) \<and>
    sbs1_to_vertrate lw s =
      (if signed_numeral s then Some (word_of_int (clamp_int (signed_val s) (- (2 ^ 15)) (2 ^ 15 - 1))) else None) \<and>
    sbs1_to_squawk lw s =
      (if digit_string 8 s \<and> digits_val 10 s \<le> 7777 then Some (word_of_int (digits_val 10 s)) else None) \<and>
    sbs1_to_address s =
      (if digit_string 16 s \<and> 0 < digits_val 16 s \<and> digits_val 16 s \<le> 0xFFFFFF
       then Some (word_of_int (digits_val 16 s)) else None) \<and>
    sbs1_to_address (to_digits 6 16 (uint (a :: 24 word))) = (if a = 0 then None else Some (word_of_int (uint a)))"
  by (intro conjI sbs1_to_altitude_eq sbs1_to_vertrate_eq[OF assms] sbs1_to_squawk_eq[OF assms]
      sbs1_to_address_eq[unfolded icao_numeral_def] address_print_parse)

theorem integer_fields_exact_witness:
  "sbs1_to_altitude ''-100'' = Some 0 \<and> sbs1_to_squawk 32 ''7700'' = Some 7700 \<and> sbs1_to_squawk 32 ''7800'' = None"
proof -
  have e: "signed_numeral ''-100''" "signed_val ''-100'' = - 100" "digit_string 8 ''7700''"
    "digits_val 10 ''7700'' = 7700" "\<not> digit_string 8 ''7800''" by code_simp+
  have w: "16 \<le> (32::nat)" by simp
  show ?thesis
    using integer_fields_exact[OF w, of "''-100''"] integer_fields_exact[OF w, of "''7700''"]
      integer_fields_exact[OF w, of "''7800''"]
    by (simp add: e clamp_int_def)
qed

end
