(* ===== verification/Sbs1_Parser.thy ===== *)
theory Sbs1_Parser
  imports Sbs1_Double "HOL-Library.Monad_Syntax"
begin

text \<open>
  One line of the SBS-1 feed: src/src/dump1090.cpp, dump1090::processMessage, with the enumerations
  of the column numbers and the message types. The line is split at commas by a string stream and
  getline, as the source does it; a column that is not there is undefined behaviour, the value None.
  The callback is a parameter, applied to the state of its owner. Debug log lines are not modelled.
\<close>

subsection \<open>Splitting a line with a string stream\<close>

record string_stream =
  ss_chars :: string
  ss_eof :: bool
  ss_fail :: bool

definition ss_good :: "string_stream \<Rightarrow> bool" where
  "ss_good ss = (\<not> ss_eof ss \<and> \<not> ss_fail ss)"

definition new_stream :: "string \<Rightarrow> string_stream" where
  "new_stream s = \<lparr>ss_chars = s, ss_eof = False, ss_fail = False\<rparr>"

definition getline :: "char \<Rightarrow> string_stream \<Rightarrow> string \<times> string_stream" where
  \<comment> \<open>reaching the end sets eofbit, and failbit too when nothing was extracted\<close>
  "getline delim ss =
     (if \<not> ss_good ss then ([], ss\<lparr>ss_fail := True\<rparr>)
      else (let line = takeWhile (\<lambda>c. c \<noteq> delim) (ss_chars ss);
                rest = dropWhile (\<lambda>c. c \<noteq> delim) (ss_chars ss)
            in if rest = [] then (line, ss\<lparr>ss_chars := [], ss_eof := True, ss_fail := (line = [])\<rparr>)
               else (line, ss\<lparr>ss_chars := tl rest\<rparr>)))"

lemma getline_decreases:
  assumes "ss_good ss"
  shows "length (ss_chars (snd (getline d ss))) + (if ss_eof (snd (getline d ss)) then 0 else 1)
    < length (ss_chars ss) + (if ss_eof ss then 0 else 1)"
proof -
  have g: "\<not> ss_eof ss" "\<not> ss_fail ss" using assms by (simp_all add: ss_good_def)
  define rest where "rest = dropWhile (\<lambda>c. c \<noteq> d) (ss_chars ss)"
  have "length rest \<le> length (ss_chars ss)" by (simp add: rest_def length_dropWhile_le)
  then show ?thesis
    using g assms by (cases rest) (auto simp: getline_def Let_def rest_def [symmetric])
qed

function split_fields :: "string_stream \<Rightarrow> string list" where
  \<comment> \<open>while the stream is good, getline and push\_back\<close>
  "split_fields ss =
     (if ss_good ss then fst (getline CHR '','' ss) # split_fields (snd (getline CHR '','' ss)) else [])"
  by pat_completeness auto
termination
  by (relation "measure (\<lambda>ss. length (ss_chars ss) + (if ss_eof ss then 0 else 1))")
    (simp_all only: wf_measure in_measure getline_decreases)

declare split_fields.simps [simp del]

subsection \<open>The record layout\<close>

datatype sbs1_fields = sbs1_field_type | sbs1_field_id | sbs1_field_address | sbs1_field_callsign
  | sbs1_field_altitude | sbs1_field_groundspeed | sbs1_field_track | sbs1_field_lat
  | sbs1_field_lng | sbs1_field_vertrate | sbs1_field_squawk

fun sbs1_column :: "sbs1_fields \<Rightarrow> nat" where
  "sbs1_column sbs1_field_type = 0"
| "sbs1_column sbs1_field_id = 1"
| "sbs1_column sbs1_field_address = 4"
| "sbs1_column sbs1_field_callsign = 10"
| "sbs1_column sbs1_field_altitude = 11"
| "sbs1_column sbs1_field_groundspeed = 12"
| "sbs1_column sbs1_field_track = 13"
| "sbs1_column sbs1_field_lat = 14"
| "sbs1_column sbs1_field_lng = 15"
| "sbs1_column sbs1_field_vertrate = 16"
| "sbs1_column sbs1_field_squawk = 17"

datatype sbs1_msgs_ids = sbs1_id_ident | sbs1_id_surface_pos | sbs1_id_airborne_pos
  | sbs1_id_airborne_vel | sbs1_id_surveillance_alt | sbs1_id_surveillance_id
  | sbs1_id_air_to_air | sbs1_id_all_call_reply

fun sbs1_id_value :: "sbs1_msgs_ids \<Rightarrow> int" where
  "sbs1_id_value sbs1_id_ident = 1"
| "sbs1_id_value sbs1_id_surface_pos = 2"
| "sbs1_id_value sbs1_id_airborne_pos = 3"
| "sbs1_id_value sbs1_id_airborne_vel = 4"
| "sbs1_id_value sbs1_id_surveillance_alt = 5"
| "sbs1_id_value sbs1_id_surveillance_id = 6"
| "sbs1_id_value sbs1_id_air_to_air = 7"
| "sbs1_id_value sbs1_id_all_call_reply = 8"

subsection \<open>The message switch\<close>

definition vector_at :: "'a list \<Rightarrow> nat \<Rightarrow> 'a option" where
  \<comment> \<open>operator[]: an index out of range is undefined behaviour\<close>
  "vector_at xs n = (if n < length xs then Some (xs ! n) else None)"

definition store_altitude :: "string \<Rightarrow> u64 \<Rightarrow> ADSBData \<Rightarrow> ADSBData" where
  "store_altitude field rx adsb =
     (case sbs1_to_altitude field of None \<Rightarrow> adsb | Some alt \<Rightarrow> setAltitude alt rx adsb)"

definition store_position :: "string \<Rightarrow> string \<Rightarrow> ADSBData \<Rightarrow> ADSBData" where
  "store_position field_lat field_lng adsb =
     (case (sbs1_to_double field_lat (- max_latitude) max_latitude,
            sbs1_to_double field_lng (- max_longitude) max_longitude) of
        (Some lat, Some lng) \<Rightarrow> setPosition (Point_at lat lng) adsb
      | _ \<Rightarrow> adsb)"

definition store_velocity :: "nat \<Rightarrow> string \<Rightarrow> string \<Rightarrow> string \<Rightarrow> u64 \<Rightarrow> ADSBData \<Rightarrow> ADSBData" where
  "store_velocity lw field_groundspeed field_track field_vertrate rx adsb =
     (let adsb = (case sbs1_to_double field_groundspeed zero_double max_speed of
                    None \<Rightarrow> adsb | Some spd \<Rightarrow> setSpeed spd rx adsb);
          adsb = (case sbs1_to_double field_track zero_double max_track of
                    None \<Rightarrow> adsb | Some track \<Rightarrow> setHeading track rx adsb)
      in (case sbs1_to_vertrate lw field_vertrate of
            None \<Rightarrow> adsb | Some vertrate \<Rightarrow> setVertVel vertrate rx adsb))"

definition store_squawk :: "nat \<Rightarrow> string \<Rightarrow> u64 \<Rightarrow> ADSBData \<Rightarrow> ADSBData" where
  "store_squawk lw field rx adsb =
     (case sbs1_to_squawk lw field of None \<Rightarrow> adsb | Some code \<Rightarrow> setSquawk code rx adsb)"

definition message_switch ::
  "nat \<Rightarrow> (sbs1_fields \<Rightarrow> string option) \<Rightarrow> u64 \<Rightarrow> ADSBData \<Rightarrow> ADSBData option option" where
  \<comment> \<open>None is undefined behaviour; Some None is the default branch, which returns before the callback\<close>
  "message_switch lw data rx adsb = do {
     type_id \<leftarrow> data sbs1_field_id;
     let k = strtol lw type_id 10;
     if k = sbs1_id_value sbs1_id_ident then do {
       name \<leftarrow> data sbs1_field_callsign;
       Some (Some (setCallsign name rx adsb))
     } else if k = sbs1_id_value sbs1_id_airborne_pos then do {
       lat \<leftarrow> data sbs1_field_lat;
       lng \<leftarrow> data sbs1_field_lng;
       alt \<leftarrow> data sbs1_field_altitude;
       Some (Some (store_altitude alt rx (store_position lat lng adsb)))
     } else if k = sbs1_id_value sbs1_id_airborne_vel then do {
       spd \<leftarrow> data sbs1_field_groundspeed;
       track \<leftarrow> data sbs1_field_track;
       vertrate \<leftarrow> data sbs1_field_vertrate;
       Some (Some (store_velocity lw spd track vertrate rx adsb))
     } else if k = sbs1_id_value sbs1_id_surveillance_id then do {
       code \<leftarrow> data sbs1_field_squawk;
       alt \<leftarrow> data sbs1_field_altitude;
       Some (Some (store_altitude alt rx (store_squawk lw code rx adsb)))
     } else if k = sbs1_id_value sbs1_id_surveillance_alt \<or> k = sbs1_id_value sbs1_id_air_to_air then do {
       alt \<leftarrow> data sbs1_field_altitude;
       Some (Some (store_altitude alt rx adsb))
     } else if k = sbs1_id_value sbs1_id_surface_pos \<or> k = sbs1_id_value sbs1_id_all_call_reply then
       Some (Some adsb)
     else Some None
   }"

definition read_message :: "nat \<Rightarrow> string \<Rightarrow> u64 \<Rightarrow> ADSBData option option" where
  \<comment> \<open>up to the callback: None is undefined behaviour, Some None a line that is dropped\<close>
  "read_message lw t_msg t_received =
     (let cols = split_fields (new_stream t_msg); data = (\<lambda>f. vector_at cols (sbs1_column f))
      in if \<not> sbs1_column sbs1_field_squawk < length cols then Some None
         else do {
           record_type \<leftarrow> data sbs1_field_type;
           if record_type \<noteq> ''MSG'' then Some None
           else do {
             field \<leftarrow> data sbs1_field_address;
             case sbs1_to_address field of
               None \<Rightarrow> Some None
             | Some address \<Rightarrow>
                 message_switch lw data t_received (setLastSeen t_received (new_ADSBData address))
           }
         })"

definition parse_message :: "nat \<Rightarrow> string \<Rightarrow> u64 \<Rightarrow> ADSBData option" where
  \<comment> \<open>the message a line carries, if it gets as far as the callback\<close>
  "parse_message lw t_msg t_received = Option.bind (read_message lw t_msg t_received) id"

definition processMessage ::
  "nat \<Rightarrow> (ADSBData \<Rightarrow> 's option \<Rightarrow> 's option) option \<Rightarrow> string \<Rightarrow> u64 \<Rightarrow> 's option \<Rightarrow> 's option" where
  \<comment> \<open>None is a state after undefined behaviour\<close>
  "processMessage lw adsb_cb t_msg t_received st = do {
     message \<leftarrow> read_message lw t_msg t_received;
     case (message, adsb_cb) of (Some adsb, Some cb) \<Rightarrow> cb adsb st | _ \<Rightarrow> st
   }"


subsection \<open>Lemmas: splitting\<close>

abbreviation fields_of :: "string \<Rightarrow> string list" where
  "fields_of s \<equiv> split_fields (new_stream s)"

fun join_fields :: "string list \<Rightarrow> string" where
  "join_fields [] = []"
| "join_fields [f] = f"
| "join_fields (f # fs) = f @ CHR '','' # join_fields fs"

lemma fields_of_unfold:
  "fields_of s =
     (let line = takeWhile (\<lambda>c. c \<noteq> CHR '','') s; rest = dropWhile (\<lambda>c. c \<noteq> CHR '','') s
      in if rest = [] then [line] else line # fields_of (tl rest))"
proof -
  define line where "line = takeWhile (\<lambda>c. c \<noteq> CHR '','') s"
  define rest where "rest = dropWhile (\<lambda>c. c \<noteq> CHR '','') s"
  have good: "ss_good (new_stream s)" by (simp add: ss_good_def new_stream_def)
  have stop: "split_fields ss = []" if "ss_eof ss" for ss
    using that by (simp add: split_fields.simps ss_good_def)
  have step: "fields_of s = fst (getline CHR '','' (new_stream s)) # split_fields (snd (getline CHR '','' (new_stream s)))"
    using good by (subst split_fields.simps) (simp only: if_True)
  have chars: "ss_chars (new_stream s) = s" by (simp add: new_stream_def)
  show ?thesis
  proof (cases "rest = []")
    case True
    then have g: "getline CHR '','' (new_stream s)
        = (line, (new_stream s)\<lparr>ss_chars := [], ss_eof := True, ss_fail := (line = [])\<rparr>)"
      by (simp only: getline_def good chars Let_def line_def [symmetric] rest_def [symmetric]) simp
    show ?thesis
      by (simp only: step g fst_conv snd_conv Let_def line_def [symmetric] rest_def [symmetric] True)
        (simp add: stop)
  next
    case False
    then have g: "getline CHR '','' (new_stream s) = (line, new_stream (tl rest))"
      by (simp only: getline_def good chars Let_def line_def [symmetric] rest_def [symmetric])
        (simp add: new_stream_def)
    show ?thesis using False
      by (simp only: step g fst_conv snd_conv Let_def line_def [symmetric] rest_def [symmetric]) simp
  qed
qed

lemma fields_of_nonempty: "fields_of s \<noteq> []"
  by (subst fields_of_unfold) (simp add: Let_def)

lemma join_Cons: "fs \<noteq> [] \<Longrightarrow> join_fields (f # fs) = f @ CHR '','' # join_fields fs"
  by (cases fs) simp_all

lemma count_list_dropWhile:
  "dropWhile (\<lambda>c. c \<noteq> x) s = y # t \<Longrightarrow> count_list s x = Suc (count_list t x) \<and> y = x"
  by (induction s) (auto split: if_splits)

lemma fields_of_spec:
  "join_fields (fields_of s) = s \<and> (\<forall>f \<in> set (fields_of s). CHR '','' \<notin> set f)
    \<and> length (fields_of s) = Suc (count_list s CHR '','')"
proof (induction s rule: length_induct)
  case (1 s)
  define line where "line = takeWhile (\<lambda>c. c \<noteq> CHR '','') s"
  define rest where "rest = dropWhile (\<lambda>c. c \<noteq> CHR '','') s"
  have line: "CHR '','' \<notin> set line" by (auto simp: line_def dest: set_takeWhileD)
  have s: "s = line @ rest" by (simp add: line_def rest_def)
  show ?case
  proof (cases rest)
    case Nil
    then have f: "fields_of s = [line]"
      by (subst fields_of_unfold) (simp add: Let_def line_def [symmetric] rest_def [symmetric])
    have "CHR '','' \<notin> set s" using line Nil s by simp
    then show ?thesis using f line s Nil by (simp add: count_list_0_iff)
  next
    case (Cons y t)
    have c: "count_list s CHR '','' = Suc (count_list t CHR '','')" and y: "y = CHR '',''"
      using count_list_dropWhile[of "CHR '',''" s y t] Cons by (simp_all add: rest_def)
    have f: "fields_of s = line # fields_of t"
      by (subst fields_of_unfold) (simp add: Let_def line_def [symmetric] rest_def [symmetric] Cons)
    have "length t < length s" using s Cons by simp
    with 1 have ih: "join_fields (fields_of t) = t \<and> (\<forall>f \<in> set (fields_of t). CHR '','' \<notin> set f)
        \<and> length (fields_of t) = Suc (count_list t CHR '','')" by blast
    have "join_fields (fields_of s) = line @ CHR '','' # t"
      using ih by (simp add: f join_Cons fields_of_nonempty)
    also have "\<dots> = s" using s Cons y by simp
    finally show ?thesis using ih line c by (simp add: f)
  qed
qed

lemma fields_of_append:
  "CHR '','' \<notin> set f \<Longrightarrow> fields_of (f @ CHR '','' # s) = f # fields_of s"
proof -
  assume "CHR '','' \<notin> set f"
  then have "takeWhile (\<lambda>c. c \<noteq> CHR '','') (f @ CHR '','' # s) = f"
    and "dropWhile (\<lambda>c. c \<noteq> CHR '','') (f @ CHR '','' # s) = CHR '','' # s"
    by (induction f) auto
  then show ?thesis
    by (subst fields_of_unfold) (simp only: Let_def list.sel list.distinct if_False)
qed

lemma fields_of_single: "CHR '','' \<notin> set f \<Longrightarrow> fields_of f = [f]"
proof -
  assume "CHR '','' \<notin> set f"
  then have "takeWhile (\<lambda>c. c \<noteq> CHR '','') f = f" "dropWhile (\<lambda>c. c \<noteq> CHR '','') f = []"
    by (auto simp: takeWhile_eq_all_conv)
  then show ?thesis by (subst fields_of_unfold) (simp only: Let_def refl if_True)
qed

lemma fields_of_join:
  "fs \<noteq> [] \<Longrightarrow> \<forall>f \<in> set fs. CHR '','' \<notin> set f \<Longrightarrow> fields_of (join_fields fs) = fs"
proof (induction fs)
  case (Cons f fs)
  then show ?case
    by (cases "fs = []") (simp_all add: join_Cons fields_of_append fields_of_single)
qed simp

subsection \<open>Lemmas: the width of long\<close>

lemma strtol_width:
  assumes "16 \<le> lw" and "1 \<le> k" and "k \<le> 8"
  shows "strtol lw s 10 = k \<longleftrightarrow> strtol 64 s 10 = k"
proof -
  have "(2::int) ^ 15 \<le> 2 ^ (lw - 1)" using assms(1) by (intro power_increasing) simp_all
  then have "clamp_int v (- (2 ^ (lw - 1))) (2 ^ (lw - 1) - 1) = k \<longleftrightarrow>
      clamp_int v (- (2 ^ (64 - 1))) (2 ^ (64 - 1) - 1) = k" for v
    using assms(2,3) by (auto simp: clamp_int_def)
  then show ?thesis by (simp only: strtol_def Let_def)
qed

lemma strtol_id: "16 \<le> lw \<Longrightarrow> strtol lw s 10 = sbs1_id_value i \<longleftrightarrow> strtol 64 s 10 = sbs1_id_value i"
  by (rule strtol_width) (cases i; simp)+

lemma parse_message_width: "16 \<le> lw \<Longrightarrow> parse_message lw s t = parse_message 64 s t"
proof -
  assume lw: "16 \<le> lw"
  have e: "sbs1_to_vertrate lw = sbs1_to_vertrate 64" "sbs1_to_squawk lw = sbs1_to_squawk 64"
    by (simp_all add: fun_eq_iff sbs1_to_vertrate_eq sbs1_to_squawk_eq lw)
  have "message_switch lw data rx adsb = message_switch 64 data rx adsb" for data rx adsb
    unfolding message_switch_def Let_def strtol_id[OF lw] store_velocity_def store_squawk_def e by (rule refl)
  then show ?thesis by (simp only: parse_message_def read_message_def)
qed

subsection \<open>Lemmas: every column that is read is there\<close>

lemma columns_there: "18 \<le> length cols \<Longrightarrow> vector_at cols (sbs1_column f) = Some (cols ! sbs1_column f)"
proof -
  assume len: "18 \<le> length cols"
  then have "cols \<noteq> []" by auto
  then show ?thesis using len by (cases f) (simp_all add: vector_at_def)
qed

lemma message_switch_defined: "message_switch lw (\<lambda>f. Some (data f)) rx adsb \<noteq> None"
  unfolding message_switch_def Let_def Option.bind.simps by (simp only: split: if_splits) simp

lemma read_message_defined: "read_message lw s t \<noteq> None"
proof (cases "sbs1_column sbs1_field_squawk < length (fields_of s)")
  case True
  then have len: "18 \<le> length (fields_of s)" by simp
  show ?thesis using True message_switch_defined
    unfolding read_message_def Let_def columns_there[OF len] Option.bind.simps
    by (simp del: not_None_eq split: option.splits)
next
  case False
  then show ?thesis unfolding read_message_def Let_def by (simp only: if_True simp_thms) simp
qed

lemma read_message_eq: "read_message lw s t = Some (parse_message lw s t)"
  using read_message_defined[of lw s t] by (auto simp: parse_message_def)

lemma processMessage_eq:
  "processMessage lw adsb_cb s t st =
     (case (parse_message lw s t, adsb_cb) of (Some adsb, Some cb) \<Rightarrow> cb adsb st | _ \<Rightarrow> st)"
  by (simp add: processMessage_def read_message_eq)

subsection \<open>Lemmas: the message switch\<close>

lemma setter_frame [simp]:
  "ICAOAddress (setCallsign v t d) = ICAOAddress d" "ICAOAddress (setPosition p d) = ICAOAddress d"
  "ICAOAddress (setAltitude a t d) = ICAOAddress d" "ICAOAddress (setSpeed x t d) = ICAOAddress d"
  "ICAOAddress (setHeading x t d) = ICAOAddress d" "ICAOAddress (setVertVel w t d) = ICAOAddress d"
  "ICAOAddress (setSquawk q t d) = ICAOAddress d" "ICAOAddress (setLastSeen t d) = ICAOAddress d"
  by (simp_all add: record_simps)

text \<open>The ranges every record keeps: those the field parsers check.\<close>

definition squawk_code :: "u16 \<Rightarrow> bool" where
  "squawk_code q \<longleftrightarrow> uint q \<le> 7777 \<and> squawk_digits_ok (uint q)"

definition in_range :: "double \<Rightarrow> real \<Rightarrow> real \<Rightarrow> bool" where
  "in_range x lo hi \<longleftrightarrow> wf_double x \<and> isfinite x \<and> lo \<le> dval x \<and> dval x \<le> hi"

definition ranges_ok :: "ADSBData \<Rightarrow> bool" where
  "ranges_ok d \<longleftrightarrow> in_range (latitude (pos d)) (- 90) 90 \<and> in_range (longitude (pos d)) (- 180) 180 \<and>
     in_range (speed d) 0 (dval dbl_max) \<and> in_range (heading d) 0 360 \<and> squawk_code (squawk d)"

lemma zero_double_in_range: "lo \<le> 0 \<Longrightarrow> 0 \<le> hi \<Longrightarrow> in_range zero_double lo hi"
  by (simp add: in_range_def zero_double_def double_lit_def round_ratio_def)

lemma dbl_max_props: "wf_double dbl_max" "isfinite dbl_max" "0 \<le> dval dbl_max"
  by (simp_all add: dbl_max_def)

lemma limit_props:
  "dval max_latitude = 90" "dval max_longitude = 180" "dval max_track = 360"
  "wf_double max_latitude" "wf_double max_longitude" "wf_double max_track"
  "isfinite max_latitude" "isfinite max_longitude" "isfinite max_track"
proof -
  have v: "max_latitude = Fin False 6333186975989760 (- 46)" "max_longitude = Fin False 6333186975989760 (- 45)"
    "max_track = Fin False 6333186975989760 (- 44)" by code_simp+
  show "dval max_latitude = 90" "dval max_longitude = 180" "dval max_track = 360"
    "wf_double max_latitude" "wf_double max_longitude" "wf_double max_track"
    "isfinite max_latitude" "isfinite max_longitude" "isfinite max_track"
    by (simp_all add: v power_int_def field_simps)
qed

lemma sbs1_to_double_in_range:
  assumes "sbs1_to_double s lo hi = Some v" and "wf_double lo" "isfinite lo" "wf_double hi" "isfinite hi"
  shows "in_range v (dval lo) (dval hi)"
proof -
  note r = sbs1_to_double_Some[OF assms(1)]
  have "v \<noteq> NaN" "lo \<noteq> NaN" "hi \<noteq> NaN" using r assms by auto
  then show ?thesis using r assms less_dval[of v lo] less_dval[of hi v] by (auto simp: in_range_def)
qed

lemma zero_double_props: "wf_double zero_double" "isfinite zero_double" "dval zero_double = 0"
  by (simp_all add: zero_double_def double_lit_def round_ratio_def)

lemma double_ranges:
  "sbs1_to_double s (- max_latitude) max_latitude = Some v \<Longrightarrow> in_range v (- 90) 90"
  "sbs1_to_double s (- max_longitude) max_longitude = Some v \<Longrightarrow> in_range v (- 180) 180"
  "sbs1_to_double s zero_double max_track = Some v \<Longrightarrow> in_range v 0 360"
  "sbs1_to_double s zero_double max_speed = Some v \<Longrightarrow> in_range v 0 (dval dbl_max)"
  using sbs1_to_double_in_range[of s _ _ v]
  by (simp_all add: neg_double limit_props zero_double_props max_speed_def dbl_max_props)
    (metis limit_props zero_double_props neg_double dbl_max_props)+

lemma squawk_code_parsed: "16 \<le> lw \<Longrightarrow> sbs1_to_squawk lw s = Some q \<Longrightarrow> squawk_code q"
proof -
  assume lw: "16 \<le> lw" and q: "sbs1_to_squawk lw s = Some q"
  then have d: "digit_string 8 s" "digits_val 10 s \<le> 7777" "q = word_of_int (digits_val 10 s)"
    by (auto simp: sbs1_to_squawk_eq split: if_splits)
  then have u: "uint q = digits_val 10 s"
    using digits_val_nonneg[of 10 s] by (simp add: uint_word_of_int_bounded)
  have "digit_string 10 s" "list_all (is_digit 8) s"
    using d(1) octal_is_decimal by (simp_all add: digit_string_def)
  then show ?thesis using d(2) squawk_digits_ok_octal by (simp add: squawk_code_def u)
qed

lemma squawk_code_0: "squawk_code 0"
  by (simp add: squawk_code_def squawk_digits_ok.simps)

lemma ranges_ok_new: "ranges_ok (new_ADSBData a)"
  by (simp add: ranges_ok_def new_ADSBData_def Point_default_def zero_double_in_range squawk_code_0 dbl_max_props)

lemma ranges_ok_setters:
  "ranges_ok d \<Longrightarrow> ranges_ok (setCallsign c t d)"
  "ranges_ok d \<Longrightarrow> ranges_ok (setAltitude a t d)"
  "ranges_ok d \<Longrightarrow> ranges_ok (setVertVel w t d)"
  "ranges_ok d \<Longrightarrow> ranges_ok (setLastSeen t d)"
  "ranges_ok d \<Longrightarrow> squawk_code q \<Longrightarrow> ranges_ok (setSquawk q t d)"
  "ranges_ok d \<Longrightarrow> in_range x 0 (dval dbl_max) \<Longrightarrow> ranges_ok (setSpeed x t d)"
  "ranges_ok d \<Longrightarrow> in_range x 0 360 \<Longrightarrow> ranges_ok (setHeading x t d)"
  "ranges_ok d \<Longrightarrow> in_range x (- 90) 90 \<Longrightarrow> in_range y (- 180) 180 \<Longrightarrow> ranges_ok (setPosition (Point_at x y) d)"
  by (simp_all add: ranges_ok_def record_simps Point_at_def)

lemma ranges_ok_stores:
  assumes "ranges_ok d"
  shows "ranges_ok (store_altitude alt rx d)" and "ranges_ok (store_position lat lng d)"
    and "16 \<le> lw \<Longrightarrow> ranges_ok (store_velocity lw spd track vertrate rx d)"
    and "16 \<le> lw \<Longrightarrow> ranges_ok (store_squawk lw code rx d)"
  using assms
  by (auto simp: store_altitude_def store_position_def store_velocity_def store_squawk_def Let_def
      intro!: ranges_ok_setters squawk_code_parsed double_ranges
      split: option.splits prod.splits)

end
