(* ===== verification/Sbs1_Message.thy ===== *)
theory Sbs1_Message
  imports Sbs1_Parser
begin

text \<open>
  What dump1090::processMessage (src/src/dump1090.cpp) promises its callback: which lines are
  delivered, what a delivered message contains, and that neither depends on the width of long.
\<close>

definition column :: "string \<Rightarrow> sbs1_fields \<Rightarrow> string" where
  "column s f = fields_of s ! sbs1_column f"

definition message_type :: "string \<Rightarrow> int" where
  "message_type s = strtol 64 (column s sbs1_field_id) 10"

definition deliverable :: "string \<Rightarrow> bool" where
  \<comment> \<open>eighteen columns, record type MSG, a 24-bit non-zero address, and a known message type\<close>
  "deliverable s \<longleftrightarrow> 18 \<le> length (fields_of s) \<and> column s sbs1_field_type = ''MSG'' \<and>
     icao_numeral (column s sbs1_field_address) \<and> 1 \<le> message_type s \<and> message_type s \<le> 8"

definition blank_message :: "string \<Rightarrow> u64 \<Rightarrow> ADSBData" where
  "blank_message s t =
     setLastSeen t (new_ADSBData (word_of_int (digits_val 16 (column s sbs1_field_address))))"

lemma int_1_8_cases:
  "1 \<le> (k::int) \<Longrightarrow> k \<le> 8 \<Longrightarrow> k = 1 \<or> k = 2 \<or> k = 3 \<or> k = 4 \<or> k = 5 \<or> k = 6 \<or> k = 7 \<or> k = 8"
  by linarith

lemma parse_message_eq:
  assumes lw: "16 \<le> lw"
  shows "parse_message lw s t =
    (if \<not> deliverable s then None
     else Some (let data = column s; d = blank_message s t; k = message_type s
                in if k = 1 then setCallsign (data sbs1_field_callsign) t d
                   else if k = 3 then store_altitude (data sbs1_field_altitude) t
                     (store_position (data sbs1_field_lat) (data sbs1_field_lng) d)
                   else if k = 4 then store_velocity 64 (data sbs1_field_groundspeed) (data sbs1_field_track)
                     (data sbs1_field_vertrate) t d
                   else if k = 6 then store_altitude (data sbs1_field_altitude) t
                     (store_squawk 64 (data sbs1_field_squawk) t d)
                   else if k = 5 \<or> k = 7 then store_altitude (data sbs1_field_altitude) t d else d))"
proof (cases "18 \<le> length (fields_of s) \<and> column s sbs1_field_type = ''MSG'' \<and> icao_numeral (column s sbs1_field_address)")
  case True
  define k where "k = message_type s"
  have c: "vector_at (fields_of s) (sbs1_column f) = Some (column s f)" for f
    using columns_there[of "fields_of s"] True by (simp add: column_def)
  have n: "sbs1_column sbs1_field_squawk < length (fields_of s)" using True by simp
  have "read_message 64 s t = message_switch 64 (\<lambda>f. Some (column s f)) t (blank_message s t)"
    unfolding read_message_def Let_def c Option.bind.simps sbs1_to_address_eq
    using True n by (simp add: blank_message_def)
  note read = this
  have p: "parse_message lw s t =
      Option.bind (message_switch 64 (\<lambda>f. Some (column s f)) t (blank_message s t)) id"
    by (simp only: parse_message_width[OF lw]) (simp only: parse_message_def read)
  have d: "deliverable s \<longleftrightarrow> 1 \<le> k \<and> k \<le> 8" using True by (simp add: deliverable_def k_def)
  show ?thesis
  proof (cases "1 \<le> k \<and> k \<le> 8")
    case True
    then have "k = 1 \<or> k = 2 \<or> k = 3 \<or> k = 4 \<or> k = 5 \<or> k = 6 \<or> k = 7 \<or> k = 8"
      by (intro int_1_8_cases) simp_all
    then show ?thesis
      unfolding p d message_switch_def Let_def Option.bind.simps message_type_def [symmetric] k_def [symmetric]
        sbs1_id_value.simps
      by (elim disjE) simp_all
  next
    case False
    then have "k \<noteq> 1" "k \<noteq> 2" "k \<noteq> 3" "k \<noteq> 4" "k \<noteq> 5" "k \<noteq> 6" "k \<noteq> 7" "k \<noteq> 8" by auto
    with False show ?thesis
      unfolding p d message_switch_def Let_def Option.bind.simps message_type_def [symmetric] k_def [symmetric]
        sbs1_id_value.simps
      by simp
  qed
next
  case False
  have "read_message 64 s t = Some None"
  proof (cases "18 \<le> length (fields_of s)")
    case True
    have n: "sbs1_column sbs1_field_squawk < length (fields_of s)" using True by simp
    show ?thesis using False True n
      unfolding read_message_def Let_def columns_there[OF True] Option.bind.simps sbs1_to_address_eq column_def
      by auto
  next
    case False
    then show ?thesis by (simp add: read_message_def)
  qed
  then have "parse_message 64 s t = None" by (simp add: parse_message_def)
  then show ?thesis using False parse_message_width[OF lw] by (simp add: deliverable_def)
qed

text \<open>C27: a line reaches the callback exactly when it has at least 18 comma-separated columns, is a MSG
  record, carries a non-zero hexadecimal address of at most 24 bits, and has a message type of 1
  to 8; the answer does not depend on the platform's width of long.\<close>

theorem processMessage_delivers_iff:
  assumes "16 \<le> lw"
  shows "if deliverable s
    then (\<exists>d. parse_message lw s t = Some d \<and> parse_message 64 s t = Some d \<and>
            processMessage lw (Some cb) s t st = cb d st)
    else processMessage lw (Some cb) s t st = st"
  by (simp add: processMessage_eq parse_message_eq assms parse_message_eq[of 64])

lemma example_line_parses: "parse_message 64 ''MSG,3,1,1,C8217B,1,,,,,,5000,,,-43.5,172.6,,'' 1000 \<noteq> None"
  by code_simp

theorem processMessage_delivers_iff_witness:
  "deliverable ''MSG,3,1,1,C8217B,1,,,,,,5000,,,-43.5,172.6,,'' \<and>
   (\<exists>d. processMessage 32 (Some (\<lambda>m. map_option ((#) m))) ''MSG,3,1,1,C8217B,1,,,,,,5000,,,-43.5,172.6,,'' 1000 (Some []) = Some [d])"
proof -
  let ?l = "''MSG,3,1,1,C8217B,1,,,,,,5000,,,-43.5,172.6,,''" and ?cb = "\<lambda>m::ADSBData. map_option ((#) m)"
  have "deliverable ?l" using example_line_parses by (auto simp: parse_message_eq split: if_splits)
  then show ?thesis using processMessage_delivers_iff[of 32 ?l 1000 ?cb "Some []"] by auto
qed

subsection \<open>The content of a delivered message\<close>

lemma blank_message_fields:
  "callsign_set (blank_message s t) = False" "altitude_set (blank_message s t) = False"
  "speed_set (blank_message s t) = False" "heading_set (blank_message s t) = False"
  "vert_vel_set (blank_message s t) = False" "squawk_set (blank_message s t) = False"
  "valid (pos (blank_message s t)) = False" "last_seen (blank_message s t) = t"
  "ranges_ok (blank_message s t)"
  by (simp_all add: blank_message_def ranges_ok_setters ranges_ok_new,
      simp_all add: new_ADSBData_def Point_default_def record_simps)

text \<open>C12: a delivered message carries exactly what its line says, by message type and column number: the callsign
  of column 10 for type 1; the position of columns 14 and 15 for type 3, when both parse in range;
  the altitude of column 11 for types 3, 5, 6 and 7, when it parses; the ground speed of column 12,
  the track of column 13 and the vertical rate of column 16 for type 4, each when it parses; the
  squawk of column 17 for type 6, when it parses. Each set field has the value its column parses
  to, and no other field is set.\<close>

theorem message_content:
  assumes "16 \<le> lw" and "parse_message lw s t = Some d"
  shows "(if callsign_set d then Some (callsign d) else None) =
      (if message_type s = 1 then Some (fields_of s ! 10) else None) \<and>
    (if valid (pos d) then Some (latitude (pos d), longitude (pos d)) else None) =
      (if message_type s = 3
       then (case (sbs1_to_double (fields_of s ! 14) (- max_latitude) max_latitude,
                   sbs1_to_double (fields_of s ! 15) (- max_longitude) max_longitude) of
               (Some lat, Some lng) \<Rightarrow> Some (lat, lng) | _ \<Rightarrow> None)
       else None) \<and>
    (if altitude_set d then Some (altitude d) else None) =
      (if message_type s \<in> {3, 5, 6, 7} then sbs1_to_altitude (fields_of s ! 11) else None) \<and>
    (if speed_set d then Some (speed d) else None) =
      (if message_type s = 4 then sbs1_to_double (fields_of s ! 12) zero_double max_speed else None) \<and>
    (if heading_set d then Some (heading d) else None) =
      (if message_type s = 4 then sbs1_to_double (fields_of s ! 13) zero_double max_track else None) \<and>
    (if vert_vel_set d then Some (vert_vel d) else None) =
      (if message_type s = 4 then sbs1_to_vertrate 64 (fields_of s ! 16) else None) \<and>
    (if squawk_set d then Some (squawk d) else None) =
      (if message_type s = 6 then sbs1_to_squawk 64 (fields_of s ! 17) else None)"
  using assms(2)
  by (auto simp: parse_message_eq[OF assms(1)] Let_def blank_message_fields record_simps column_def
      store_altitude_def store_position_def store_velocity_def store_squawk_def Point_at_def
      split: if_splits option.splits)

theorem message_content_witness:
  "\<exists>d. parse_message 64 ''MSG,4,1,1,C8217B,1,,,,,,,0,0,,,64,'' 1000 = Some d \<and>
    speed_set d \<and> heading_set d \<and> vert_vel_set d \<and> \<not> squawk_set d \<and> speed d = zero_double \<and> vert_vel d = 64"
proof -
  let ?l = "''MSG,4,1,1,C8217B,1,,,,,,,0,0,,,64,''"
  have "parse_message 64 ?l 1000 \<noteq> None" "message_type ?l = 4"
    "sbs1_to_double (fields_of ?l ! 12) zero_double max_speed = Some zero_double"
    "sbs1_to_double (fields_of ?l ! 13) zero_double max_track = Some zero_double"
    "sbs1_to_vertrate 64 (fields_of ?l ! 16) = Some 64" by code_simp+
  then obtain d where "parse_message 64 ?l 1000 = Some d" and f: "message_type ?l = 4"
    "sbs1_to_double (fields_of ?l ! 12) zero_double max_speed = Some zero_double"
    "sbs1_to_double (fields_of ?l ! 13) zero_double max_track = Some zero_double"
    "sbs1_to_vertrate 64 (fields_of ?l ! 16) = Some 64" by auto
  with message_content[OF _ this(1)] show ?thesis unfolding f by (auto split: if_splits)
qed

lemma parsed_ranges_ok:
  assumes "16 \<le> lw" and "parse_message lw s t = Some d"
  shows "ranges_ok d"
  using assms(2) by (auto simp: parse_message_eq[OF assms(1)] Let_def blank_message_fields
      intro!: ranges_ok_stores ranges_ok_setters split: if_splits)

lemma parsed_address:
  assumes "16 \<le> lw" and "parse_message lw s t = Some d"
  shows "last_seen d = t" and "1 \<le> uint (ICAOAddress d)" and "uint (ICAOAddress d) \<le> 0xFFFFFF"
proof -
  have del: "deliverable s" using assms(2) by (auto simp: parse_message_eq[OF assms(1)] split: if_splits)
  have a: "ICAOAddress d = word_of_int (digits_val 16 (column s sbs1_field_address)) \<and> last_seen d = t"
    using assms(2)
    by (auto simp: parse_message_eq[OF assms(1)] Let_def blank_message_def new_ADSBData_def record_simps
        store_altitude_def store_position_def store_velocity_def store_squawk_def
        split: if_splits option.splits)
  have "0 < digits_val 16 (column s sbs1_field_address)" "digits_val 16 (column s sbs1_field_address) \<le> 0xFFFFFF"
    using del by (auto simp: deliverable_def icao_numeral_def)
  with a show "last_seen d = t" "1 \<le> uint (ICAOAddress d)" "uint (ICAOAddress d) \<le> 0xFFFFFF"
    by (simp_all add: uint_word_of_int_bounded)
qed

lemma parsed_times:
  assumes "16 \<le> lw" and "parse_message lw s t = Some d"
  shows "callsign_set d \<Longrightarrow> callsign_time d = t" "altitude_set d \<Longrightarrow> altitude_time d = t"
    "speed_set d \<Longrightarrow> speed_time d = t" "heading_set d \<Longrightarrow> heading_time d = t"
    "vert_vel_set d \<Longrightarrow> vert_vel_time d = t" "squawk_set d \<Longrightarrow> squawk_time d = t"
  using assms(2)
  by (auto simp: parse_message_eq[OF assms(1)] Let_def blank_message_fields record_simps
      store_altitude_def store_position_def store_velocity_def store_squawk_def
      split: if_splits option.splits)

text \<open>C26: every delivered message respects the ranges of the fields (latitude within 90 degrees, longitude
  within 180, heading 0 to 360, non-negative finite speed, a squawk of octal digits), has a
  non-zero 24-bit address, and every field it sets is stamped with the receive time.\<close>

theorem message_well_formed:
  assumes "16 \<le> lw" and "parse_message lw s t = Some d"
  shows "ranges_ok d \<and> last_seen d = t \<and> 1 \<le> uint (ICAOAddress d) \<and> uint (ICAOAddress d) \<le> 0xFFFFFF \<and>
    (callsign_set d \<longrightarrow> callsign_time d = t) \<and> (altitude_set d \<longrightarrow> altitude_time d = t) \<and>
    (speed_set d \<longrightarrow> speed_time d = t) \<and> (heading_set d \<longrightarrow> heading_time d = t) \<and>
    (vert_vel_set d \<longrightarrow> vert_vel_time d = t) \<and> (squawk_set d \<longrightarrow> squawk_time d = t)"
  using parsed_ranges_ok[OF assms] parsed_address[OF assms] parsed_times[OF assms] by blast

theorem message_well_formed_witness:
  "\<exists>d. parse_message 64 ''MSG,3,1,1,C8217B,1,,,,,,5000,,,-43.5,172.6,,'' 1000 = Some d \<and> ranges_ok d \<and> last_seen d = 1000"
proof -
  obtain d where "parse_message 64 ''MSG,3,1,1,C8217B,1,,,,,,5000,,,-43.5,172.6,,'' 1000 = Some d"
    using example_line_parses by auto
  with message_well_formed[OF _ this] show ?thesis by auto
qed

end
