(* ===== verification/Units.thy ===== *)
theory Units
  imports Rounding
begin

text \<open>
  src/src/units.hpp: the conversions from SBS-1 units to the units of the position report. Each
  converts in binary64 arithmetic, clamps, rounds half up and casts; the cast is undefined
  behaviour (None) where the value does not fit the target. A locale collects what the two
  conversions to uint16\_t share; the third, to int16\_t, is proved exact for all its inputs.
\<close>

subsection \<open>The conversions\<close>

definition knots_to_cms :: double where
  "knots_to_cms = double_div (double_lit 1852 1) (double_lit 36 1)"

definition knots_to_cm_per_s :: "double \<Rightarrow> u16 option" where
  "knots_to_cm_per_s knots =
     (let cms = clamp (knots * knots_to_cms) (double_lit 0 1) (double_of_int 65535)
      in double_to_u16 (cms + double_lit 5 10))"

definition ftpermin_to_cms :: double where
  "ftpermin_to_cms = double_div (double_lit 3048 100) (double_lit 60 1)"

definition ft_per_min_to_cm_per_s :: "i16 \<Rightarrow> i16 option" where
  "ft_per_min_to_cm_per_s ft_per_min =
     (let cms = clamp (double_of_int (sint ft_per_min) * ftpermin_to_cms)
                      (double_of_int (- 32768)) (double_of_int 32767)
      in double_to_i16 (if double_lit 0 1 \<le> cms then cms + double_lit 5 10
                        else cms - double_lit 5 10))"

definition deg_to_centideg :: "double \<Rightarrow> u16 option" where
  "deg_to_centideg deg =
     (let scale = double_lit 100 1;
          cdeg = clamp (deg * scale) (double_lit 0 1) (double_of_int 65535)
      in double_to_u16 (cdeg + double_lit 5 10))"

subsection \<open>What the two conversions to uint16\_t share\<close>

locale half_up_conversion =
  fixes conv :: "double \<Rightarrow> u16 option" and factor :: double
  assumes conv_eq: "conv x = double_to_u16
      (clamp (x * factor) (double_lit 0 1) (double_of_int 65535) + double_lit 5 10)"
    and factor_finite: "isfinite factor"
    and factor_wf: "wf_double factor"
    and factor_ge: "1 \<le> dval factor"
begin

definition cms_of :: "double \<Rightarrow> real" where
  "cms_of x = min 65535 (max 0 (rnd (dval x * dval factor)))"

lemma product_cases:
  assumes "wf_double x" and "x \<noteq> NaN"
  shows "wf_double (x * factor) \<and> x * factor \<noteq> NaN \<and>
     min 65535 (max 0 (dval (x * factor))) = cms_of x"
proof (cases "isfinite x")
  case True
  with assms factor_finite factor_wf have r: "rounds_to (x * factor) (dval x * dval factor)"
    by (intro mult_rounds_to)
  let ?p = "dval x * dval factor"
  have "?p < 0 \<longleftrightarrow> rnd ?p < 0" if "2 ^ 1024 \<le> \<bar>rnd ?p\<bar>"
  proof -
    have "0 \<le> ?p \<Longrightarrow> 0 \<le> rnd ?p" by (rule rnd_nonneg)
    moreover have "?p < 0 \<Longrightarrow> rnd ?p \<le> 0" using rnd_nonneg[of "- ?p"] by (simp add: rnd_minus)
    ultimately show ?thesis using that by (cases "0 \<le> ?p") auto
  qed
  then have "min 65535 (max 0 (dval (x * factor))) = cms_of x"
    using r by (auto simp: rounds_to_def cms_of_def not_less split: if_splits)
  with rounds_to_not_NaN[OF r] show ?thesis by simp
next
  case False
  with assms obtain s where x: "x = Inf s" by (cases x) auto
  from factor_finite obtain t m e where f: "factor = Fin t m e" by (auto simp: isfinite_Fin)
  have "0 \<le> real_of_int m * 2 powi e" using factor_wf by (simp add: f)
  then have t: "\<not> t" and m: "m \<noteq> 0" using factor_ge by (cases t; force simp: f)+
  then have p: "x * factor = Inf s" by (simp add: x f times_double_def)
  have "65535 \<le> rnd (2 ^ 1024 * dval factor)"
  proof (rule rnd_ge)
    show "representable 65535" using representable_int[of 65535] by simp
    show "65535 \<le> 2 ^ 1024 * dval factor"
      using factor_ge mult_mono[of 65535 "2 ^ 1024" 1 "dval factor"] by simp
  qed
  then show ?thesis unfolding p cms_of_def by (cases s) (simp_all add: x rnd_minus)
qed

lemma cms_of_bounds: "0 \<le> cms_of x" "cms_of x \<le> 65535"
  by (auto simp: cms_of_def)

lemma rounded_bounds: "0 \<le> \<lfloor>rnd (cms_of x + 1/2)\<rfloor>" "\<lfloor>rnd (cms_of x + 1/2)\<rfloor> \<le> 65535"
proof -
  have "0 \<le> rnd (cms_of x + 1/2)" using cms_of_bounds[of x] by (intro rnd_nonneg) simp
  then show "0 \<le> \<lfloor>rnd (cms_of x + 1/2)\<rfloor>" by simp
  have "rnd (cms_of x + 1/2) \<le> 131071 / 2"
  proof (rule rnd_le)
    show "representable (131071 / 2)" using representableI[of 131071 1] by simp
    show "cms_of x + 1/2 \<le> 131071 / 2" using cms_of_bounds[of x] by simp
  qed
  then show "\<lfloor>rnd (cms_of x + 1/2)\<rfloor> \<le> 65535" by linarith
qed

text \<open>The conversion is defined on every number, and its value is this one rounded real.\<close>

lemma conv_value:
  assumes "wf_double x" and "x \<noteq> NaN"
  obtains w where "conv x = Some w" and "uint w = \<lfloor>rnd (cms_of x + 1/2)\<rfloor>"
proof -
  let ?lo = "double_lit 0 1" and ?hi = "double_of_int 65535"
  define c where "c = clamp (x * factor) ?lo ?hi"
  have lo: "?lo = double_of_int 0" by (simp add: double_lit_def double_of_int_def)
  have los: "wf_double ?lo" "isfinite ?lo" "dval ?lo = 0" using double_of_int_val[of 0] by (simp_all add: lo)
  have his: "wf_double ?hi" "isfinite ?hi" "dval ?hi = 65535" using double_of_int_val[of 65535] by simp_all
  have neq: "?lo \<noteq> NaN" "?hi \<noteq> NaN" using los(2) his(2) by auto
  note p = product_cases[OF assms]
  have "dval c = cms_of x"
    using p neq by (auto simp: c_def clamp_dval los his min_def max_def split: if_splits)
  moreover have wc: "wf_double c" using p los his by (simp add: c_def clamp_def)
  moreover have "isfinite c"
  proof (rule ccontr)
    assume "\<not> isfinite c"
    moreover have "c \<noteq> NaN" using p neq by (simp add: c_def clamp_def)
    ultimately obtain s where "c = Inf s" by (cases c) auto
    with \<open>dval c = cms_of x\<close> cms_of_bounds[of x] show False by (cases s) auto
  qed
  ultimately have "rounds_to (c + double_lit 5 10) (cms_of x + 1/2)"
    using add_rounds_to[of c "double_lit 5 10"] half_val by simp
  moreover have "\<bar>rnd (cms_of x + 1/2)\<bar> < 2 ^ 1024"
    using rounded_bounds[of x] by (simp add: le_floor_iff floor_le_iff)
  ultimately have s: "wf_double (c + double_lit 5 10)" "isfinite (c + double_lit 5 10)"
    "dval (c + double_lit 5 10) = rnd (cms_of x + 1/2)"
    using rounds_to_small by blast+
  have "0 \<le> rnd (cms_of x + 1/2)" using rounded_bounds(1)[of x] by simp
  then have t: "trunc_double (c + double_lit 5 10) = Some \<lfloor>rnd (cms_of x + 1/2)\<rfloor>"
    using trunc_double_dval[OF s(1,2)] s(3) by simp
  define w :: u16 where "w = word_of_int \<lfloor>rnd (cms_of x + 1/2)\<rfloor>"
  have "conv x = Some w"
    using t rounded_bounds[of x] by (simp add: conv_eq double_to_u16_def w_def flip: c_def)
  moreover have "uint w = \<lfloor>rnd (cms_of x + 1/2)\<rfloor>"
    using rounded_bounds[of x] unfolding w_def by (intro uint_word_of_int_bounded) simp_all
  ultimately show ?thesis using that by blast
qed

lemma conv_NaN: "conv NaN = None"
proof -
  have "NaN * factor = NaN" by (simp add: times_double_def)
  then show ?thesis by (simp add: conv_eq plus_double_def double_to_u16_def)
qed

lemma conv_defined: "wf_double x \<Longrightarrow> conv x = None \<longleftrightarrow> x = NaN"
  using conv_NaN conv_value[of x] by fastforce

lemma conv_mono:
  assumes "wf_double x" "wf_double y" "x \<le> y" and "conv x = Some v" "conv y = Some w"
  shows "v \<le> w"
proof -
  have nn: "x \<noteq> NaN" "y \<noteq> NaN" using assms(4,5) conv_NaN by auto
  have "dval x \<le> dval y"
    using assms(1-3) nn by (simp add: le_dval)
  then have "dval x * dval factor \<le> dval y * dval factor"
    using factor_ge by (intro mult_right_mono) auto
  then have "cms_of x \<le> cms_of y" using rnd_mono by (fastforce simp: cms_of_def)
  then have "\<lfloor>rnd (cms_of x + 1/2)\<rfloor> \<le> \<lfloor>rnd (cms_of y + 1/2)\<rfloor>"
    by (intro floor_mono rnd_mono) simp
  with assms(4,5) show ?thesis
    using conv_value[OF assms(1) nn(1)] conv_value[OF assms(2) nn(2)] by (metis option.inject word_le_def)
qed

text \<open>Accuracy: round half up, except that a value within \<open>2 ^ - 36\<close> below a tie may go up.\<close>

definition exact_of :: "double \<Rightarrow> real" where
  "exact_of x = min 65535 (max 0 (dval x * dval factor))"

lemma rnd_mono_min_max:
  "representable a \<Longrightarrow> representable b \<Longrightarrow> rnd (min b (max a y)) = min b (max a (rnd y))"
  using rnd_mono[of a y] rnd_mono[of y a] rnd_mono[of y b] rnd_mono[of b y] rnd_mono[of a b] rnd_mono[of b a]
  by (auto simp: min_def max_def rnd_representable)

lemma conv_accurate:
  assumes "wf_double x" "x \<noteq> NaN" and c: "conv x = Some w"
  shows "real_of_int (uint w) - 1/2 - 1 / 2 ^ 36 < exact_of x \<and> exact_of x < real_of_int (uint w) + 1/2"
proof -
  define y where "y = exact_of x"
  define n where "n = uint w"
  have n: "\<lfloor>rnd (cms_of x + 1/2)\<rfloor> = n"
    using conv_value[OF assms(1,2)] c by (metis n_def option.inject)
  then have nb: "0 \<le> n" "n \<le> 65535" using rounded_bounds[of x] by simp_all
  have cms: "cms_of x = rnd y"
    using rnd_mono_min_max[of 0 65535 "dval x * dval factor"] representable_int[of 0] representable_int[of 65535]
    by (simp add: cms_of_def y_def exact_of_def)
  have up: "y < real_of_int n + 1/2"
  proof (rule ccontr)
    assume "\<not> ?thesis"
    moreover have "representable (real_of_int n + 1/2)"
      using representableI[of "2 * n + 1" 1] nb by (simp add: field_simps)
    ultimately have "real_of_int n + 1/2 \<le> rnd y" by (intro rnd_ge) simp_all
    then have "real_of_int (n + 1) \<le> rnd (rnd y + 1/2)"
      using nb by (intro rnd_ge representable_int) simp_all
    with n[unfolded cms] show False by linarith
  qed
  have low: "real_of_int n - 1/2 - 1 / 2 ^ 36 < y"
  proof (rule ccontr)
    assume "\<not> ?thesis"
    moreover have eq: "real_of_int n - 1/2 - 1 / 2 ^ 36 = real_of_int (2 ^ 36 * n - 2 ^ 35 - 1) / 2 ^ 36"
      by (simp add: field_simps)
    have "representable (real_of_int n - 1/2 - 1 / 2 ^ 36)"
      unfolding eq by (rule representableI) (use nb in simp_all)
    ultimately have "rnd y \<le> real_of_int n - 1/2 - 1 / 2 ^ 36" by (intro rnd_le) simp_all
    then have "rnd y + 1/2 \<le> real_of_int n - 1 / 2 ^ 36" by simp
    moreover have "representable (real_of_int n - 1 / 2 ^ 36)"
      using representableI[of "2 ^ 36 * n - 1" 36] nb by (simp add: field_simps)
    ultimately have "rnd (rnd y + 1/2) \<le> real_of_int n - 1 / 2 ^ 36" by (intro rnd_le)
    with n cms show False by (simp add: floor_eq_iff)
  qed
  from up low show ?thesis by (simp add: y_def n_def)
qed

end


interpretation knots: half_up_conversion knots_to_cm_per_s knots_to_cms
proof
  fix x show "knots_to_cm_per_s x = double_to_u16
      (clamp (x * knots_to_cms) (double_lit 0 1) (double_of_int 65535) + double_lit 5 10)"
    by (simp add: knots_to_cm_per_s_def)
next
  have k: "knots_to_cms = Fin False 7240161900946318 (- 47)" by code_simp
  show "isfinite knots_to_cms" "wf_double knots_to_cms" "1 \<le> dval knots_to_cms"
    by (simp_all add: k power_int_def field_simps)
qed

interpretation deg: half_up_conversion deg_to_centideg "double_lit 100 1"
proof
  fix x show "deg_to_centideg x = double_to_u16
      (clamp (x * double_lit 100 1) (double_lit 0 1) (double_of_int 65535) + double_lit 5 10)"
    by (simp add: deg_to_centideg_def)
next
  have k: "double_lit 100 1 = Fin False 7036874417766400 (- 46)" by code_simp
  show "isfinite (double_lit 100 1)" "wf_double (double_lit 100 1)" "1 \<le> dval (double_lit 100 1)"
    by (simp_all add: k power_int_def field_simps)
qed

subsection \<open>The conversion to int16\_t\<close>

lemma ftpermin_to_cms_val:
  "wf_double ftpermin_to_cms" "isfinite ftpermin_to_cms"
  "127 / 250 \<le> dval ftpermin_to_cms" "dval ftpermin_to_cms \<le> 127 / 250 + 1 / 2 ^ 50"
proof -
  have k: "ftpermin_to_cms = Fin False 4575657221408424 (- 53)" by code_simp
  show "wf_double ftpermin_to_cms" "isfinite ftpermin_to_cms"
    "127 / 250 \<le> dval ftpermin_to_cms" "dval ftpermin_to_cms \<le> 127 / 250 + 1 / 2 ^ 50"
    by (simp_all add: k power_int_def field_simps)
qed

lemma representable_minus: "representable x \<Longrightarrow> representable (- x)"
proof -
  assume "representable x"
  then obtain m e where "x = real_of_int m * 2 powi e" "\<bar>m\<bar> \<le> 2 ^ 53" "- 1074 \<le> e"
    by (auto simp: representable_def)
  then show ?thesis unfolding representable_def by (intro exI[of _ "- m"] exI[of _ e]) simp
qed

text \<open>
  The magnitude of the result for a rate of \<open>a\<close> feet per minute: the factor is not below
  \<open>0.508\<close>, so a tie is never lost, and exceeds it by too little to gain one.
\<close>

lemma ft_magnitude:
  fixes a :: int
  assumes "0 \<le> a" and "a \<le> 32768"
  defines "c \<equiv> rnd (real_of_int a * dval ftpermin_to_cms)"
    and "n \<equiv> (127 * a + 125) div 250"
  shows "real_of_int n - 1/2 \<le> c" "c \<le> real_of_int n + 1/2 - 1 / 2 ^ 9" "\<lfloor>rnd (c + 1/2)\<rfloor> = n"
    "0 \<le> n" "n \<le> 16646"
proof -
  let ?y = "real_of_int a * dval ftpermin_to_cms"
  show nb: "0 \<le> n" "n \<le> 16646" using assms by (simp_all add: n_def)
  have "250 * n \<le> 127 * a + 125" and "127 * a + 125 \<le> 250 * n + 249"
    unfolding n_def by (simp_all add: minus_mod_eq_mult_div [symmetric])
  then have b: "250 * real_of_int n \<le> 127 * real_of_int a + 125"
    "127 * real_of_int a + 125 \<le> 250 * real_of_int n + 249" by linarith+
  have a: "0 \<le> real_of_int a" "real_of_int a \<le> 32768" using assms by simp_all
  have y1: "real_of_int a * (127/250) \<le> ?y"
    using a ftpermin_to_cms_val(3) by (intro mult_left_mono)
  have "?y \<le> real_of_int a * (127/250 + 1 / 2 ^ 50)"
    using a ftpermin_to_cms_val(4) by (intro mult_left_mono)
  also have "\<dots> \<le> real_of_int a * (127/250) + 32768 * (1 / 2 ^ 50)"
    using a by (simp add: distrib_left)
  finally have y2: "?y \<le> real_of_int a * (127/250) + 1 / 2 ^ 35" by simp
  have r1: "representable (real_of_int n - 1/2)"
    using representableI[of "2 * n - 1" 1] nb by (simp add: field_simps)
  show c1: "real_of_int n - 1/2 \<le> c" unfolding c_def using y1 b by (intro rnd_ge r1) simp
  have "real_of_int n + 1/2 - 1 / 2 ^ 9 = real_of_int (2 ^ 9 * n + 255) / 2 ^ 9"
    by (simp add: field_simps)
  then have r2: "representable (real_of_int n + 1/2 - 1 / 2 ^ 9)"
    using representableI[of "2 ^ 9 * n + 255" 9] nb by (simp only:) simp
  show c2: "c \<le> real_of_int n + 1/2 - 1 / 2 ^ 9" unfolding c_def using y2 b by (intro rnd_le r2) simp
  have "real_of_int n + 1 - 1 / 2 ^ 9 = real_of_int (2 ^ 9 * n + 511) / 2 ^ 9"
    by (simp add: field_simps)
  then have r3: "representable (real_of_int n + 1 - 1 / 2 ^ 9)"
    using representableI[of "2 ^ 9 * n + 511" 9] nb by (simp only:) simp
  have "rnd (c + 1/2) \<le> real_of_int n + 1 - 1 / 2 ^ 9" using c2 by (intro rnd_le r3) simp
  moreover have "real_of_int n \<le> rnd (c + 1/2)"
    using c1 nb by (intro rnd_ge representable_int) simp_all
  ultimately show "\<lfloor>rnd (c + 1/2)\<rfloor> = n" by (simp add: floor_eq_iff)
qed


lemma i16_bounds: "- 32768 \<le> sint (f :: i16)" "sint (f :: i16) \<le> 32767"
  using sint_ge[of f] sint_lt[of f] by simp_all

lemma double_to_i16_Some:
  assumes "wf_double x" "isfinite x" and "trunc_double x = Some k" "- 32768 \<le> k" "k \<le> 32767"
  shows "\<exists>w. double_to_i16 x = Some w \<and> sint w = k"
proof -
  have "sint (word_of_int k :: i16) = k"
    using assms(4,5) by (simp add: sint_sbintrunc' signed_take_bit_int_eq_self)
  then show ?thesis using assms(3-5) by (simp add: double_to_i16_def)
qed

text \<open>The clamped product, for a rate of either sign: the clamp never acts.\<close>

lemma ft_product:
  fixes i :: int
  assumes i: "\<bar>i\<bar> \<le> 32768"
  defines "v \<equiv> rnd (real_of_int \<bar>i\<bar> * dval ftpermin_to_cms)"
    and "cms \<equiv> clamp (double_of_int i * ftpermin_to_cms) (double_of_int (- 32768)) (double_of_int 32767)"
  shows "wf_double cms" "isfinite cms" "dval cms = (if i < 0 then - v else v)"
proof -
  let ?K = "dval ftpermin_to_cms"
  let ?x = "double_of_int i * ftpermin_to_cms"
  have di: "wf_double (double_of_int i)" "isfinite (double_of_int i)" "dval (double_of_int i) = real_of_int i"
    using double_of_int_val[of i] i by simp_all
  have lo: "wf_double (double_of_int (- 32768))" "isfinite (double_of_int (- 32768))" "dval (double_of_int (- 32768)) = - 32768"
    and hi: "wf_double (double_of_int 32767)" "isfinite (double_of_int 32767)" "dval (double_of_int 32767) = 32767"
    using double_of_int_val[of "- 32768"] double_of_int_val[of 32767] by simp_all
  have r: "rounds_to ?x (real_of_int i * ?K)"
    using mult_rounds_to[OF di(2) ftpermin_to_cms_val(2) di(1) ftpermin_to_cms_val(1)] di(3) by simp
  have sgn: "rnd (real_of_int i * ?K) = (if i < 0 then - v else v)"
    by (simp add: v_def flip: rnd_minus)
  note m = ft_magnitude[OF abs_ge_zero i]
  have "v < 32767" and "0 \<le> v"
    using m(2,5) ftpermin_to_cms_val(3) by (simp_all add: v_def rnd_nonneg)
  then have b: "\<bar>rnd (real_of_int i * ?K)\<bar> < 32767" by (simp add: sgn)
  then have "\<bar>rnd (real_of_int i * ?K)\<bar> < 2 ^ 1024" by simp
  from rounds_to_small[OF r this] have x: "wf_double ?x" "isfinite ?x" "dval ?x = rnd (real_of_int i * ?K)" by blast+
  then have "?x \<noteq> NaN" by auto
  then have "cms = ?x"
    using x b lo hi unfolding cms_def clamp_def by (subst (1 2) less_dval) (auto simp: isfinite_Fin)
  then show "wf_double cms" "isfinite cms" "dval cms = (if i < 0 then - v else v)"
    using x sgn by simp_all
qed

subsection \<open>Properties\<close>

lemma ft_per_min_value:
  "\<exists>w. ft_per_min_to_cm_per_s f = Some w \<and>
       sint w = sgn (sint f) * ((127 * \<bar>sint f\<bar> + 125) div 250)"
proof -
  define cms where "cms = clamp (double_of_int (sint f) * ftpermin_to_cms) (double_of_int (- 32768)) (double_of_int 32767)"
  define a where "a = \<bar>sint f\<bar>"
  define v where "v = rnd (real_of_int a * dval ftpermin_to_cms)"
  define n where "n = (127 * a + 125) div 250"
  have a: "0 \<le> a" "a \<le> 32768" using i16_bounds[of f] by (auto simp: a_def)
  have c: "wf_double cms" "isfinite cms" "dval cms = (if sint f < 0 then - v else v)"
    using ft_product[of "sint f"] a(2) unfolding cms_def v_def a_def by blast+
  note m = ft_magnitude[OF a, folded v_def n_def]
  have v0: "0 \<le> v" using a ftpermin_to_cms_val(3) by (simp add: v_def rnd_nonneg)
  have zero: "double_lit 0 1 = double_of_int 0" by (simp add: double_lit_def double_of_int_def)
  have z: "wf_double (double_lit 0 1)" "double_lit 0 1 \<noteq> NaN" "dval (double_lit 0 1) = 0"
    using double_of_int_val[of 0] by (auto simp: zero)
  have small: "\<bar>rnd (v + 1/2)\<bar> < 2 ^ 1024" and p0: "0 \<le> rnd (v + 1/2)"
    using m(3,5) v0 by (simp_all add: rnd_nonneg floor_eq_iff)
  show ?thesis
  proof (cases "0 \<le> dval cms")
    case True
    then have le: "double_lit 0 1 \<le> cms" using c z by (subst le_dval) (auto simp: isfinite_Fin)
    have dv: "dval cms = v" using True c(3) v0 by (auto split: if_splits)
    have "rounds_to (cms + double_lit 5 10) (v + 1/2)"
      using add_rounds_to[OF c(2) half_val(2)] by (simp add: dv half_val)
    from rounds_to_small[OF this small] have s: "wf_double (cms + double_lit 5 10)"
      "isfinite (cms + double_lit 5 10)" "dval (cms + double_lit 5 10) = rnd (v + 1/2)" by blast+
    have "trunc_double (cms + double_lit 5 10) = Some n"
      using trunc_double_dval[OF s(1,2)] s(3) p0 m(3) by simp
    then obtain w where "double_to_i16 (cms + double_lit 5 10) = Some w" "sint w = n"
      using double_to_i16_Some[OF s(1,2)] m(4,5) by force
    moreover have "n = sgn (sint f) * n"
      using dv c(3) v0 m(1) m(4) by (cases "0 < sint f") (auto simp: n_def a_def sgn_if split: if_splits)
    ultimately show ?thesis using le by (simp add: ft_per_min_to_cm_per_s_def flip: cms_def n_def a_def)
  next
    case False
    then have le: "\<not> double_lit 0 1 \<le> cms" using c z by (subst le_dval) (auto simp: isfinite_Fin)
    have dv: "dval cms = - v" and neg: "sint f < 0" using False c(3) v0 by (auto split: if_splits)
    have "rounds_to (cms - double_lit 5 10) (- (v + 1/2))"
      using minus_rounds_to[OF c(2) half_val(2)] by (simp add: dv half_val)
    moreover have "\<bar>rnd (- (v + 1/2))\<bar> < 2 ^ 1024" using small by (simp only: rnd_minus abs_minus)
    ultimately have s: "wf_double (cms - double_lit 5 10)"
      "isfinite (cms - double_lit 5 10)" "dval (cms - double_lit 5 10) = - rnd (v + 1/2)"
      using rounds_to_small by (auto simp only: rnd_minus)
    have "n = 0" if "rnd (v + 1/2) = 0" using m(3) that by simp
    then have "trunc_double (cms - double_lit 5 10) = Some (- n)"
      using trunc_double_dval[OF s(1,2)] s(3) p0 m(3) by (auto simp: ceiling_minus)
    then obtain w where "double_to_i16 (cms - double_lit 5 10) = Some w" "sint w = - n"
      using double_to_i16_Some[OF s(1,2)] m(4,5) by force
    then show ?thesis using le neg by (simp add: ft_per_min_to_cm_per_s_def flip: cms_def n_def a_def)
  qed
qed

text \<open>C33: the vertical-rate conversion never leaves the defined range of the cast, and for every one of
  the 65536 inputs it returns 0.508 times the rate, rounded to the nearest integer with ties away
  from zero: the binary64 arithmetic of the source introduces no error.\<close>

theorem ft_per_min_exact:
  "\<exists>w. ft_per_min_to_cm_per_s f = Some w \<and>
       sint w = sgn (sint f) * ((127 * \<bar>sint f\<bar> + 125) div 250)"
  by (rule ft_per_min_value)


lemma conv_near:
  assumes "\<bar>y - y'\<bar> \<le> 1 / 2 ^ 35" and "real_of_int n - 1/2 - 1 / 2 ^ 36 < y" and "y < real_of_int n + 1/2"
  shows "\<bar>real_of_int n - y'\<bar> \<le> 1/2 + 1 / 2 ^ 32"
  using assms by (simp only: abs_le_iff) simp

lemma knots_close:
  assumes "wf_double x" and "isfinite x"
  shows "\<exists>w. knots_to_cm_per_s x = Some w \<and>
    \<bar>real_of_int (uint w) - min 65535 (max 0 (dval x * (463 / 9)))\<bar> \<le> 1/2 + 1 / 2 ^ 32"
proof -
  from assms(2) have nn: "x \<noteq> NaN" by auto
  then obtain w where w: "knots_to_cm_per_s x = Some w"
    using knots.conv_value[OF assms(1)] by blast
  have k: "knots_to_cms = Fin False 7240161900946318 (- 47)" by code_simp
  have K: "dval knots_to_cms \<le> 463/9" "463/9 - 1 / 2 ^ 47 \<le> dval knots_to_cms"
    by (simp_all add: k power_int_def field_simps)
  have "\<bar>knots.exact_of x - min 65535 (max 0 (dval x * (463 / 9)))\<bar> \<le> 1 / 2 ^ 35"
  proof (cases "0 \<le> dval x \<and> dval x \<le> 2000")
    case True
    then have "dval x * dval knots_to_cms \<le> dval x * (463/9)" using K by (intro mult_left_mono) auto
    moreover have "dval x * (463/9 - 1 / 2 ^ 47) \<le> dval x * dval knots_to_cms"
      using K True by (intro mult_left_mono) auto
    then have "dval x * (463/9) - 2000 / 2 ^ 47 \<le> dval x * dval knots_to_cms"
      using True by (simp add: right_diff_distrib)
    ultimately show ?thesis by (simp add: knots.exact_of_def min_def max_def abs_le_iff)
  next
    case False
    then consider "dval x < 0" | "2000 < dval x" by linarith
    then show ?thesis
    proof cases
      case 1
      then have "dval x * dval knots_to_cms \<le> 0" "dval x * (463/9) \<le> 0"
        using knots.factor_ge by (simp_all add: mult_nonpos_nonneg)
      then show ?thesis by (simp add: knots.exact_of_def)
    next
      case 2
      then have "2000 * 51 \<le> dval x * dval knots_to_cms" using K by (intro mult_mono) auto
      with 2 show ?thesis by (simp add: knots.exact_of_def)
    qed
  qed
  then show ?thesis using conv_near knots.conv_accurate[OF assms(1) nn w] w by blast
qed

lemma deg_bounded:
  assumes "wf_double x" and "isfinite x" and "dval x \<le> 360" and "deg_to_centideg x = Some w"
  shows "w \<le> 36000"
proof -
  have nn: "x \<noteq> NaN" using assms(2) by auto
  have "double_lit 100 1 = Fin False 7036874417766400 (- 46)" by code_simp
  then have "dval (double_lit 100 1) = 100" by (simp add: power_int_def field_simps)
  then have "deg.exact_of x \<le> 36000" using assms(3) by (simp add: deg.exact_of_def)
  with deg.conv_accurate[OF assms(1) nn assms(4)] have "real_of_int (uint w) < 36001" by simp
  then have "uint w \<le> 36000" by linarith
  then show ?thesis by (simp add: word_le_def)
qed

lemma deg_close:
  assumes "wf_double x" and "isfinite x"
  shows "\<exists>w. deg_to_centideg x = Some w \<and>
    \<bar>real_of_int (uint w) - min 65535 (max 0 (dval x * 100))\<bar> \<le> 1/2 + 1 / 2 ^ 32 \<and>
    (dval x \<le> 360 \<longrightarrow> w \<le> 36000)"
proof -
  from assms(2) have nn: "x \<noteq> NaN" by auto
  then obtain w where w: "deg_to_centideg x = Some w"
    using deg.conv_value[OF assms(1)] by blast
  have k: "double_lit 100 1 = Fin False 7036874417766400 (- 46)" by code_simp
  have K: "dval (double_lit 100 1) = 100" by (simp add: k power_int_def field_simps)
  note acc = deg.conv_accurate[OF assms(1) nn w]
  have "w \<le> 36000" if "dval x \<le> 360" using deg_bounded[OF assms that w] .
  moreover have "\<bar>real_of_int (uint w) - min 65535 (max 0 (dval x * 100))\<bar> \<le> 1/2 + 1 / 2 ^ 32"
    using conv_near[OF _ conjunct1[OF acc] conjunct2[OF acc], of "deg.exact_of x"] by (simp add: deg.exact_of_def K)
  ultimately show ?thesis using w by blast
qed

text \<open>Both conversions to unsigned fields preserve the order of their inputs.\<close>

lemma conversions_monotone:
  assumes "wf_double x" and "wf_double y" and "x \<le> y"
  shows "\<exists>u v u' v'. knots_to_cm_per_s x = Some u \<and> knots_to_cm_per_s y = Some v \<and> u \<le> v \<and>
     deg_to_centideg x = Some u' \<and> deg_to_centideg y = Some v' \<and> u' \<le> v'"
proof -
  have nn: "x \<noteq> NaN" "y \<noteq> NaN" using assms(3) by (cases x; cases y; simp add: less_eq_double_def)+
  obtain u v u' v' where c: "knots_to_cm_per_s x = Some u" "knots_to_cm_per_s y = Some v"
    "deg_to_centideg x = Some u'" "deg_to_centideg y = Some v'"
    using knots.conv_value[OF assms(1) nn(1)] knots.conv_value[OF assms(2) nn(2)]
      deg.conv_value[OF assms(1) nn(1)] deg.conv_value[OF assms(2) nn(2)] by metis
  then show ?thesis
    using knots.conv_mono[OF assms c(1,2)] deg.conv_mono[OF assms c(3,4)] by simp
qed

text \<open>C40: the speed and heading conversions are defined on every finite input and lie within one half plus 2 to
  the -32 of the exact value (463/9 cm/s per knot, 100 centidegrees per degree), clamped to the
  range of the wire field, so they saturate and never wrap; a heading in the parser's range of 0 to
  360 degrees gives at most 36000 centidegrees.\<close>

theorem speed_and_heading_accurate:
  assumes "wf_double x" and "isfinite x"
  shows "(\<exists>w. knots_to_cm_per_s x = Some w \<and>
      \<bar>real_of_int (uint w) - min 65535 (max 0 (dval x * (463 / 9)))\<bar> \<le> 1/2 + 1 / 2 ^ 32) \<and>
    (\<exists>w. deg_to_centideg x = Some w \<and>
      \<bar>real_of_int (uint w) - min 65535 (max 0 (dval x * 100))\<bar> \<le> 1/2 + 1 / 2 ^ 32 \<and>
      (dval x \<le> 360 \<longrightarrow> w \<le> 36000))"
  using knots_close[OF assms] deg_close[OF assms] by blast

theorem speed_and_heading_accurate_witness:
  "\<exists>w. knots_to_cm_per_s (double_lit 1456 10) = Some w \<and>
     \<bar>real_of_int (uint w) - min 65535 (max 0 (dval (double_lit 1456 10) * (463 / 9)))\<bar> \<le> 1/2 + 1 / 2 ^ 32"
proof -
  have "double_lit 1456 10 = Fin False 5122844576133939 (- 45)" by code_simp
  then have w: "wf_double (double_lit 1456 10)" and f: "isfinite (double_lit 1456 10)" by simp_all
  show ?thesis using speed_and_heading_accurate[OF w f] by blast
qed

end
