(* ===== verification/Adsb_Record.thy ===== *)
theory Adsb_Record
  imports Sbs1_Message Units
begin

text \<open>
  The decision logic of src/src/adsb\_record.hpp: folding a message into the accumulated record of
  its aircraft, the freshness flags, the position report, and the two values derived when a report
  is sent. A conversion whose cast is undefined behaviour makes the report None; the inner option
  is the source's std::optional.
\<close>

subsection \<open>Folding a message into the record\<close>

definition find_last_not_of :: "char \<Rightarrow> string \<Rightarrow> nat option" where
  \<comment> \<open>None is npos\<close>
  "find_last_not_of c s =
     (let n = length (dropWhile (\<lambda>x. x = c) (rev s)) in if n = 0 then None else Some (n - 1))"

definition trim_trailing_spaces :: "string \<Rightarrow> string" where
  "trim_trailing_spaces s =
     take (case find_last_not_of CHR '' '' s of None \<Rightarrow> 0 | Some end \<Rightarrow> end + 1) s"

definition max_callsign_length :: nat where "max_callsign_length = 8"

definition update_callsign :: "ADSBData \<Rightarrow> ADSBData \<Rightarrow> ADSBData" where
  "update_callsign record msg =
     (if callsign_set msg then
        (let trimmed = trim_trailing_spaces (callsign msg)
         in if trimmed \<noteq> [] \<and> length trimmed \<le> max_callsign_length
            then setCallsign trimmed (callsign_time msg) record else record)
      else record)"

definition update_record :: "ADSBData \<Rightarrow> ADSBData \<Rightarrow> ADSBData" where
  "update_record record msg =
     (let record = update_callsign record msg;
          record = (if altitude_set msg then setAltitude (altitude msg) (altitude_time msg) record else record);
          record = (if heading_set msg then setHeading (heading msg) (heading_time msg) record else record);
          record = (if speed_set msg then setSpeed (speed msg) (speed_time msg) record else record);
          record = (if vert_vel_set msg then setVertVel (vert_vel msg) (vert_vel_time msg) record else record)
      in (if squawk_set msg then setSquawk (squawk msg) (squawk_time msg) record else record))"

subsection \<open>The flags of a report\<close>

definition valid_coords :: u16 where "valid_coords = 1"
definition valid_altitude :: u16 where "valid_altitude = 2"
definition valid_heading :: u16 where "valid_heading = 4"
definition valid_speed :: u16 where "valid_speed = 8"
definition valid_callsign :: u16 where "valid_callsign = 16"
definition valid_squawk :: u16 where "valid_squawk = 32"
definition valid_vertvel :: u16 where "valid_vertvel = 128"

definition motion_freshness_ms :: u64 where "motion_freshness_ms = 60 * 1000"
definition identity_freshness_ms :: u64 where "identity_freshness_ms = 5 * 60 * 1000"

definition field_expired :: "u64 \<Rightarrow> u64 \<Rightarrow> u64 \<Rightarrow> bool" where
  "field_expired t_as_of t_observed t_window =
     (t_observed \<le> t_as_of \<and> t_window \<le> t_as_of - t_observed)"

definition report_flags :: "ADSBData \<Rightarrow> u64 \<Rightarrow> u16" where
  "report_flags record t_as_of =
     valid_coords OR
     (if altitude_set record \<and> \<not> field_expired t_as_of (altitude_time record) motion_freshness_ms
      then valid_altitude else 0) OR
     (if heading_set record \<and> \<not> field_expired t_as_of (heading_time record) motion_freshness_ms
      then valid_heading else 0) OR
     (if speed_set record \<and> \<not> field_expired t_as_of (speed_time record) motion_freshness_ms
      then valid_speed else 0) OR
     (if callsign_set record \<and> \<not> field_expired t_as_of (callsign_time record) identity_freshness_ms
      then valid_callsign else 0) OR
     (if squawk_set record \<and> \<not> field_expired t_as_of (squawk_time record) identity_freshness_ms
      then valid_squawk else 0) OR
     (if vert_vel_set record \<and> \<not> field_expired t_as_of (vert_vel_time record) motion_freshness_ms
      then valid_vertvel else 0)"

subsection \<open>The position report\<close>

record position_report =
  pr_position :: Point
  pr_altitude :: u32
  pr_heading :: u16
  pr_hor_vel :: u16
  pr_ver_vel :: i16
  pr_icao_address :: u32
  pr_callsign :: string
  pr_squawk :: u16
  pr_flags :: u16

definition derive_tslc :: "u64 \<Rightarrow> u64 \<Rightarrow> u8" where
  "derive_tslc received now =
     (if now \<le> received then 0 else (let ms_per_s = 1000 in ucast (min ((now - received) div ms_per_s) 255)))"

definition derive_report_timestamp :: "u64 \<Rightarrow> u64 \<Rightarrow> u64 \<Rightarrow> u64" where
  "derive_report_timestamp received_mono now_mono now_wall =
     (let elapsed = (if received_mono < now_mono then now_mono - received_mono else 0)
      in if elapsed \<le> now_wall then now_wall - elapsed else 0)"

definition build_report :: "ADSBData \<Rightarrow> ADSBData \<Rightarrow> position_report option option" where
  "build_report record msg =
     (if \<not> valid (pos msg) then Some None
      else (case (deg_to_centideg (heading record), knots_to_cm_per_s (speed record),
                  ft_per_min_to_cm_per_s (vert_vel record)) of
              (Some cdeg, Some hor, Some ver) \<Rightarrow>
                Some (Some \<lparr>pr_position = pos msg, pr_altitude = altitude record, pr_heading = cdeg,
                            pr_hor_vel = hor, pr_ver_vel = ver, pr_icao_address = ICAOAddress record,
                            pr_callsign = callsign record, pr_squawk = squawk record,
                            pr_flags = report_flags record (last_seen msg)\<rparr>)
            | _ \<Rightarrow> None))"

subsection \<open>Lemmas: trimming\<close>

lemma trim_rev: "trim_trailing_spaces s = rev (dropWhile (\<lambda>x. x = CHR '' '') (rev s))"
proof -
  let ?d = "dropWhile (\<lambda>x. x = CHR '' '') (rev s)"
  have "rev s = takeWhile (\<lambda>x. x = CHR '' '') (rev s) @ ?d" by simp
  then have "s = rev ?d @ rev (takeWhile (\<lambda>x. x = CHR '' '') (rev s))" by (metis rev_append rev_rev_ident)
  then have "take (length ?d) s = rev ?d" by (metis append_eq_conv_conj length_rev)
  then show ?thesis by (auto simp: trim_trailing_spaces_def find_last_not_of_def Let_def)
qed

lemma trim_iff:
  "trim_trailing_spaces s = t \<longleftrightarrow>
     (\<exists>n. s = t @ replicate n CHR '' '') \<and> (t = [] \<or> last t \<noteq> CHR '' '')"
proof
  assume t: "trim_trailing_spaces s = t"
  let ?w = "takeWhile (\<lambda>x. x = CHR '' '') (rev s)" and ?d = "dropWhile (\<lambda>x. x = CHR '' '') (rev s)"
  have d: "?d = rev t" using t by (metis trim_rev rev_rev_ident)
  have "rev s = ?w @ ?d" by simp
  then have s: "s = t @ rev ?w" unfolding d by (metis rev_append rev_rev_ident)
  have "?w = replicate (length ?w) CHR '' ''"
    by (intro replicate_eqI) (auto dest: set_takeWhileD)
  then have "rev ?w = replicate (length ?w) CHR '' ''" by (metis rev_replicate)
  moreover have "t \<noteq> [] \<Longrightarrow> last t \<noteq> CHR '' ''"
    using hd_dropWhile[of "\<lambda>x. x = CHR '' ''" "rev s"] by (simp add: d hd_rev)
  ultimately show "(\<exists>n. s = t @ replicate n CHR '' '') \<and> (t = [] \<or> last t \<noteq> CHR '' '')"
    using s by metis
next
  assume "(\<exists>n. s = t @ replicate n CHR '' '') \<and> (t = [] \<or> last t \<noteq> CHR '' '')"
  then obtain n where s: "s = t @ replicate n CHR '' ''" and t: "t = [] \<or> last t \<noteq> CHR '' ''" by blast
  have "dropWhile (\<lambda>x. x = CHR '' '') (replicate n CHR '' '' @ rev t) = rev t"
    using t by (induction n) (cases "rev t"; auto simp: last_rev hd_rev)+
  then show "trim_trailing_spaces s = t" by (simp add: trim_rev s)
qed

lemma trim_last: "trim_trailing_spaces s \<noteq> [] \<Longrightarrow> last (trim_trailing_spaces s) \<noteq> CHR '' ''"
  using trim_iff by blast

subsection \<open>The invariant of an accumulated record\<close>

definition record_ok :: "ADSBData \<Rightarrow> bool" where
  "record_ok d \<longleftrightarrow> ranges_ok d \<and> \<not> valid (pos d) \<and>
     (if callsign_set d then callsign d \<noteq> [] \<and> length (callsign d) \<le> 8 \<and> last (callsign d) \<noteq> CHR '' ''
      else callsign d = [])"

lemma record_ok_new: "record_ok (new_ADSBData a)"
  by (simp add: record_ok_def ranges_ok_new) (simp add: new_ADSBData_def Point_default_def)

lemma record_ok_setters:
  "record_ok d \<Longrightarrow> record_ok (setAltitude a t d)"
  "record_ok d \<Longrightarrow> record_ok (setVertVel w t d)"
  "record_ok d \<Longrightarrow> record_ok (setLastSeen t d)"
  "record_ok d \<Longrightarrow> squawk_code q \<Longrightarrow> record_ok (setSquawk q t d)"
  "record_ok d \<Longrightarrow> in_range x 0 (dval dbl_max) \<Longrightarrow> record_ok (setSpeed x t d)"
  "record_ok d \<Longrightarrow> in_range x 0 360 \<Longrightarrow> record_ok (setHeading x t d)"
  "record_ok d \<Longrightarrow> c \<noteq> [] \<Longrightarrow> length c \<le> 8 \<Longrightarrow> last c \<noteq> CHR '' '' \<Longrightarrow> record_ok (setCallsign c t d)"
  unfolding record_ok_def by (simp_all add: ranges_ok_setters) (simp_all add: record_simps)

lemma record_ok_callsign: "record_ok r \<Longrightarrow> record_ok (update_callsign r m)"
  by (auto simp: update_callsign_def Let_def max_callsign_length_def trim_last intro!: record_ok_setters)

lemma record_ok_update: "record_ok r \<Longrightarrow> ranges_ok m \<Longrightarrow> record_ok (update_record r m)"
  by (auto simp: update_record_def Let_def ranges_ok_def intro!: record_ok_setters record_ok_callsign)

lemma record_ok_accumulated: "record_ok r \<Longrightarrow> \<forall>m\<in>set ms. ranges_ok m \<Longrightarrow> record_ok (foldl update_record r ms)"
  by (induction ms arbitrary: r) (simp_all add: record_ok_update)

lemma update_record_address [simp]: "ICAOAddress (update_record r m) = ICAOAddress r"
  by (simp add: update_record_def update_callsign_def Let_def)

lemma update_record_last_seen [simp]: "last_seen (update_record r m) = last_seen r"
  by (simp add: update_record_def update_callsign_def Let_def record_simps)

lemma report_conversions:
  assumes "record_ok r"
  obtains cdeg hor ver where "deg_to_centideg (heading r) = Some cdeg" "cdeg \<le> 36000"
    "knots_to_cm_per_s (speed r) = Some hor" "ft_per_min_to_cm_per_s (vert_vel r) = Some ver"
proof -
  have h: "wf_double (heading r)" "isfinite (heading r)" "dval (heading r) \<le> 360"
    and s: "wf_double (speed r)" "isfinite (speed r)"
    using assms by (simp_all add: record_ok_def ranges_ok_def in_range_def)
  have nn: "heading r \<noteq> NaN" "speed r \<noteq> NaN" using h s by auto
  obtain cdeg where c: "deg_to_centideg (heading r) = Some cdeg" using deg.conv_value[OF h(1) nn(1)] by blast
  moreover obtain hor where "knots_to_cm_per_s (speed r) = Some hor" using knots.conv_value[OF s(1) nn(2)] by blast
  moreover obtain ver where "ft_per_min_to_cm_per_s (vert_vel r) = Some ver"
    using ft_per_min_value[of "vert_vel r"] by blast
  ultimately show thesis using that deg_bounded[OF h c] by blast
qed

lemma build_report_defined:
  assumes "record_ok r"
  shows "\<exists>out. build_report r m = Some out"
  by (rule report_conversions[OF assms]) (simp add: build_report_def)

subsection \<open>Ages\<close>

definition fresh :: "u64 \<Rightarrow> u64 \<Rightarrow> int \<Rightarrow> bool" where
  "fresh t observed window \<longleftrightarrow> uint t < uint observed + window"

lemma field_expired_fresh: "field_expired t obs w \<longleftrightarrow> \<not> fresh t obs (uint w) \<and> obs \<le> t"
  unfolding field_expired_def word_minus_ge_iff fresh_def by auto

lemma not_expired:
  "\<not> field_expired t obs motion_freshness_ms \<longleftrightarrow> fresh t obs 60000"
  "\<not> field_expired t obs identity_freshness_ms \<longleftrightarrow> fresh t obs 300000"
proof -
  have "uint motion_freshness_ms = 60000" "uint identity_freshness_ms = 300000"
    by (simp_all add: motion_freshness_ms_def identity_freshness_ms_def)
  then show "\<not> field_expired t obs motion_freshness_ms \<longleftrightarrow> fresh t obs 60000"
    "\<not> field_expired t obs identity_freshness_ms \<longleftrightarrow> fresh t obs 300000"
    unfolding field_expired_fresh fresh_def word_le_def by linarith+
qed

definition elapsed_ms :: "u64 \<Rightarrow> u64 \<Rightarrow> int" where
  "elapsed_ms received now = max 0 (uint now - uint received)"

lemma uint_word_div: "uint (a div b) = uint a div uint b" for a b :: "'a::len word"
  by (simp add: uint_div)

lemma derive_tslc_value: "uint (derive_tslc received now) = min 255 (elapsed_ms received now div 1000)"
proof (cases "now \<le> received")
  case True
  then show ?thesis by (simp add: derive_tslc_def elapsed_ms_def word_le_def)
next
  case False
  then have le: "received \<le> now" by simp
  define q where "q = (now - received) div 1000"
  have "uint q = elapsed_ms received now div 1000"
    using uint_minus_le[OF le] le by (simp add: q_def uint_word_div elapsed_ms_def word_le_def)
  moreover have "uint (ucast (min q 255) :: u8) = min (uint q) 255"
    by (simp add: min_def word_le_def unsigned_ucast_eq take_bit_int_eq_self)
  ultimately show ?thesis using False by (simp add: derive_tslc_def Let_def q_def)
qed

lemma derive_report_timestamp_value:
  "uint (derive_report_timestamp received now wall) = max 0 (uint wall - elapsed_ms received now)"
proof -
  define e where "e = (if received < now then now - received else 0)"
  have e: "uint e = elapsed_ms received now"
    using uint_minus_le[of received now] by (auto simp: e_def elapsed_ms_def word_less_def word_le_def)
  show ?thesis using uint_minus_le[of e wall] unfolding derive_report_timestamp_def Let_def e_def [symmetric]
    by (auto simp: e [symmetric] word_le_def)
qed

subsection \<open>The fields of a folded record\<close>

definition carries_callsign :: "ADSBData \<Rightarrow> bool" where
  "carries_callsign m \<longleftrightarrow> callsign_set m \<and> trim_trailing_spaces (callsign m) \<noteq> [] \<and>
     length (trim_trailing_spaces (callsign m)) \<le> 8"

lemma update_record_fields:
  "callsign_set (update_record r m) \<longleftrightarrow> callsign_set r \<or> carries_callsign m"
  "callsign (update_record r m) = (if carries_callsign m then trim_trailing_spaces (callsign m) else callsign r)"
  "callsign_time (update_record r m) = (if carries_callsign m then callsign_time m else callsign_time r)"
  "altitude_set (update_record r m) \<longleftrightarrow> altitude_set r \<or> altitude_set m"
  "altitude (update_record r m) = (if altitude_set m then altitude m else altitude r)"
  "altitude_time (update_record r m) = (if altitude_set m then altitude_time m else altitude_time r)"
  "speed_set (update_record r m) \<longleftrightarrow> speed_set r \<or> speed_set m"
  "speed (update_record r m) = (if speed_set m then speed m else speed r)"
  "speed_time (update_record r m) = (if speed_set m then speed_time m else speed_time r)"
  "heading_set (update_record r m) \<longleftrightarrow> heading_set r \<or> heading_set m"
  "heading (update_record r m) = (if heading_set m then heading m else heading r)"
  "heading_time (update_record r m) = (if heading_set m then heading_time m else heading_time r)"
  "vert_vel_set (update_record r m) \<longleftrightarrow> vert_vel_set r \<or> vert_vel_set m"
  "vert_vel (update_record r m) = (if vert_vel_set m then vert_vel m else vert_vel r)"
  "vert_vel_time (update_record r m) = (if vert_vel_set m then vert_vel_time m else vert_vel_time r)"
  "squawk_set (update_record r m) \<longleftrightarrow> squawk_set r \<or> squawk_set m"
  "squawk (update_record r m) = (if squawk_set m then squawk m else squawk r)"
  "squawk_time (update_record r m) = (if squawk_set m then squawk_time m else squawk_time r)"
  by (auto simp: update_record_def update_callsign_def carries_callsign_def Let_def record_simps max_callsign_length_def)

text \<open>The value a field of the record has after a history: that of the last message that carries it.\<close>

definition latest :: "(ADSBData \<Rightarrow> bool) \<Rightarrow> (ADSBData \<Rightarrow> 'v) \<Rightarrow> ADSBData list \<Rightarrow> 'v option" where
  "latest has get ms = map_option get (find has (rev ms))"

lemma latest_Nil [simp]: "latest has get [] = None"
  by (simp add: latest_def)

lemma latest_snoc: "latest has get (ms @ [m]) = (if has m then Some (get m) else latest has get ms)"
  by (simp add: latest_def)

definition history :: "u32 \<Rightarrow> ADSBData list \<Rightarrow> ADSBData" where
  "history a ms = foldl update_record (new_ADSBData a) ms"

lemma history_snoc: "history a (ms @ [m]) = update_record (history a ms) m"
  by (simp add: history_def)

definition known :: "bool \<Rightarrow> 'v \<Rightarrow> 'v option" where
  "known has v = (if has then Some v else None)"

lemma new_not_set:
  "\<not> callsign_set (history a [])" "\<not> altitude_set (history a [])" "\<not> speed_set (history a [])"
  "\<not> heading_set (history a [])" "\<not> vert_vel_set (history a [])" "\<not> squawk_set (history a [])"
  by (simp_all add: history_def new_ADSBData_def)

text \<open>C11: the accumulated record is the per-field summary of everything heard: each field, with its observation
  time, is that of the latest message that carried it, and is unset if none did; a callsign counts
  as carried when it is non-empty and at most eight characters without its padding.\<close>

theorem record_holds_latest:
  "known (callsign_set (history a ms)) (callsign (history a ms), callsign_time (history a ms))
     = latest carries_callsign (\<lambda>m. (trim_trailing_spaces (callsign m), callsign_time m)) ms \<and>
   known (altitude_set (history a ms)) (altitude (history a ms), altitude_time (history a ms))
     = latest altitude_set (\<lambda>m. (altitude m, altitude_time m)) ms \<and>
   known (speed_set (history a ms)) (speed (history a ms), speed_time (history a ms))
     = latest speed_set (\<lambda>m. (speed m, speed_time m)) ms \<and>
   known (heading_set (history a ms)) (heading (history a ms), heading_time (history a ms))
     = latest heading_set (\<lambda>m. (heading m, heading_time m)) ms \<and>
   known (vert_vel_set (history a ms)) (vert_vel (history a ms), vert_vel_time (history a ms))
     = latest vert_vel_set (\<lambda>m. (vert_vel m, vert_vel_time m)) ms \<and>
   known (squawk_set (history a ms)) (squawk (history a ms), squawk_time (history a ms))
     = latest squawk_set (\<lambda>m. (squawk m, squawk_time m)) ms"
proof (induction ms rule: rev_induct)
  case Nil
  show ?case by (simp add: known_def new_not_set)
next
  case (snoc m ms)
  show ?case
    by (intro conjI)
      (insert snoc, simp_all add: history_snoc latest_snoc update_record_fields known_def split: if_splits)
qed

lemma bit_flag: "k < 16 \<Longrightarrow> bit (2 ^ k :: u16) n \<longleftrightarrow> n = k"
  by (auto simp: bit_exp_iff possible_bit_word)

lemma flag_bits:
  "bit valid_coords n \<longleftrightarrow> n = 0" "bit valid_altitude n \<longleftrightarrow> n = 1" "bit valid_heading n \<longleftrightarrow> n = 2"
  "bit valid_speed n \<longleftrightarrow> n = 3" "bit valid_callsign n \<longleftrightarrow> n = 4" "bit valid_squawk n \<longleftrightarrow> n = 5"
  "bit valid_vertvel n \<longleftrightarrow> n = 7"
proof -
  have p: "valid_coords = 2 ^ 0" "valid_altitude = 2 ^ 1" "valid_heading = 2 ^ 2" "valid_speed = 2 ^ 3"
    "valid_callsign = 2 ^ 4" "valid_squawk = 2 ^ 5" "valid_vertvel = 2 ^ 7"
    by (simp_all add: valid_coords_def valid_altitude_def valid_heading_def valid_speed_def valid_callsign_def
        valid_squawk_def valid_vertvel_def)
  show "bit valid_coords n \<longleftrightarrow> n = 0" "bit valid_altitude n \<longleftrightarrow> n = 1" "bit valid_heading n \<longleftrightarrow> n = 2"
    "bit valid_speed n \<longleftrightarrow> n = 3" "bit valid_callsign n \<longleftrightarrow> n = 4" "bit valid_squawk n \<longleftrightarrow> n = 5"
    "bit valid_vertvel n \<longleftrightarrow> n = 7"
    unfolding p by (rule bit_flag, simp)+
qed

lemma report_flags_iff:
  "bit (report_flags r t) n \<longleftrightarrow>
     n = 0 \<or>
     (n = 1 \<and> altitude_set r \<and> fresh t (altitude_time r) 60000) \<or>
     (n = 2 \<and> heading_set r \<and> fresh t (heading_time r) 60000) \<or>
     (n = 3 \<and> speed_set r \<and> fresh t (speed_time r) 60000) \<or>
     (n = 4 \<and> callsign_set r \<and> fresh t (callsign_time r) 300000) \<or>
     (n = 5 \<and> squawk_set r \<and> fresh t (squawk_time r) 300000) \<or>
     (n = 7 \<and> vert_vel_set r \<and> fresh t (vert_vel_time r) 60000)"
proof -
  note b = flag_bits[of n]
  have if0: "bit (if c then v else 0) n \<longleftrightarrow> c \<and> bit v n" for c and v :: u16 by simp
  show ?thesis unfolding report_flags_def bit_or_iff if0 b not_expired by blast
qed

text \<open>C19: the flags word, bit by bit: coordinates always; altitude, heading, speed and vertical rate while known
  and younger than a minute; callsign and squawk while known and younger than five minutes; the
  simulated bit and every bit above 7 never.\<close>

theorem report_flags_bits:
  "bit (report_flags r t) n \<longleftrightarrow>
     n = 0 \<or>
     (n = 1 \<and> altitude_set r \<and> fresh t (altitude_time r) 60000) \<or>
     (n = 2 \<and> heading_set r \<and> fresh t (heading_time r) 60000) \<or>
     (n = 3 \<and> speed_set r \<and> fresh t (speed_time r) 60000) \<or>
     (n = 4 \<and> callsign_set r \<and> fresh t (callsign_time r) 300000) \<or>
     (n = 5 \<and> squawk_set r \<and> fresh t (squawk_time r) 300000) \<or>
     (n = 7 \<and> vert_vel_set r \<and> fresh t (vert_vel_time r) 60000)"
  by (rule report_flags_iff)

text \<open>C21: a report of an accumulated record is always defined (no conversion can leave the range of its cast), is
  made exactly when the message carries a position, takes the position from the message and
  everything else from the record, and evaluates the flags at the time of the message.\<close>

theorem build_report_content:
  assumes "record_ok r"
  shows "if valid (pos m)
    then (\<exists>p. build_report r m = Some (Some p) \<and> pr_position p = pos m \<and> pr_altitude p = altitude r \<and>
            pr_icao_address p = ICAOAddress r \<and> pr_callsign p = callsign r \<and> length (pr_callsign p) \<le> 8 \<and>
            pr_squawk p = squawk r \<and> pr_heading p \<le> 36000 \<and>
            deg_to_centideg (heading r) = Some (pr_heading p) \<and>
            knots_to_cm_per_s (speed r) = Some (pr_hor_vel p) \<and>
            ft_per_min_to_cm_per_s (vert_vel r) = Some (pr_ver_vel p) \<and>
            pr_flags p = report_flags r (last_seen m))
    else build_report r m = Some None"
proof -
  have len: "length (callsign r) \<le> 8" using assms by (auto simp: record_ok_def split: if_splits)
  show ?thesis by (rule report_conversions[OF assms]) (simp add: build_report_def len)
qed

theorem build_report_content_witness:
  "\<exists>p. build_report (history 1 []) ((new_ADSBData 1)\<lparr>pos := Point_at zero_double zero_double\<rparr>) = Some (Some p) \<and>
     pr_icao_address p = 1"
  using build_report_content[OF record_ok_new[of 1], of "(new_ADSBData 1)\<lparr>pos := Point_at zero_double zero_double\<rparr>"]
  by (auto simp: history_def Point_at_def new_ADSBData_def)

text \<open>C34: whatever in-range messages arrive, the accumulated record keeps its invariant: every value in the range
  of its field, and a callsign that is empty or one to eight characters without trailing
  padding.\<close>

theorem record_invariant:
  assumes "\<forall>m\<in>set ms. ranges_ok m"
  shows "record_ok (history a ms)"
  unfolding history_def using record_ok_accumulated[OF record_ok_new assms] .

theorem record_invariant_witness:
  "record_ok (history 7 [setCallsign ''QFA123  '' 5 (new_ADSBData 7), setAltitude 1000 6 (new_ADSBData 7)])"
  using record_invariant[of "[setCallsign ''QFA123  '' 5 (new_ADSBData 7), setAltitude 1000 6 (new_ADSBData 7)]" 7]
  by (simp add: ranges_ok_setters ranges_ok_new)

text \<open>C20: the age sent with a report is the whole seconds since the position was received, saturating at 255, and
  its wall-clock timestamp is the present minus the same elapsed time, never below 0; neither
  subtraction wraps, for any clock values.\<close>

theorem report_age_and_timestamp:
  "uint (derive_tslc received now) = min 255 (elapsed_ms received now div 1000) \<and>
   uint (derive_report_timestamp received now wall) = max 0 (uint wall - elapsed_ms received now)"
  by (simp add: derive_tslc_value derive_report_timestamp_value)

end
