(* ===== verification/Std_Map.thy ===== *)
theory Std_Map
  imports Adsb_Prelude
begin

text \<open>
  std::map as the registry and the report queue use it: entries in ascending key order, with
  find, try\_emplace, assignment through an iterator, erase and iteration. The contract is a locale,
  interpreted on sorted association lists; the two components rest on the interpreted facts.
\<close>

subsection \<open>The contract\<close>

locale ordered_map =
  fixes lookup :: "'m \<Rightarrow> 'k::linorder \<Rightarrow> 'v option"
    and put :: "'k \<Rightarrow> 'v \<Rightarrow> 'm \<Rightarrow> 'm"
    and erase :: "'k \<Rightarrow> 'm \<Rightarrow> 'm"
    and entries :: "'m \<Rightarrow> ('k \<times> 'v) list"
    and inv :: "'m \<Rightarrow> bool"
  assumes put_inv: "inv m \<Longrightarrow> inv (put k v m)"
    and erase_inv: "inv m \<Longrightarrow> inv (erase k m)"
    and lookup_put: "inv m \<Longrightarrow> lookup (put k v m) = (lookup m)(k \<mapsto> v)"
    and lookup_erase: "inv m \<Longrightarrow> lookup (erase k m) = (lookup m)(k := None)"
    and entries_lookup: "inv m \<Longrightarrow> (k, v) \<in> set (entries m) \<longleftrightarrow> lookup m k = Some v"
    and entries_ordered: "inv m \<Longrightarrow> sorted_wrt (<) (map fst (entries m))"
begin

abbreviation size_of :: "'m \<Rightarrow> nat" where
  "size_of m \<equiv> length (entries m)"

lemma distinct_keys: "inv m \<Longrightarrow> distinct (map fst (entries m))"
  using entries_ordered by (simp add: strict_sorted_iff)

lemma dom_entries: "inv m \<Longrightarrow> dom (lookup m) = fst ` set (entries m)"
  using entries_lookup by (force simp: dom_def image_iff)

lemma size_card: "inv m \<Longrightarrow> size_of m = card (dom (lookup m))"
  using distinct_card[OF distinct_keys] by (simp add: dom_entries)

lemma finite_dom: "inv m \<Longrightarrow> finite (dom (lookup m))"
  by (simp add: dom_entries)

lemma size_put_new: "inv m \<Longrightarrow> lookup m k = None \<Longrightarrow> size_of (put k v m) = Suc (size_of m)"
  by (simp add: size_card put_inv lookup_put finite_dom domIff)

lemma size_put_known: "inv m \<Longrightarrow> lookup m k = Some w \<Longrightarrow> size_of (put k v m) = size_of m"
  by (simp add: size_card put_inv lookup_put finite_dom insert_absorb domI)

lemma size_erase: "inv m \<Longrightarrow> lookup m k = Some w \<Longrightarrow> Suc (size_of (erase k m)) = size_of m"
  using card_Suc_Diff1[of "dom (lookup m)" k]
  by (simp add: size_card erase_inv lookup_erase finite_dom domI)

lemma erase_absent: "inv m \<Longrightarrow> lookup m k = None \<Longrightarrow> size_of (erase k m) = size_of m"
  by (simp add: size_card erase_inv lookup_erase domIff Diff_triv)

end

subsection \<open>Sorted association lists\<close>

fun map_put :: "'k::linorder \<Rightarrow> 'v \<Rightarrow> ('k \<times> 'v) list \<Rightarrow> ('k \<times> 'v) list" where
  \<comment> \<open>insert a new entry in key order, or assign to the existing one\<close>
  "map_put k v [] = [(k, v)]"
| "map_put k v ((k', v') # m) =
     (if k < k' then (k, v) # (k', v') # m else if k = k' then (k, v) # m
      else (k', v') # map_put k v m)"

definition map_erase :: "'k \<Rightarrow> ('k \<times> 'v) list \<Rightarrow> ('k \<times> 'v) list" where
  "map_erase k m = filter (\<lambda>(k', _). k' \<noteq> k) m"

definition try_emplace :: "'k::linorder \<Rightarrow> 'v \<Rightarrow> ('k \<times> 'v) list \<Rightarrow> ('k \<times> 'v) list" where
  "try_emplace k v m = (case map_of m k of None \<Rightarrow> map_put k v m | Some _ \<Rightarrow> m)"

definition map_sorted :: "('k::linorder \<times> 'v) list \<Rightarrow> bool" where
  "map_sorted m = sorted_wrt (<) (map fst m)"

lemma map_put_keys: "fst ` set (map_put k v m) = insert k (fst ` set m)"
  by (induction k v m rule: map_put.induct) (simp_all add: insert_commute)

lemma map_erase_keys: "fst ` set (map_erase k m) = fst ` set m - {k}"
  by (auto simp: map_erase_def image_iff)

lemma map_sorted_Cons: "map_sorted ((k, v) # m) \<longleftrightarrow> (\<forall>x\<in>fst ` set m. k < x) \<and> map_sorted m"
  by (simp add: map_sorted_def)

lemma map_put_sorted: "map_sorted m \<Longrightarrow> map_sorted (map_put k v m)"
proof (induction k v m rule: map_put.induct)
  case (2 k v k' v' m)
  then show ?case by (auto simp only: map_put.simps map_sorted_Cons map_put_keys split: if_splits)
      (auto intro: less_trans)
qed (simp add: map_sorted_def)

lemma map_of_put: "map_sorted m \<Longrightarrow> map_of (map_put k v m) = (map_of m)(k \<mapsto> v)"
proof (induction m)
  case (Cons e m)
  then show ?case by (cases e) (auto simp: map_sorted_def fun_eq_iff)
qed simp

interpretation smap: ordered_map map_of map_put map_erase "\<lambda>m. m" map_sorted
proof
  fix m :: "('k::linorder \<times> 'v) list" and k :: 'k and v :: 'v
  assume m: "map_sorted m"
  then show "map_sorted (map_put k v m)" by (rule map_put_sorted)
  show "map_sorted (map_erase k m)" using m by (induction m) (auto simp: map_sorted_def map_erase_def)
  show "map_of (map_put k v m) = (map_of m)(k \<mapsto> v)" using m by (rule map_of_put)
  show "map_of (map_erase k m) = (map_of m)(k := None)"
    by (induction m) (auto simp: map_erase_def fun_eq_iff)
  have "distinct (map fst m)" using m by (simp add: map_sorted_def strict_sorted_iff)
  then show "(k, v) \<in> set m \<longleftrightarrow> map_of m k = Some v" by simp
  show "sorted_wrt (<) (map fst m)" using m by (simp add: map_sorted_def)
qed

lemma map_sorted_Nil [simp]: "map_sorted []"
  by (simp add: map_sorted_def)

lemma map_sorted_filter: "map_sorted m \<Longrightarrow> map_sorted (filter P m)"
  by (induction m) (auto simp: map_sorted_def)

end
