(* ===== verification/Registry.thy ===== *)
theory Registry
  imports Adsb_Record Std_Map
begin

text \<open>
  The aircraft registry: src/src/aircraft\_registry.hpp and aircraft\_registry.cpp. Every public
  operation of the class holds its mutex from the first read to the last write, so an operation is
  one transition of the state. Folding returns None only where building the report is undefined
  behaviour, which the invariant excludes.
\<close>

subsection \<open>State and operations\<close>

definition default_registry_capacity :: nat where "default_registry_capacity = 4096"

record aircraft_registry =
  known_aircraft :: "(u32 \<times> ADSBData) list"
  reg_capacity :: nat
  evictions :: u64

definition new_registry :: "nat \<Rightarrow> aircraft_registry option" where
  \<comment> \<open>the constructor asserts a capacity of at least 1\<close>
  "new_registry cap =
     (if 1 \<le> cap then Some \<lparr>known_aircraft = [], reg_capacity = cap, evictions = 0\<rparr> else None)"

fun min_element :: "('a \<Rightarrow> 'a \<Rightarrow> bool) \<Rightarrow> 'a list \<Rightarrow> 'a option" where
  \<comment> \<open>std::min\_element: the first of the smallest elements; None is end()\<close>
  "min_element lt [] = None"
| "min_element lt (x # xs) = Some (foldl (\<lambda>smallest y. if lt y smallest then y else smallest) x xs)"

definition evict_least_recently_seen :: "aircraft_registry \<Rightarrow> aircraft_registry" where
  "evict_least_recently_seen reg =
     (case min_element (\<lambda>(_, lhs) (_, rhs). last_seen lhs < last_seen rhs) (known_aircraft reg) of
        None \<Rightarrow> reg
      | Some (address, _) \<Rightarrow>
          reg\<lparr>known_aircraft := map_erase address (known_aircraft reg), evictions := evictions reg + 1\<rparr>)"

definition admit :: "u32 \<Rightarrow> aircraft_registry \<Rightarrow> aircraft_registry" where
  \<comment> \<open>find, and on a miss make room and try\_emplace\<close>
  "admit address reg =
     (case map_of (known_aircraft reg) address of
        Some _ \<Rightarrow> reg
      | None \<Rightarrow>
          (let reg = (if reg_capacity reg \<le> length (known_aircraft reg)
                      then evict_least_recently_seen reg else reg)
           in reg\<lparr>known_aircraft := try_emplace address (new_ADSBData address) (known_aircraft reg)\<rparr>))"

definition registry_fold ::
  "aircraft_registry \<Rightarrow> ADSBData \<Rightarrow> (aircraft_registry \<times> position_report option) option" where
  "registry_fold reg adsb =
     (let received = last_seen adsb;
          address = ICAOAddress adsb;
          reg = admit address reg
      in (case map_of (known_aircraft reg) address of
            None \<Rightarrow> None
          | Some aircraft \<Rightarrow>
              (let aircraft = update_record (setLastSeen received aircraft) adsb;
                   reg = reg\<lparr>known_aircraft := map_put address aircraft (known_aircraft reg)\<rparr>
               in map_option (\<lambda>report. (reg, report)) (build_report aircraft adsb))))"

fun evict_stale_loop ::
  "u64 \<Rightarrow> u64 \<Rightarrow> (u32 \<times> ADSBData) list \<Rightarrow> (u32 \<times> ADSBData) list \<times> u32 list" where
  \<comment> \<open>the iterator loop: what stays in the map, and the addresses pushed\<close>
  "evict_stale_loop now window [] = ([], [])"
| "evict_stale_loop now window ((address, aircraft) # rest) =
     (let (kept, evicted) = evict_stale_loop now window rest
      in if isStale aircraft now window then (kept, ICAOAddress aircraft # evicted)
         else ((address, aircraft) # kept, evicted))"

definition evict_stale :: "aircraft_registry \<Rightarrow> u64 \<Rightarrow> u64 \<Rightarrow> aircraft_registry \<times> u32 list" where
  "evict_stale reg now window =
     (let (kept, evicted) = evict_stale_loop now window (known_aircraft reg)
      in (reg\<lparr>known_aircraft := kept\<rparr>, evicted))"

definition capacity_evictions :: "aircraft_registry \<Rightarrow> u64" where
  "capacity_evictions reg = evictions reg"

definition registry_size :: "aircraft_registry \<Rightarrow> nat" where
  "registry_size reg = length (known_aircraft reg)"

subsection \<open>The invariant\<close>

definition registry_ok :: "aircraft_registry \<Rightarrow> bool" where
  "registry_ok reg \<longleftrightarrow> map_sorted (known_aircraft reg) \<and> 1 \<le> reg_capacity reg \<and>
     length (known_aircraft reg) \<le> reg_capacity reg \<and>
     (\<forall>(address, aircraft)\<in>set (known_aircraft reg). ICAOAddress aircraft = address \<and> record_ok aircraft)"

abbreviation aircraft_at :: "aircraft_registry \<Rightarrow> u32 \<Rightarrow> ADSBData option" where
  "aircraft_at reg \<equiv> map_of (known_aircraft reg)"

lemma registry_ok_new: "new_registry cap = Some reg \<Longrightarrow> registry_ok reg"
  by (auto simp: new_registry_def registry_ok_def split: if_splits)

lemma registry_ok_at:
  assumes "registry_ok reg" and "aircraft_at reg k = Some a"
  shows "ICAOAddress a = k" and "record_ok a"
  using assms map_of_SomeD[OF assms(2)] by (auto simp: registry_ok_def)

lemma registry_okI:
  assumes "map_sorted (known_aircraft reg)" "1 \<le> reg_capacity reg"
    "length (known_aircraft reg) \<le> reg_capacity reg"
    "\<And>k a. aircraft_at reg k = Some a \<Longrightarrow> ICAOAddress a = k \<and> record_ok a"
  shows "registry_ok reg"
  using assms smap.entries_lookup[OF assms(1)] by (auto simp: registry_ok_def)

lemmas registry_okD = registry_ok_def [THEN iffD1, THEN conjunct1]
  registry_ok_def [THEN iffD1, THEN conjunct2, THEN conjunct1]
  registry_ok_def [THEN iffD1, THEN conjunct2, THEN conjunct2, THEN conjunct1]

subsection \<open>The least recently seen aircraft\<close>

lemma foldl_min:
  fixes f :: "'a \<Rightarrow> 'b::linorder"
  shows "\<exists>as bs. x # xs = as @ foldl (\<lambda>s y. if f y < f s then y else s) x xs # bs \<and>
    (\<forall>y\<in>set as. f (foldl (\<lambda>s y. if f y < f s then y else s) x xs) < f y) \<and>
    (\<forall>y\<in>set bs. f (foldl (\<lambda>s y. if f y < f s then y else s) x xs) \<le> f y)"
proof (induction xs rule: rev_induct)
  case Nil
  show ?case by (rule exI[of _ "[]"]) simp
next
  case (snoc y xs)
  define m where "m = foldl (\<lambda>s y. if f y < f s then y else s) x xs"
  from snoc obtain as bs where ih: "x # xs = as @ m # bs" "\<forall>z\<in>set as. f m < f z" "\<forall>z\<in>set bs. f m \<le> f z"
    by (auto simp: m_def)
  show ?case
  proof (cases "f y < f m")
    case True
    have "x # xs @ [y] = (as @ m # bs) @ y # []" using ih(1) by simp
    moreover have "\<forall>z\<in>set (as @ m # bs). f y < f z" using True ih by (auto intro: less_le_trans less_trans)
    ultimately show ?thesis using True
      by (intro exI[of _ "as @ m # bs"] exI[of _ "[]"]) (simp add: m_def [symmetric])
  next
    case False
    have "x # xs @ [y] = as @ m # (bs @ [y])" using ih(1) by simp
    then show ?thesis using False ih(2,3)
      by (intro exI[of _ "as"] exI[of _ "bs @ [y]"]) (simp add: m_def [symmetric])
  qed
qed

lemma min_element_first:
  fixes f :: "'a \<Rightarrow> 'b::linorder"
  assumes "min_element (\<lambda>x y. f x < f y) xs = Some m"
  shows "\<exists>as bs. xs = as @ m # bs \<and> (\<forall>y\<in>set as. f m < f y) \<and> (\<forall>y\<in>set bs. f m \<le> f y)"
  using assms foldl_min[of _ _ f] by (cases xs) auto

lemma min_element_None: "min_element lt xs = None \<longleftrightarrow> xs = []"
  by (cases xs) simp_all

text \<open>Making room removes one entry: the first, in address order, of those heard least recently.\<close>

lemma evict_lru:
  assumes "registry_ok reg" and "known_aircraft reg \<noteq> []"
  obtains k a where "aircraft_at reg k = Some a"
    and "evict_least_recently_seen reg =
           reg\<lparr>known_aircraft := map_erase k (known_aircraft reg), evictions := evictions reg + 1\<rparr>"
    and "\<And>k' b. aircraft_at reg k' = Some b \<Longrightarrow>
           last_seen a < last_seen b \<or> (last_seen a = last_seen b \<and> k \<le> k')"
proof -
  let ?m = "known_aircraft reg"
  define f where "f = (\<lambda>e::u32 \<times> ADSBData. last_seen (snd e))"
  have lt: "(\<lambda>(_, lhs) (_, rhs). last_seen lhs < last_seen rhs) = (\<lambda>x y. f x < f y)"
    by (simp add: f_def fun_eq_iff)
  obtain k a where min: "min_element (\<lambda>x y. f x < f y) ?m = Some (k, a)"
    using assms(2) min_element_None[of "\<lambda>x y. f x < f y" ?m] by (cases "min_element (\<lambda>x y. f x < f y) ?m") auto
  from min_element_first[OF min] obtain as bs where split: "?m = as @ (k, a) # bs"
    and before: "\<forall>y\<in>set as. last_seen a < f y" and after: "\<forall>y\<in>set bs. last_seen a \<le> f y"
    by (auto simp: f_def)
  have sorted: "map_sorted ?m" using assms(1) by (rule registry_okD)
  have mem: "(k', b) \<in> set ?m \<longleftrightarrow> aircraft_at reg k' = Some b" for k' b
    using smap.entries_lookup[OF sorted] .
  have bs: "\<forall>y\<in>set bs. k < fst y" using sorted by (auto simp: split map_sorted_def sorted_wrt_append)
  show thesis
  proof (rule that)
    show "aircraft_at reg k = Some a" using mem[of k a] by (simp add: split)
    show "evict_least_recently_seen reg =
        reg\<lparr>known_aircraft := map_erase k ?m, evictions := evictions reg + 1\<rparr>"
      by (simp add: evict_least_recently_seen_def lt min)
    fix k' b assume "aircraft_at reg k' = Some b"
    then have "(k', b) \<in> set as \<or> (k', b) = (k, a) \<or> (k', b) \<in> set bs" using mem[of k' b] split by auto
    then show "last_seen a < last_seen b \<or> (last_seen a = last_seen b \<and> k \<le> k')"
      using before after bs by (fastforce simp: f_def)
  qed
qed

lemma evict_lru_ok:
  assumes "registry_ok reg"
  shows "registry_ok (evict_least_recently_seen reg)"
    and "reg_capacity (evict_least_recently_seen reg) = reg_capacity reg"
    and "known_aircraft reg \<noteq> [] \<Longrightarrow>
      Suc (length (known_aircraft (evict_least_recently_seen reg))) = length (known_aircraft reg)"
proof -
  have sorted: "map_sorted (known_aircraft reg)" using assms by (rule registry_okD)
  have all: "registry_ok (evict_least_recently_seen reg) \<and>
      reg_capacity (evict_least_recently_seen reg) = reg_capacity reg \<and>
      Suc (length (known_aircraft (evict_least_recently_seen reg))) = length (known_aircraft reg)"
    if ne: "known_aircraft reg \<noteq> []"
  proof (rule evict_lru[OF assms ne])
    fix k a assume at: "aircraft_at reg k = Some a"
      and e: "evict_least_recently_seen reg =
        reg\<lparr>known_aircraft := map_erase k (known_aircraft reg), evictions := evictions reg + 1\<rparr>"
    have "Suc (length (map_erase k (known_aircraft reg))) = length (known_aircraft reg)"
      using smap.size_erase[OF sorted at] .
    moreover from this have "registry_ok (evict_least_recently_seen reg)" using assms
      by (intro registry_okI) (auto simp: e smap.erase_inv sorted smap.lookup_erase registry_ok_def
          dest!: map_of_SomeD split: if_splits)
    ultimately show ?thesis by (simp add: e)
  qed
  have empty: "evict_least_recently_seen reg = reg" if "known_aircraft reg = []"
    using that by (simp add: evict_least_recently_seen_def)
  show "registry_ok (evict_least_recently_seen reg)"
    "reg_capacity (evict_least_recently_seen reg) = reg_capacity reg"
    "known_aircraft reg \<noteq> [] \<Longrightarrow>
      Suc (length (known_aircraft (evict_least_recently_seen reg))) = length (known_aircraft reg)"
    using all empty assms by (cases "known_aircraft reg = []"; simp)+
qed

subsection \<open>Admission\<close>

text \<open>Admitting an address gives it a record, keeps the invariant, and leaves a known one alone.\<close>

lemma admit_known: "aircraft_at reg k = Some a \<Longrightarrow> admit k reg = reg"
  by (simp add: admit_def)

lemma admit_room:
  assumes "registry_ok reg" and "aircraft_at reg k = None" and "length (known_aircraft reg) < reg_capacity reg"
  shows "admit k reg = reg\<lparr>known_aircraft := map_put k (new_ADSBData k) (known_aircraft reg)\<rparr>"
  using assms by (simp add: admit_def try_emplace_def)

lemma put_ok:
  assumes "registry_ok reg" and "aircraft_at reg k = None \<Longrightarrow> length (known_aircraft reg) < reg_capacity reg"
    and "ICAOAddress a = k" and "record_ok a"
  shows "registry_ok (reg\<lparr>known_aircraft := map_put k a (known_aircraft reg)\<rparr>)"
proof (rule registry_okI)
  have sorted: "map_sorted (known_aircraft reg)" using assms(1) by (rule registry_okD)
  then show "map_sorted (known_aircraft (reg\<lparr>known_aircraft := map_put k a (known_aircraft reg)\<rparr>))"
    by (simp add: smap.put_inv)
  show "1 \<le> reg_capacity (reg\<lparr>known_aircraft := map_put k a (known_aircraft reg)\<rparr>)"
    using assms(1) by (simp add: registry_ok_def)
  have "length (known_aircraft reg) \<le> reg_capacity reg" using assms(1) by (rule registry_okD)
  then show "length (known_aircraft (reg\<lparr>known_aircraft := map_put k a (known_aircraft reg)\<rparr>))
      \<le> reg_capacity (reg\<lparr>known_aircraft := map_put k a (known_aircraft reg)\<rparr>)"
    using assms(2) smap.size_put_new[OF sorted] smap.size_put_known[OF sorted]
    by (cases "aircraft_at reg k") simp_all
  show "ICAOAddress b = k' \<and> record_ok b"
    if "aircraft_at (reg\<lparr>known_aircraft := map_put k a (known_aircraft reg)\<rparr>) k' = Some b" for k' b
    using that assms(3,4) registry_ok_at[OF assms(1)] by (auto simp: smap.lookup_put[OF sorted] split: if_splits)
qed

lemma admit_ok:
  assumes "registry_ok reg"
  shows "registry_ok (admit k reg) \<and> reg_capacity (admit k reg) = reg_capacity reg \<and>
    (\<exists>a. aircraft_at (admit k reg) k = Some a)"
proof (cases "aircraft_at reg k")
  case None
  define reg' where "reg' = (if reg_capacity reg \<le> length (known_aircraft reg)
    then evict_least_recently_seen reg else reg)"
  have cap: "1 \<le> reg_capacity reg" using assms by (rule registry_okD)
  have ok: "registry_ok reg'" "reg_capacity reg' = reg_capacity reg"
    using assms by (simp_all add: reg'_def evict_lru_ok)
  have room: "length (known_aircraft reg') < reg_capacity reg'"
    using cap evict_lru_ok(2)[OF assms] evict_lru_ok(3)[OF assms] registry_okD(3)[OF assms]
    by (cases "known_aircraft reg = []") (auto simp: reg'_def)
  have adm: "admit k reg = reg'\<lparr>known_aircraft := try_emplace k (new_ADSBData k) (known_aircraft reg')\<rparr>"
    using None by (simp add: admit_def reg'_def Let_def)
  have sorted: "map_sorted (known_aircraft reg')" using ok(1) by (rule registry_okD)
  show ?thesis
  proof (cases "aircraft_at reg' k")
    case None
    moreover have "ICAOAddress (new_ADSBData k) = k" by (simp add: new_ADSBData_def)
    ultimately show ?thesis using put_ok[OF ok(1) room, of "new_ADSBData k" k] record_ok_new[of k]
      by (simp add: adm try_emplace_def ok(2) smap.lookup_put[OF sorted])
  next
    case (Some b)
    then show ?thesis using ok by (simp add: adm try_emplace_def)
  qed
next
  case (Some a)
  then show ?thesis using assms by (simp add: admit_known)
qed

lemma fold_defined:
  assumes "registry_ok reg" and "ranges_ok m"
  shows "\<exists>a report. aircraft_at (admit (ICAOAddress m) reg) (ICAOAddress m) = Some a \<and>
    build_report (update_record (setLastSeen (last_seen m) a) m) m = Some report \<and>
    registry_fold reg m =
      Some ((admit (ICAOAddress m) reg)\<lparr>known_aircraft :=
        map_put (ICAOAddress m) (update_record (setLastSeen (last_seen m) a) m)
          (known_aircraft (admit (ICAOAddress m) reg))\<rparr>, report) \<and>
    registry_ok ((admit (ICAOAddress m) reg)\<lparr>known_aircraft :=
        map_put (ICAOAddress m) (update_record (setLastSeen (last_seen m) a) m)
          (known_aircraft (admit (ICAOAddress m) reg))\<rparr>)"
proof -
  let ?k = "ICAOAddress m" and ?reg = "admit (ICAOAddress m) reg"
  obtain a where at: "aircraft_at ?reg ?k = Some a" and ok: "registry_ok ?reg"
    using admit_ok[OF assms(1)] by blast
  let ?a = "update_record (setLastSeen (last_seen m) a) m"
  have r: "record_ok ?a" "ICAOAddress ?a = ?k"
    using registry_ok_at[OF ok at] assms(2) by (simp_all add: record_ok_update record_ok_setters)
  obtain report where b: "build_report ?a m = Some report" using build_report_defined[OF r(1)] by blast
  have "registry_ok (?reg\<lparr>known_aircraft := map_put ?k ?a (known_aircraft ?reg)\<rparr>)"
    using at by (intro put_ok[OF ok _ r(2,1)]) simp
  then show ?thesis using at b by (auto simp: registry_fold_def Let_def)
qed

lemma fold_known:
  assumes "registry_ok reg" and "ranges_ok m" and "aircraft_at reg (ICAOAddress m) = Some a"
  shows "\<exists>report. registry_fold reg m =
    Some (reg\<lparr>known_aircraft := map_put (ICAOAddress m) (update_record (setLastSeen (last_seen m) a) m)
                                   (known_aircraft reg)\<rparr>, report)"
  using fold_defined[OF assms(1,2)] assms(3) by (auto simp: admit_known)

lemma fold_room:
  assumes "registry_ok reg" and "ranges_ok m" and "aircraft_at reg (ICAOAddress m) = None"
    and "length (known_aircraft reg) < reg_capacity reg"
  shows "\<exists>reg' report. registry_fold reg m = Some (reg', report) \<and> evictions reg' = evictions reg \<and>
    aircraft_at reg' = (aircraft_at reg)(ICAOAddress m \<mapsto>
      update_record (setLastSeen (last_seen m) (new_ADSBData (ICAOAddress m))) m)"
proof -
  let ?k = "ICAOAddress m"
  note sorted = registry_okD(1)[OF assms(1)]
  note adm = admit_room[OF assms(1,3,4)]
  have "aircraft_at (admit ?k reg) ?k = Some (new_ADSBData ?k)"
    by (simp add: adm smap.lookup_put[OF sorted])
  then show ?thesis
    using fold_defined[OF assms(1,2)]
    by (auto simp: adm smap.lookup_put[OF sorted] smap.lookup_put[OF smap.put_inv[OF sorted]] fun_eq_iff)
qed

lemma fold_full:
  assumes "registry_ok reg" and "ranges_ok m" and "aircraft_at reg (ICAOAddress m) = None"
    and "reg_capacity reg \<le> length (known_aircraft reg)"
  shows "\<exists>reg' report k a. registry_fold reg m = Some (reg', report) \<and>
    evictions reg' = evictions reg + 1 \<and> aircraft_at reg k = Some a \<and>
    (\<forall>k' b. aircraft_at reg k' = Some b \<longrightarrow>
       last_seen a < last_seen b \<or> (last_seen a = last_seen b \<and> k \<le> k')) \<and>
    aircraft_at reg' = (aircraft_at reg)(k := None, ICAOAddress m \<mapsto>
      update_record (setLastSeen (last_seen m) (new_ADSBData (ICAOAddress m))) m)"
proof -
  let ?k = "ICAOAddress m"
  note sorted = registry_okD(1)[OF assms(1)]
  have "known_aircraft reg \<noteq> []" using assms(4) registry_okD(2)[OF assms(1)] by auto
  then obtain k a where at: "aircraft_at reg k = Some a"
    and ev: "evict_least_recently_seen reg =
      reg\<lparr>known_aircraft := map_erase k (known_aircraft reg), evictions := evictions reg + 1\<rparr>"
    and lru: "\<And>k' b. aircraft_at reg k' = Some b \<Longrightarrow>
       last_seen a < last_seen b \<or> (last_seen a = last_seen b \<and> k \<le> k')"
    using evict_lru[OF assms(1)] by blast
  let ?m = "map_erase k (known_aircraft reg)"
  have er: "map_of ?m = (aircraft_at reg)(k := None)" "map_sorted ?m"
    using sorted by (simp_all add: smap.lookup_erase smap.erase_inv)
  then have none: "map_of ?m ?k = None" using assms(3) by simp
  have adm: "admit ?k reg =
      reg\<lparr>known_aircraft := map_put ?k (new_ADSBData ?k) ?m, evictions := evictions reg + 1\<rparr>"
    using assms(3,4) none by (simp add: admit_def ev try_emplace_def)
  have "aircraft_at (admit ?k reg) ?k = Some (new_ADSBData ?k)"
    by (simp add: adm smap.lookup_put[OF er(2)])
  then obtain reg' report where "registry_fold reg m = Some (reg', report)"
    and "evictions reg' = evictions reg + 1"
    and "aircraft_at reg' = (aircraft_at reg)(k := None, ?k \<mapsto>
      update_record (setLastSeen (last_seen m) (new_ADSBData ?k)) m)"
    using fold_defined[OF assms(1,2)]
    by (auto simp: adm smap.lookup_put[OF er(2)] smap.lookup_put[OF smap.put_inv[OF er(2)]] er(1) fun_eq_iff)
  then show ?thesis using at lru by blast
qed

subsection \<open>Eviction of stale aircraft\<close>

lemma evict_stale_loop_filter:
  "evict_stale_loop now w es =
     (filter (\<lambda>(k, a). \<not> isStale a now w) es,
      map (\<lambda>(k, a). ICAOAddress a) (filter (\<lambda>(k, a). isStale a now w) es))"
  by (induction now w es rule: evict_stale_loop.induct) auto

lemma map_of_filter_sorted:
  assumes "map_sorted m"
  shows "map_of (filter (\<lambda>(k, a). P a) m) k = (case map_of m k of None \<Rightarrow> None | Some a \<Rightarrow> if P a then Some a else None)"
proof (cases "\<exists>a. map_of m k = Some a \<and> P a")
  case True
  then obtain a where "map_of m k = Some a" "P a" by blast
  then show ?thesis
    using smap.entries_lookup[OF assms, of k a] smap.entries_lookup[OF map_sorted_filter[OF assms], of k a]
    by auto
next
  case False
  have "map_of (filter (\<lambda>(k, a). P a) m) k \<noteq> Some a" for a
    using False smap.entries_lookup[OF assms, of k a]
      smap.entries_lookup[OF map_sorted_filter[OF assms], of k a "\<lambda>(k, a). P a"] by auto
  then have "map_of (filter (\<lambda>(k, a). P a) m) k = None" by (cases "map_of (filter (\<lambda>(k, a). P a) m) k") auto
  then show ?thesis using False by (auto split: option.splits)
qed

lemma evict_stale_ok:
  assumes "registry_ok reg"
  shows "registry_ok (fst (evict_stale reg now w))"
    and "aircraft_at (fst (evict_stale reg now w)) k =
      (case aircraft_at reg k of None \<Rightarrow> None | Some a \<Rightarrow> if isStale a now w then None else Some a)"
    and "snd (evict_stale reg now w) = map fst (filter (\<lambda>(k, a). isStale a now w) (known_aircraft reg))"
proof -
  note sorted = registry_okD(1)[OF assms]
  have kept: "known_aircraft (fst (evict_stale reg now w)) = filter (\<lambda>(k, a). \<not> isStale a now w) (known_aircraft reg)"
    by (simp add: evict_stale_def evict_stale_loop_filter)
  show "aircraft_at (fst (evict_stale reg now w)) k =
      (case aircraft_at reg k of None \<Rightarrow> None | Some a \<Rightarrow> if isStale a now w then None else Some a)"
    by (simp add: kept map_of_filter_sorted[OF sorted] split: option.splits)
  have "length (filter P (known_aircraft reg)) \<le> reg_capacity reg" for P
    using registry_okD(3)[OF assms] length_filter_le[of P "known_aircraft reg"] by linarith
  moreover have "reg_capacity (fst (evict_stale reg now w)) = reg_capacity reg"
    by (simp add: evict_stale_def split_beta)
  ultimately show "registry_ok (fst (evict_stale reg now w))"
    using assms by (simp add: registry_ok_def kept map_sorted_filter)
  have "\<forall>(k, a)\<in>set (known_aircraft reg). ICAOAddress a = k" using assms by (auto simp: registry_ok_def)
  then show "snd (evict_stale reg now w) = map fst (filter (\<lambda>(k, a). isStale a now w) (known_aircraft reg))"
    by (auto simp: evict_stale_def evict_stale_loop_filter)
qed

subsection \<open>Reachable registries\<close>

text \<open>The two operations that change the state, in any order, from a fresh registry.\<close>

inductive registry_reachable :: "nat \<Rightarrow> aircraft_registry \<Rightarrow> bool" for cap :: nat where
  start: "new_registry cap = Some reg \<Longrightarrow> registry_reachable cap reg"
| folded: "registry_reachable cap reg \<Longrightarrow> ranges_ok m \<Longrightarrow> registry_fold reg m = Some (reg', report) \<Longrightarrow>
    registry_reachable cap reg'"
| swept: "registry_reachable cap reg \<Longrightarrow> registry_reachable cap (fst (evict_stale reg now window))"

lemma admit_capacity: "registry_ok reg \<Longrightarrow> reg_capacity (admit k reg) = reg_capacity reg"
  using admit_ok by blast

lemma fold_keeps_ok:
  assumes "registry_ok reg" and "ranges_ok m" and "registry_fold reg m = Some (reg', report)"
  shows "registry_ok reg'" and "reg_capacity reg' = reg_capacity reg"
  using fold_defined[OF assms(1,2)] assms(3) admit_capacity[OF assms(1)] by auto

lemma reachable_ok: "registry_reachable cap reg \<Longrightarrow> registry_ok reg \<and> reg_capacity reg = cap"
proof (induction rule: registry_reachable.induct)
  case (start reg)
  then show ?case using registry_ok_new by (auto simp: new_registry_def split: if_splits)
next
  case (folded reg m reg' report)
  then show ?case using fold_keeps_ok by metis
next
  case (swept reg now window)
  then show ?case by (simp add: evict_stale_ok) (simp add: evict_stale_def split_beta)
qed

text \<open>C24: the registry stays bounded and well formed: in every reachable state it holds at most its capacity of
  aircraft, each under its own address with every value in range, and folding any in-range message
  is defined, so no conversion in a report is ever out of range of its cast.\<close>

theorem registry_bounded_and_safe:
  assumes "registry_reachable cap reg"
  shows "registry_size reg \<le> cap \<and>
    (\<forall>(k, a)\<in>set (known_aircraft reg). ICAOAddress a = k \<and> record_ok a) \<and>
    (\<forall>m. ranges_ok m \<longrightarrow> registry_fold reg m \<noteq> None)"
proof -
  have ok: "registry_ok reg" "reg_capacity reg = cap" using reachable_ok[OF assms] by simp_all
  have "\<forall>m. ranges_ok m \<longrightarrow> registry_fold reg m \<noteq> None" using fold_defined[OF ok(1)] by fastforce
  then show ?thesis using ok by (auto simp: registry_ok_def registry_size_def)
qed

theorem registry_bounded_and_safe_witness:
  "\<exists>reg. registry_reachable 2 reg \<and> registry_size reg \<le> 2 \<and>
    registry_fold reg (setAltitude 1000 5 (new_ADSBData 7)) \<noteq> None"
proof -
  obtain reg where "new_registry 2 = Some reg" by (simp add: new_registry_def)
  then have r: "registry_reachable 2 reg" by (rule registry_reachable.start)
  then show ?thesis
    using registry_bounded_and_safe[OF r] ranges_ok_setters(2)[OF ranges_ok_new[of 7], of 1000 5] by blast
qed

text \<open>A message for a known aircraft never evicts anything, however full the registry is: it updates that
  aircraft's record in place, stamps its last-heard time, and leaves every other record and the
  eviction count alone.\<close>

lemma known_aircraft_never_evicts:
  assumes "registry_ok reg" and "ranges_ok m" and "aircraft_at reg (ICAOAddress m) = Some a"
  shows "\<exists>reg' report. registry_fold reg m = Some (reg', report) \<and> evictions reg' = evictions reg \<and>
    registry_size reg' = registry_size reg \<and>
    aircraft_at reg' = (aircraft_at reg)(ICAOAddress m \<mapsto> update_record (setLastSeen (last_seen m) a) m)"
  using fold_known[OF assms] assms(3)
    smap.lookup_put[OF registry_okD(1)[OF assms(1)]] smap.size_put_known[OF registry_okD(1)[OF assms(1)] assms(3)]
  by (auto simp: registry_size_def)

text \<open>C18: a new aircraft arriving at capacity evicts exactly one aircraft, one that was heard least recently (the
  lowest address among equals), and counts it; every other record is untouched and the new
  aircraft's record holds just its first message.\<close>

theorem new_aircraft_evicts_least_recent:
  assumes "registry_ok reg" and "ranges_ok m" and "aircraft_at reg (ICAOAddress m) = None"
    and "reg_capacity reg \<le> registry_size reg"
  shows "\<exists>reg' report k a. registry_fold reg m = Some (reg', report) \<and>
    evictions reg' = evictions reg + 1 \<and> aircraft_at reg k = Some a \<and>
    (\<forall>k' b. aircraft_at reg k' = Some b \<longrightarrow>
       last_seen a < last_seen b \<or> (last_seen a = last_seen b \<and> k \<le> k')) \<and>
    aircraft_at reg' = (aircraft_at reg)(k := None, ICAOAddress m \<mapsto>
      update_record (setLastSeen (last_seen m) (new_ADSBData (ICAOAddress m))) m)"
  by (rule fold_full[OF assms(1-3)]) (use assms(4) in \<open>simp add: registry_size_def\<close>)

theorem new_aircraft_evicts_least_recent_witness:
  "\<exists>reg' report. registry_fold \<lparr>known_aircraft = [(7, new_ADSBData 7)], reg_capacity = 1, evictions = 0\<rparr>
      (setLastSeen 9 (new_ADSBData 8)) = Some (reg', report) \<and> evictions reg' = 1 \<and> aircraft_at reg' 7 = None"
proof -
  let ?reg = "\<lparr>known_aircraft = [(7, new_ADSBData 7)], reg_capacity = 1, evictions = 0\<rparr>"
  have "registry_ok ?reg" using record_ok_new[of 7] by (simp add: registry_ok_def map_sorted_def new_ADSBData_def)
  moreover have "ranges_ok (setLastSeen 9 (new_ADSBData 8))" by (simp add: ranges_ok_setters ranges_ok_new)
  moreover have "ICAOAddress (setLastSeen 9 (new_ADSBData 8)) = 8" by (simp add: new_ADSBData_def)
  ultimately show ?thesis
    using new_aircraft_evicts_least_recent[of ?reg "setLastSeen 9 (new_ADSBData 8)"]
    by (auto simp: registry_size_def split: if_splits)
qed

text \<open>C25: a sweep removes exactly the aircraft not heard for the whole window, as integers without wrap-around,
  keeps every other record as it is, and returns each removed address once.\<close>

theorem evict_stale_exact:
  assumes "registry_ok reg"
  shows "registry_ok (fst (evict_stale reg now w)) \<and>
    (\<forall>k. aircraft_at (fst (evict_stale reg now w)) k =
      (case aircraft_at reg k of None \<Rightarrow> None
       | Some a \<Rightarrow> if uint (last_seen a) + uint w \<le> uint now then None else Some a)) \<and>
    distinct (snd (evict_stale reg now w)) \<and>
    set (snd (evict_stale reg now w)) =
      {k. \<exists>a. aircraft_at reg k = Some a \<and> uint (last_seen a) + uint w \<le> uint now}"
proof -
  have st: "isStale a now w \<longleftrightarrow> uint (last_seen a) + uint w \<le> uint now" for a
    unfolding isStale_uint using uint_ge_0[of w] by linarith
  note sorted = registry_okD(1)[OF assms]
  have "distinct (map fst (filter P (known_aircraft reg)))" for P
    using smap.distinct_keys[OF sorted] by (simp add: distinct_map_filter)
  moreover have "set (map fst (filter (\<lambda>(k, a). isStale a now w) (known_aircraft reg)))
      = {k. \<exists>a. aircraft_at reg k = Some a \<and> isStale a now w}"
    using smap.entries_lookup[OF sorted] by (force simp: image_iff)
  ultimately show ?thesis
    using evict_stale_ok[OF assms, of now w] unfolding st by simp
qed

theorem evict_stale_exact_witness:
  "set (snd (evict_stale \<lparr>known_aircraft = [(7, new_ADSBData 7), (8, setLastSeen 500 (new_ADSBData 8))],
      reg_capacity = 2, evictions = 0\<rparr> 600 600)) = {7}"
proof -
  let ?reg = "\<lparr>known_aircraft = [(7, new_ADSBData 7), (8, setLastSeen 500 (new_ADSBData 8))],
      reg_capacity = 2, evictions = 0\<rparr>"
  have "registry_ok ?reg" using record_ok_new[of 7] record_ok_setters(3)[OF record_ok_new[of 8]]
    by (simp add: registry_ok_def map_sorted_def) (simp add: new_ADSBData_def)
  note exact = evict_stale_exact[OF this, of 600 600, THEN conjunct2, THEN conjunct2, THEN conjunct2]
  have l: "last_seen (new_ADSBData 7) = 0" "last_seen (setLastSeen 500 (new_ADSBData 8)) = 500"
    by (simp_all add: new_ADSBData_def record_simps)
  show ?thesis unfolding exact by (auto simp: l split: if_splits)
qed

end
