(* ===== verification/Registry_History.thy ===== *)
theory Registry_History
  imports Registry
begin

text \<open>
  The registry of src/src/aircraft\_registry.cpp over a whole history of messages: while the distinct
  addresses heard fit its capacity, it is the map from each address to the record of that aircraft's
  own messages, so aircraft never mix.
\<close>

definition registry_run :: "aircraft_registry \<Rightarrow> ADSBData list \<Rightarrow> aircraft_registry option" where
  "registry_run reg ms =
     foldl (\<lambda>r m. Option.bind r (\<lambda>reg. map_option fst (registry_fold reg m))) (Some reg) ms"

lemma registry_run_snoc:
  "registry_run reg (ms @ [m]) = Option.bind (registry_run reg ms) (\<lambda>reg. map_option fst (registry_fold reg m))"
  by (simp add: registry_run_def)

definition own_messages :: "u32 \<Rightarrow> ADSBData list \<Rightarrow> ADSBData list" where
  "own_messages k ms = filter (\<lambda>m. ICAOAddress m = k) ms"

definition track_of :: "u32 \<Rightarrow> ADSBData list \<Rightarrow> ADSBData option" where
  \<comment> \<open>what an address should have after a history: its own messages folded, and the last time it was heard\<close>
  "track_of k ms =
     (if own_messages k ms = [] then None
      else Some (setLastSeen (last_seen (last (own_messages k ms))) (history k (own_messages k ms))))"

lemma own_messages_snoc:
  "own_messages k (ms @ [m]) = own_messages k ms @ (if ICAOAddress m = k then [m] else [])"
  by (simp add: own_messages_def)

lemma update_setLastSeen: "update_record (setLastSeen t r) m = setLastSeen t (update_record r m)"
  by (simp add: update_record_def update_callsign_def Let_def record_simps)

lemma setLastSeen_twice: "setLastSeen t (setLastSeen u r) = setLastSeen t r"
  by (simp add: record_simps)

lemma track_of_None: "track_of k ms = None \<longleftrightarrow> k \<notin> ICAOAddress ` set ms"
  by (auto simp: track_of_def own_messages_def filter_empty_conv)

lemma dom_track: "dom (\<lambda>k. track_of k ms) = ICAOAddress ` set ms"
  using track_of_None[of _ ms] by (auto simp: dom_def)

lemma track_of_snoc:
  "track_of k (ms @ [m]) =
     (if ICAOAddress m = k
      then Some (update_record (setLastSeen (last_seen m)
             (case track_of k ms of None \<Rightarrow> new_ADSBData k | Some a \<Rightarrow> a)) m)
      else track_of k ms)"
  by (auto simp: track_of_def own_messages_snoc history_snoc update_setLastSeen setLastSeen_twice)
    (simp add: history_def)

lemma registry_run_tracks:
  assumes "new_registry cap = Some reg" and "\<forall>m\<in>set ms. ranges_ok m"
    and "card (ICAOAddress ` set ms) \<le> cap"
  shows "\<exists>reg'. registry_run reg ms = Some reg' \<and> registry_ok reg' \<and> reg_capacity reg' = cap \<and>
    evictions reg' = 0 \<and> aircraft_at reg' = (\<lambda>k. track_of k ms)"
  using assms(2,3)
proof (induction ms rule: rev_induct)
  case Nil
  then show ?case using assms(1) registry_ok_new[OF assms(1)]
    by (auto simp: registry_run_def new_registry_def track_of_def own_messages_def split: if_splits)
next
  case (snoc m ms)
  let ?k = "ICAOAddress m"
  have "card (ICAOAddress ` set ms) \<le> card (ICAOAddress ` set (ms @ [m]))" by (intro card_mono) auto
  with snoc obtain r where run: "registry_run reg ms = Some r" and ok: "registry_ok r" "reg_capacity r = cap"
    and ev: "evictions r = 0" and at: "aircraft_at r = (\<lambda>k. track_of k ms)" by auto
  have m: "ranges_ok m" using snoc(2) by simp
  have "\<exists>r' report. registry_fold r m = Some (r', report) \<and> evictions r' = 0 \<and>
      aircraft_at r' = (\<lambda>k. track_of k (ms @ [m]))"
  proof (cases "track_of ?k ms")
    case None
    then have new: "?k \<notin> ICAOAddress ` set ms" by (simp add: track_of_None)
    then have "card (ICAOAddress ` set (ms @ [m])) = Suc (card (ICAOAddress ` set ms))" by simp
    moreover have "length (known_aircraft r) = card (ICAOAddress ` set ms)"
      using smap.size_card[OF registry_okD(1)[OF ok(1)]] by (simp add: at dom_track)
    ultimately have "length (known_aircraft r) < reg_capacity r" using snoc(3) ok(2) by simp
    then show ?thesis using fold_room[OF ok(1) m] None ev
      by (fastforce simp: at track_of_snoc fun_eq_iff)
  next
    case (Some a)
    then show ?thesis using fold_known[OF ok(1) m, of a] ev smap.lookup_put[OF registry_okD(1)[OF ok(1)]]
      by (fastforce simp: at track_of_snoc fun_eq_iff)
  qed
  then obtain r' report where f: "registry_fold r m = Some (r', report)" "evictions r' = 0"
    "aircraft_at r' = (\<lambda>k. track_of k (ms @ [m]))" by blast
  then show ?case using fold_keeps_ok[OF ok(1) m f(1)] ok(2) by (simp add: registry_run_snoc run)
qed

text \<open>C6: aircraft never mix: from a fresh registry, after any history of in-range messages whose distinct
  addresses fit the capacity, nothing was evicted and each address holds exactly the fold of its
  own messages, stamped with the time of its last one.\<close>

theorem registry_tracks_each_aircraft:
  assumes "new_registry cap = Some reg" and "\<forall>m\<in>set ms. ranges_ok m"
    and "card (ICAOAddress ` set ms) \<le> cap"
  shows "\<exists>reg'. registry_run reg ms = Some reg' \<and> evictions reg' = 0 \<and>
    (\<forall>k. aircraft_at reg' k = track_of k ms)"
  using registry_run_tracks[OF assms] by auto

theorem registry_tracks_each_aircraft_witness:
  "\<exists>reg reg'. new_registry 2 = Some reg \<and>
    registry_run reg [setAltitude 1000 5 (new_ADSBData 7), setAltitude 2000 6 (new_ADSBData 8)] = Some reg' \<and>
    aircraft_at reg' 9 = None \<and> map_option altitude (aircraft_at reg' 7) = Some 1000"
proof -
  let ?ms = "[setAltitude 1000 5 (new_ADSBData 7), setAltitude 2000 6 (new_ADSBData 8)]"
  obtain reg where new: "new_registry 2 = Some reg" by (simp add: new_registry_def)
  have addr: "ICAOAddress (setAltitude 1000 5 (new_ADSBData 7)) = 7"
    "ICAOAddress (setAltitude 2000 6 (new_ADSBData 8)) = 8" by (simp_all add: new_ADSBData_def)
  have "\<forall>m\<in>set ?ms. ranges_ok m" by (simp add: ranges_ok_setters ranges_ok_new)
  moreover have "card (ICAOAddress ` set ?ms) \<le> 2" using addr by (simp add: card_insert_if)
  moreover have "track_of 9 ?ms = None" "map_option altitude (track_of 7 ?ms) = Some 1000"
    using addr by (simp_all add: track_of_def own_messages_def history_def update_record_fields record_simps)
  ultimately show ?thesis using registry_tracks_each_aircraft[OF new, of ?ms] new by auto
qed

end
