(* ===== verification/Monotonic_Time.thy ===== *)
theory Monotonic_Time
  imports Adsb_Prelude
begin

text \<open>
  src/src/monotonic\_time.hpp: the milliseconds of a CLOCK\_MONOTONIC reading. The reading itself is
  an argument.
\<close>

definition monotonic_ms :: "u64 \<Rightarrow> u64 \<Rightarrow> u64" where
  "monotonic_ms tv_sec tv_nsec = tv_sec * 1000 + tv_nsec div 1000000"

text \<open>For half a million years of uptime nothing wraps, and later readings are not smaller.\<close>

lemma monotonic_ms_value:
  assumes "uint s < 2 ^ 53" and "uint n < 10 ^ 9"
  shows "uint (monotonic_ms s n) = uint s * 1000 + uint n div 1000000"
proof -
  have m: "uint (s * 1000) = uint s * 1000"
    using assms(1) uint_mult_lem[of s 1000] by simp
  have d: "uint (n div 1000000) = uint n div 1000000" by (simp add: uint_div)
  have "uint n div 1000000 \<le> uint n div 1" using uint_ge_0[of n] by (intro zdiv_mono2) auto
  then have "uint (s * 1000) + uint (n div 1000000) < 2 ^ 64" using assms by (simp add: m d)
  then show ?thesis unfolding monotonic_ms_def
    using m d uint_add_lem[of "s * 1000" "n div 1000000"] by simp
qed

lemma monotonic_ms_mono:
  assumes "uint s < 2 ^ 53" "uint n < 10 ^ 9" "uint s' < 2 ^ 53" "uint n' < 10 ^ 9"
    and "uint s < uint s' \<or> uint s = uint s' \<and> uint n \<le> uint n'"
  shows "monotonic_ms s n \<le> monotonic_ms s' n'"
proof -
  have "uint n div 1000000 \<le> 999" "0 \<le> uint n' div 1000000"
    using assms(2) uint_ge_0[of n'] by (simp_all add: pos_imp_zdiv_nonneg_iff)
  moreover have "uint n \<le> uint n' \<Longrightarrow> uint n div 1000000 \<le> uint n' div 1000000" by (intro zdiv_mono1) auto
  ultimately show ?thesis
    unfolding word_le_def monotonic_ms_value[OF assms(1,2)] monotonic_ms_value[OF assms(3,4)]
    using assms(5) by linarith
qed

end
