(* ===== verification/Report_Queue.thy ===== *)
theory Report_Queue
  imports Adsb_Record Std_Map
begin

text \<open>
  The coalescing queue between the receive thread and the reporting worker:
  src/src/report\_queue.hpp and report\_queue.cpp. Every operation runs under the queue's mutex, so it
  is one transition; pop may also block, and dereferences an iterator that the source does not check,
  both visible in its outcome. The queue's contract is a locale over first-in first-out lists with
  one entry per key, which the source's map and deque are shown to implement.
\<close>

subsection \<open>State and operations\<close>

record pending_report =
  prep_report :: position_report
  prep_received :: u64

record report_queue =
  rq_items :: "(u32 \<times> pending_report) list"
  rq_order :: "u32 list"
  rq_capacity :: nat
  rq_stopped :: bool

datatype ('q, 'i) pop_outcome =
    Pop_blocks \<comment> \<open>the condition variable's predicate is false\<close>
  | Pop_undefined \<comment> \<open>an end iterator would be dereferenced\<close>
  | Pop_returns 'q "'i option"

definition new_queue :: "nat \<Rightarrow> report_queue option" where
  \<comment> \<open>the constructor asserts a capacity of at least 1\<close>
  "new_queue cap =
     (if 1 \<le> cap then Some \<lparr>rq_items = [], rq_order = [], rq_capacity = cap, rq_stopped = False\<rparr> else None)"

definition drop_oldest :: "report_queue \<Rightarrow> report_queue" where
  "drop_oldest q =
     (if rq_capacity q \<le> length (rq_items q) \<and> rq_order q \<noteq> [] then
        (let oldest = hd (rq_order q)
         in q\<lparr>rq_order := tl (rq_order q), rq_items := map_erase oldest (rq_items q)\<rparr>)
      else q)"

definition rq_push :: "u32 \<Rightarrow> pending_report \<Rightarrow> report_queue \<Rightarrow> report_queue" where
  "rq_push icao_address item q =
     (case map_of (rq_items q) icao_address of
        Some _ \<Rightarrow> q\<lparr>rq_items := map_put icao_address item (rq_items q)\<rparr>
      | None \<Rightarrow>
          (let q = drop_oldest q
           in q\<lparr>rq_items := try_emplace icao_address item (rq_items q),
                rq_order := rq_order q @ [icao_address]\<rparr>))"

definition rq_pop :: "report_queue \<Rightarrow> (report_queue, pending_report) pop_outcome" where
  "rq_pop q =
     (if \<not> (rq_stopped q \<or> rq_order q \<noteq> []) then Pop_blocks
      else (case rq_order q of
              [] \<Rightarrow> Pop_returns q None
            | icao_address # rest \<Rightarrow>
                (let q = q\<lparr>rq_order := rest\<rparr>
                 in (case map_of (rq_items q) icao_address of
                       None \<Rightarrow> Pop_undefined
                     | Some item \<Rightarrow>
                         Pop_returns (q\<lparr>rq_items := map_erase icao_address (rq_items q)\<rparr>) (Some item)))))"

definition rq_shutdown :: "report_queue \<Rightarrow> report_queue" where
  "rq_shutdown q = q\<lparr>rq_stopped := True\<rparr>"

definition rq_clear :: "report_queue \<Rightarrow> report_queue" where
  "rq_clear q = q\<lparr>rq_items := [], rq_order := []\<rparr>"

definition rq_size :: "report_queue \<Rightarrow> nat" where
  "rq_size q = length (rq_items q)"

subsection \<open>The contract\<close>

definition fifo_update :: "'k \<Rightarrow> 'i \<Rightarrow> ('k \<times> 'i) list \<Rightarrow> ('k \<times> 'i) list" where
  "fifo_update k v xs = map (\<lambda>(k', w). (k', if k' = k then v else w)) xs"

definition fifo_push :: "nat \<Rightarrow> 'k \<Rightarrow> 'i \<Rightarrow> ('k \<times> 'i) list \<Rightarrow> ('k \<times> 'i) list" where
  \<comment> \<open>replace in place, or append after dropping the oldest where there is no room\<close>
  "fifo_push cap k v xs =
     (if k \<in> fst ` set xs then fifo_update k v xs
      else (if cap \<le> length xs then tl xs else xs) @ [(k, v)])"

locale coalescing_queue =
  fixes push :: "'k \<Rightarrow> 'i \<Rightarrow> 'q \<Rightarrow> 'q"
    and pop :: "'q \<Rightarrow> ('q, 'i) pop_outcome"
    and shutdown :: "'q \<Rightarrow> 'q"
    and clear :: "'q \<Rightarrow> 'q"
    and contents :: "'q \<Rightarrow> ('k \<times> 'i) list"
    and stopped :: "'q \<Rightarrow> bool"
    and limit :: "'q \<Rightarrow> nat"
    and inv :: "'q \<Rightarrow> bool"
  assumes push_law: "inv q \<Longrightarrow> inv (push k v q) \<and> contents (push k v q) = fifo_push (limit q) k v (contents q) \<and>
      stopped (push k v q) = stopped q \<and> limit (push k v q) = limit q"
    and pop_law: "inv q \<Longrightarrow> contents q = (k, v) # xs \<Longrightarrow>
      \<exists>q'. pop q = Pop_returns q' (Some v) \<and> inv q' \<and> contents q' = xs \<and> stopped q' = stopped q \<and> limit q' = limit q"
    and pop_empty: "inv q \<Longrightarrow> contents q = [] \<Longrightarrow>
      pop q = (if stopped q then Pop_returns q None else Pop_blocks)"
    and shutdown_law: "inv q \<Longrightarrow> inv (shutdown q) \<and> contents (shutdown q) = contents q \<and> stopped (shutdown q) \<and>
      limit (shutdown q) = limit q"
    and clear_law: "inv q \<Longrightarrow> inv (clear q) \<and> contents (clear q) = [] \<and> stopped (clear q) = stopped q \<and>
      limit (clear q) = limit q"
    and limit_pos: "inv q \<Longrightarrow> 1 \<le> limit q"
    and keys_distinct: "inv q \<Longrightarrow> distinct (map fst (contents q))"
    and within_limit: "inv q \<Longrightarrow> length (contents q) \<le> limit q"
begin

lemma pop_cases:
  assumes "inv q"
  shows "(contents q = [] \<and> pop q = (if stopped q then Pop_returns q None else Pop_blocks)) \<or>
    (\<exists>k v xs q'. contents q = (k, v) # xs \<and> pop q = Pop_returns q' (Some v))"
proof (cases "contents q")
  case Nil
  then show ?thesis using pop_empty[OF assms] by simp
next
  case (Cons e xs)
  obtain k v where "e = (k, v)" by (cases e)
  then show ?thesis using pop_law[OF assms, of k v xs] Cons by auto
qed

lemma pop_defined: "inv q \<Longrightarrow> pop q \<noteq> Pop_undefined"
  using pop_cases[of q] by (auto split: if_splits)

lemma pop_blocks_iff: "inv q \<Longrightarrow> pop q = Pop_blocks \<longleftrightarrow> contents q = [] \<and> \<not> stopped q"
  using pop_cases[of q] by (auto split: if_splits)

lemma pop_ends_iff: "inv q \<Longrightarrow> pop q = Pop_returns q' None \<longleftrightarrow> contents q = [] \<and> stopped q \<and> q' = q"
  using pop_cases[of q] by (auto split: if_splits)

lemma pop_item:
  assumes "inv q" and "pop q = Pop_returns q' (Some v)"
  shows "inv q' \<and> (\<exists>k. contents q = (k, v) # contents q') \<and> stopped q' = stopped q \<and> limit q' = limit q"
proof (cases "contents q")
  case Nil
  then show ?thesis using pop_empty[OF assms(1)] assms(2) by (simp split: if_splits)
next
  case (Cons e xs)
  then show ?thesis using pop_law[OF assms(1), of "fst e" "snd e" xs] assms(2) by (cases e) auto
qed

fun drain :: "nat \<Rightarrow> 'q \<Rightarrow> 'i list \<times> 'q" where
  \<comment> \<open>pop repeatedly, at most n times, until it ends or blocks\<close>
  "drain 0 q = ([], q)"
| "drain (Suc n) q =
     (case pop q of Pop_returns q' (Some v) \<Rightarrow> (case drain n q' of (vs, r) \<Rightarrow> (v # vs, r)) | _ \<Rightarrow> ([], q))"

lemma drain_in_order:
  "inv q \<Longrightarrow> length (contents q) \<le> n \<Longrightarrow>
     \<exists>r. drain n q = (map snd (contents q), r) \<and> inv r \<and> contents r = [] \<and> stopped r = stopped q"
proof (induction n arbitrary: q)
  case (Suc n)
  show ?case
  proof (cases "contents q")
    case Nil
    then show ?thesis using Suc(2) pop_empty[OF Suc(2) Nil] by auto
  next
    case (Cons e xs)
    obtain k v where e: "e = (k, v)" by (cases e)
    obtain q' where q': "pop q = Pop_returns q' (Some v)" "inv q'" "contents q' = xs" "stopped q' = stopped q"
      using pop_law[OF Suc(2), of k v xs] Cons e by auto
    have "length (contents q') \<le> n" using Suc(3) Cons q'(3) by simp
    then show ?thesis using Suc(1)[OF q'(2)] q' Cons e by auto
  qed
qed simp

end

lemma fifo_update_keys [simp]: "map fst (fifo_update k v xs) = map fst xs"
  by (induction xs) (auto simp: fifo_update_def)

lemma fifo_update_length [simp]: "length (fifo_update k v xs) = length xs"
  by (simp add: fifo_update_def)

subsection \<open>The source's queue meets the contract\<close>

definition rq_contents :: "report_queue \<Rightarrow> (u32 \<times> pending_report) list" where
  "rq_contents q = map (\<lambda>k. (k, the (map_of (rq_items q) k))) (rq_order q)"

definition rq_ok :: "report_queue \<Rightarrow> bool" where
  \<comment> \<open>the deque lists each key of the map exactly once\<close>
  "rq_ok q \<longleftrightarrow> map_sorted (rq_items q) \<and> distinct (rq_order q) \<and> set (rq_order q) = fst ` set (rq_items q) \<and>
     1 \<le> rq_capacity q \<and> length (rq_items q) \<le> rq_capacity q"

lemma rq_order_dom: "rq_ok q \<Longrightarrow> set (rq_order q) = dom (map_of (rq_items q))"
  by (simp add: rq_ok_def dom_map_of_conv_image_fst)

lemma rq_lookup: "rq_ok q \<Longrightarrow> map_of (rq_items q) k = None \<longleftrightarrow> k \<notin> set (rq_order q)"
  by (auto simp: rq_order_dom)

lemma rq_length: "rq_ok q \<Longrightarrow> length (rq_order q) = length (rq_items q)"
  using smap.size_card[of "rq_items q"] distinct_card[of "rq_order q"]
  by (simp add: rq_ok_def dom_map_of_conv_image_fst)

lemma rq_contents_Cons:
  assumes "rq_ok q" and "rq_order q = k # rest"
  defines "q' \<equiv> q\<lparr>rq_order := rest, rq_items := map_erase k (rq_items q)\<rparr>"
  shows "rq_ok q' \<and> Suc (length (rq_items q')) = length (rq_items q) \<and>
    (\<exists>v. map_of (rq_items q) k = Some v \<and> rq_contents q = (k, v) # rq_contents q')"
proof -
  have sorted: "map_sorted (rq_items q)" and d: "k \<notin> set rest" "distinct rest"
    using assms(1,2) by (simp_all add: rq_ok_def)
  have "k \<in> set (rq_order q)" using assms(2) by simp
  then obtain v where v: "map_of (rq_items q) k = Some v" using rq_lookup[OF assms(1), of k] by auto
  have len: "Suc (length (rq_items q')) = length (rq_items q)"
    using smap.size_erase[OF sorted v] by (simp add: q'_def)
  have "set rest = fst ` set (rq_items q) - {k}" using assms(1,2) d(1) by (auto simp: rq_ok_def)
  then have "rq_ok q'" using assms(1) d(2) len
    by (simp add: q'_def rq_ok_def smap.erase_inv map_erase_keys)
  moreover have "rq_contents q = (k, v) # rq_contents q'"
    using d(1) v by (auto simp: rq_contents_def q'_def assms(2) smap.lookup_erase[OF sorted])
  ultimately show ?thesis using len v by blast
qed

lemma rq_contents_length: "rq_ok q \<Longrightarrow> length (rq_contents q) = length (rq_items q)"
  by (simp add: rq_contents_def rq_length)

lemma rq_contents_keys: "map fst (rq_contents q) = rq_order q"
  by (simp add: rq_contents_def o_def)

lemma rq_contents_set: "k \<in> fst ` set (rq_contents q) \<longleftrightarrow> k \<in> set (rq_order q)"
  by (simp flip: rq_contents_keys)

lemma drop_oldest_spec:
  assumes "rq_ok q"
  shows "rq_ok (drop_oldest q) \<and> length (rq_items (drop_oldest q)) < rq_capacity q \<and>
    rq_contents (drop_oldest q) =
      (if rq_capacity q \<le> length (rq_contents q) then tl (rq_contents q) else rq_contents q) \<and>
    set (rq_order (drop_oldest q)) \<subseteq> set (rq_order q) \<and>
    rq_capacity (drop_oldest q) = rq_capacity q \<and> rq_stopped (drop_oldest q) = rq_stopped q"
proof (cases "rq_capacity q \<le> length (rq_items q)")
  case True
  then have "rq_order q \<noteq> []" using assms rq_length[OF assms] by (auto simp: rq_ok_def)
  then obtain k rest where o: "rq_order q = k # rest" by (cases "rq_order q") auto
  then have "drop_oldest q = q\<lparr>rq_order := rest, rq_items := map_erase k (rq_items q)\<rparr>"
    using True by (simp add: drop_oldest_def)
  then show ?thesis using rq_contents_Cons[OF assms o] True rq_contents_length[OF assms] assms o
    by (auto simp: rq_ok_def)
next
  case False
  then show ?thesis using assms rq_contents_length[OF assms] by (simp add: drop_oldest_def)
qed

lemma rq_push_spec:
  assumes ok: "rq_ok q"
  shows "rq_ok (rq_push k v q) \<and> rq_contents (rq_push k v q) = fifo_push (rq_capacity q) k v (rq_contents q) \<and>
    rq_stopped (rq_push k v q) = rq_stopped q \<and> rq_capacity (rq_push k v q) = rq_capacity q"
proof (cases "k \<in> set (rq_order q)")
  case True
  then obtain w where w: "map_of (rq_items q) k = Some w" using rq_lookup[OF ok, of k] by auto
  have sorted: "map_sorted (rq_items q)" using ok by (simp add: rq_ok_def)
  have push: "rq_push k v q = q\<lparr>rq_items := map_put k v (rq_items q)\<rparr>" by (simp add: rq_push_def w)
  have "rq_contents (rq_push k v q) = fifo_update k v (rq_contents q)"
    by (auto simp: push rq_contents_def fifo_update_def smap.lookup_put[OF sorted])
  moreover have "rq_ok (rq_push k v q)"
    using ok True smap.size_put_known[OF sorted w] map_put_keys[of k v "rq_items q"] smap.put_inv[OF sorted]
    by (auto simp: push rq_ok_def)
  ultimately show ?thesis using True by (simp add: push fifo_push_def rq_contents_set)
next
  case False
  let ?q = "drop_oldest q"
  note d = drop_oldest_spec[OF ok]
  have sorted: "map_sorted (rq_items ?q)" using d by (simp add: rq_ok_def)
  have new: "k \<notin> set (rq_order ?q)" using d False by blast
  then have none: "map_of (rq_items ?q) k = None" "map_of (rq_items q) k = None"
    using rq_lookup[of ?q k] rq_lookup[OF ok, of k] d False by simp_all
  have push: "rq_push k v q = ?q\<lparr>rq_items := map_put k v (rq_items ?q), rq_order := rq_order ?q @ [k]\<rparr>"
    by (simp add: rq_push_def none try_emplace_def Let_def)
  have "rq_contents (rq_push k v q) = rq_contents ?q @ [(k, v)]"
    using new by (auto simp: push rq_contents_def smap.lookup_put[OF sorted])
  moreover have "rq_ok (rq_push k v q)"
    using d new smap.size_put_new[OF sorted none(1)] map_put_keys[of k v "rq_items ?q"] smap.put_inv[OF sorted]
    by (auto simp: push rq_ok_def)
  ultimately show ?thesis using False d by (simp add: push fifo_push_def rq_contents_set)
qed

lemma rq_pop_Cons:
  assumes ok: "rq_ok q" and "rq_contents q = (k, v) # xs"
  shows "\<exists>q'. rq_pop q = Pop_returns q' (Some v) \<and> rq_ok q' \<and> rq_contents q' = xs \<and>
    rq_stopped q' = rq_stopped q \<and> rq_capacity q' = rq_capacity q"
proof -
  obtain rest where o: "rq_order q = k # rest" using assms(2) rq_contents_keys[of q] by (cases "rq_order q") auto
  show ?thesis using rq_contents_Cons[OF ok o] assms(2) o by (auto simp: rq_pop_def Let_def)
qed

interpretation rq: coalescing_queue rq_push rq_pop rq_shutdown rq_clear rq_contents rq_stopped rq_capacity rq_ok
proof
  fix q k v xs
  assume ok: "rq_ok q"
  show "rq_ok (rq_push k v q) \<and> rq_contents (rq_push k v q) = fifo_push (rq_capacity q) k v (rq_contents q) \<and>
      rq_stopped (rq_push k v q) = rq_stopped q \<and> rq_capacity (rq_push k v q) = rq_capacity q"
    using ok by (rule rq_push_spec)
  show "\<exists>q'. rq_pop q = Pop_returns q' (Some v) \<and> rq_ok q' \<and> rq_contents q' = xs \<and>
      rq_stopped q' = rq_stopped q \<and> rq_capacity q' = rq_capacity q" if "rq_contents q = (k, v) # xs"
    using rq_pop_Cons[OF ok that] .
  show "rq_pop q = (if rq_stopped q then Pop_returns q None else Pop_blocks)" if "rq_contents q = []"
    using that by (simp add: rq_contents_def rq_pop_def)
  show "rq_ok (rq_shutdown q) \<and> rq_contents (rq_shutdown q) = rq_contents q \<and> rq_stopped (rq_shutdown q) \<and>
      rq_capacity (rq_shutdown q) = rq_capacity q"
    using ok by (simp add: rq_shutdown_def rq_contents_def rq_ok_def)
  show "rq_ok (rq_clear q) \<and> rq_contents (rq_clear q) = [] \<and> rq_stopped (rq_clear q) = rq_stopped q \<and>
      rq_capacity (rq_clear q) = rq_capacity q"
    using ok by (simp add: rq_clear_def rq_contents_def rq_ok_def)
  show "1 \<le> rq_capacity q" "distinct (map fst (rq_contents q))" "length (rq_contents q) \<le> rq_capacity q"
    using ok by (simp_all add: rq_contents_keys rq_contents_length) (simp_all add: rq_ok_def)
qed

subsection \<open>Coalescing\<close>

definition first_seen :: "'k list \<Rightarrow> 'k list" where
  "first_seen ks = rev (remdups (rev ks))"

lemma first_seen_snoc: "first_seen (ks @ [k]) = (if k \<in> set ks then first_seen ks else first_seen ks @ [k])"
  by (simp add: first_seen_def)

lemma first_seen_set: "set (first_seen ks) = set ks" and first_seen_length: "length (first_seen ks) = card (set ks)"
  by (simp_all add: first_seen_def length_remdups_card_conv)

context coalescing_queue
begin

lemma pushes_coalesce:
  assumes "inv q" and "contents q = []" and "card (fst ` set ps) \<le> limit q"
  defines "q' \<equiv> foldl (\<lambda>q (k, v). push k v q) q ps"
  shows "inv q' \<and> limit q' = limit q \<and> stopped q' = stopped q \<and>
    contents q' = map (\<lambda>k. (k, the (map_of (rev ps) k))) (first_seen (map fst ps))"
  using assms(3) unfolding q'_def
proof (induction ps rule: rev_induct)
  case Nil
  then show ?case using assms(1,2) by (simp add: first_seen_def)
next
  case (snoc e ps)
  obtain k v where e: "e = (k, v)" by (cases e)
  let ?q = "foldl (\<lambda>q (k, v). push k v q) q ps"
  have "card (fst ` set ps) \<le> card (fst ` set (ps @ [e]))" by (intro card_mono) auto
  with snoc have ih: "inv ?q" "limit ?q = limit q" "stopped ?q = stopped q"
    "contents ?q = map (\<lambda>k. (k, the (map_of (rev ps) k))) (first_seen (map fst ps))" by simp_all
  have keys: "fst ` set (contents ?q) = fst ` set ps"
    by (simp add: ih(4) image_image first_seen_set)
  have "fifo_push (limit q) k v (contents ?q) =
      map (\<lambda>k. (k, the (map_of (rev (ps @ [e])) k))) (first_seen (map fst (ps @ [e])))"
  proof (cases "k \<in> fst ` set ps")
    case True
    then show ?thesis
      unfolding fifo_push_def keys by (simp add: e first_seen_snoc ih(4) fifo_update_def)
  next
    case False
    then have "length (contents ?q) < limit q" using snoc(2) by (simp add: e ih(4) first_seen_length)
    moreover have "\<forall>k'\<in>set (first_seen (map fst ps)). k' \<noteq> k" using False by (auto simp: first_seen_set)
    ultimately show ?thesis
      using False unfolding fifo_push_def keys by (auto simp: e first_seen_snoc ih(4))
  qed
  then show ?case using push_law[OF ih(1), of k v] ih(2,3) by (simp add: e)
qed

end

subsection \<open>Properties\<close>

inductive queue_reachable :: "nat \<Rightarrow> report_queue \<Rightarrow> bool" for cap :: nat where
  start: "new_queue cap = Some q \<Longrightarrow> queue_reachable cap q"
| push: "queue_reachable cap q \<Longrightarrow> queue_reachable cap (rq_push k v q)"
| pop: "queue_reachable cap q \<Longrightarrow> rq_pop q = Pop_returns q' item \<Longrightarrow> queue_reachable cap q'"
| shutdown: "queue_reachable cap q \<Longrightarrow> queue_reachable cap (rq_shutdown q)"
| clear: "queue_reachable cap q \<Longrightarrow> queue_reachable cap (rq_clear q)"

lemma new_queue_ok: "new_queue cap = Some q \<Longrightarrow> rq_ok q \<and> rq_contents q = [] \<and> rq_capacity q = cap \<and> \<not> rq_stopped q"
  by (auto simp: new_queue_def rq_ok_def rq_contents_def split: if_splits)

lemma queue_reachable_ok: "queue_reachable cap q \<Longrightarrow> rq_ok q \<and> rq_capacity q = cap"
proof (induction rule: queue_reachable.induct)
  case (pop q q' item)
  then show ?case using rq.pop_item[of q q'] rq.pop_ends_iff[of q q'] by (cases item) auto
qed (auto simp: new_queue_ok rq.push_law rq.shutdown_law rq.clear_law)

text \<open>Under any sequence of operations the queue holds at most its capacity of reports, at most one per
  address, the deque lists exactly the addresses in the map, and pop never dereferences a missing
  entry.\<close>

lemma queue_bounded_and_safe:
  assumes "queue_reachable cap q"
  shows "rq_size q \<le> cap \<and> distinct (rq_order q) \<and> set (rq_order q) = dom (map_of (rq_items q)) \<and>
    rq_pop q \<noteq> Pop_undefined"
proof -
  have ok: "rq_ok q" "rq_capacity q = cap" using queue_reachable_ok[OF assms] by simp_all
  show ?thesis using ok rq_order_dom[OF ok(1)] rq.pop_defined[OF ok(1)] by (simp add: rq_size_def rq_ok_def)
qed

text \<open>A push replaces the report of a waiting aircraft in place, keeping its turn; otherwise it goes to the
  back, after the report that has waited longest is dropped if the queue is full.\<close>

lemma push_coalesces_or_appends:
  assumes "rq_ok q"
  shows "rq_contents (rq_push k v q) =
    (if k \<in> fst ` set (rq_contents q) then map (\<lambda>(k', w). (k', if k' = k then v else w)) (rq_contents q)
     else (if rq_capacity q \<le> length (rq_contents q) then tl (rq_contents q) else rq_contents q) @ [(k, v)])"
  using rq.push_law[OF assms, of k v] by (simp add: fifo_push_def fifo_update_def)

text \<open>C17: while the distinct addresses fit the capacity, any sequence of pushes leaves one report per address, its
  newest one, in the order in which the addresses first appeared.\<close>

theorem pushes_keep_newest_in_first_seen_order:
  assumes "new_queue cap = Some q" and "card (fst ` set ps) \<le> cap"
  shows "rq_contents (foldl (\<lambda>q (k, v). rq_push k v q) q ps) =
    map (\<lambda>k. (k, the (map_of (rev ps) k))) (first_seen (map fst ps))"
  using rq.pushes_coalesce[of q ps] new_queue_ok[OF assms(1)] assms(2) by simp

text \<open>Pop takes the oldest waiting report, blocks exactly when the queue is empty and running, and returns
  nothing exactly when it is empty and shut down.\<close>

lemma pop_takes_oldest:
  assumes "rq_ok q"
  shows "case rq_contents q of
      [] \<Rightarrow> rq_pop q = (if rq_stopped q then Pop_returns q None else Pop_blocks)
    | (k, v) # xs \<Rightarrow> \<exists>q'. rq_pop q = Pop_returns q' (Some v) \<and> rq_contents q' = xs \<and> rq_ok q' \<and>
        rq_stopped q' = rq_stopped q"
  using rq.pop_law[OF assms] rq.pop_empty[OF assms] by (fastforce split: list.splits)

subsection \<open>Witnesses\<close>

definition sample_report :: "u32 \<Rightarrow> u64 \<Rightarrow> pending_report" where
  "sample_report k t =
     \<lparr>prep_report = \<lparr>pr_position = Point_default, pr_altitude = 0, pr_heading = 0, pr_hor_vel = 0, pr_ver_vel = 0,
        pr_icao_address = k, pr_callsign = [], pr_squawk = 0, pr_flags = 1\<rparr>, prep_received = t\<rparr>"

abbreviation "empty_queue \<equiv> \<lparr>rq_items = [], rq_order = [], rq_capacity = 2, rq_stopped = False\<rparr>"

lemma empty_queue_ok: "new_queue 2 = Some empty_queue" "rq_ok empty_queue" "rq_contents empty_queue = []"
  by (simp_all add: new_queue_def rq_ok_def rq_contents_def)

theorem pushes_keep_newest_in_first_seen_order_witness:
  "rq_contents (foldl (\<lambda>q (k, v). rq_push k v q) empty_queue
      [(7, sample_report 7 1), (5, sample_report 5 2), (7, sample_report 7 3)])
   = [(7, sample_report 7 3), (5, sample_report 5 2)]"
proof -
  let ?ps = "[(7::u32, sample_report 7 1), (5, sample_report 5 2), (7, sample_report 7 3)]"
  have "card (fst ` set ?ps) \<le> 2" by (simp add: card_insert_if)
  from pushes_keep_newest_in_first_seen_order[OF empty_queue_ok(1) this] show ?thesis
    by (simp add: first_seen_def)
qed

end
