(* ===== verification/Reporting_Worker.thy ===== *)
theory Reporting_Worker
  imports Report_Queue "HOL-Library.Sublist"
begin

text \<open>
  The reporting worker: src/src/reporting\_worker.hpp and reporting\_worker.cpp, with the interface
  of src/src/aircraft\_reporter.hpp. The worker's loop, the producer's pushes, the main thread's stop
  and the monotonic clock are the moves of one transition system; a move is what one thread does
  between two points where another can intervene (the queue's mutex, the atomic deadline, a send).
  The calls of reportAircraft and the pushes are logged in the state. A call of reportAircraft is made
  with the age and timestamp of the clocks at that moment, and returns when the FSS side lets it,
  which is not a move of the worker.
\<close>

subsection \<open>The report as it is sent\<close>

record wire_report =
  wr_position :: Point
  wr_altitude :: u32
  wr_heading :: u16
  wr_hor_vel :: u16
  wr_ver_vel :: i16
  wr_icao_address :: u32
  wr_callsign :: string
  wr_squawk :: u16
  wr_tslc :: u8
  wr_flags :: u16
  wr_alt_type :: u8
  wr_emitter_type :: u8
  wr_timestamp :: u64

definition send_report :: "pending_report \<Rightarrow> u64 \<Rightarrow> u64 \<Rightarrow> wire_report" where
  \<comment> \<open>the arguments of reportAircraft, for one read of each clock\<close>
  "send_report item now_mono now_wall =
     (let report = prep_report item
      in \<lparr>wr_position = pr_position report, wr_altitude = pr_altitude report, wr_heading = pr_heading report,
          wr_hor_vel = pr_hor_vel report, wr_ver_vel = pr_ver_vel report,
          wr_icao_address = pr_icao_address report, wr_callsign = pr_callsign report,
          wr_squawk = pr_squawk report, wr_tslc = derive_tslc (prep_received item) now_mono,
          wr_flags = pr_flags report, wr_alt_type = 0, wr_emitter_type = 0,
          wr_timestamp = derive_report_timestamp (prep_received item) now_mono now_wall\<rparr>)"

definition default_drain_timeout_ms :: u64 where "default_drain_timeout_ms = 5000"

subsection \<open>The threads\<close>

datatype worker_pc = Popping | Holding pending_report | Sending | Sent_one | Discarding | Finished | Crashed

datatype stop_pc = Running | Deadline_set | Joining | Joined

record worker_sys =
  ws_queue :: report_queue
  ws_deadline :: u64
  ws_clock :: u64
  ws_pc :: worker_pc
  ws_stop :: stop_pc
  ws_pushed :: "pending_report list"
  ws_sent :: "(pending_report \<times> wire_report) list"

inductive worker_move :: "worker_sys \<Rightarrow> worker_sys \<Rightarrow> bool" where
  w_pop: "ws_pc s = Popping \<Longrightarrow> rq_pop (ws_queue s) = Pop_returns q (Some item) \<Longrightarrow>
    worker_move s (s\<lparr>ws_queue := q, ws_pc := Holding item\<rparr>)"
| w_end: "ws_pc s = Popping \<Longrightarrow> rq_pop (ws_queue s) = Pop_returns q None \<Longrightarrow>
    worker_move s (s\<lparr>ws_queue := q, ws_pc := Finished\<rparr>)"
| w_crash: "ws_pc s = Popping \<Longrightarrow> rq_pop (ws_queue s) = Pop_undefined \<Longrightarrow>
    worker_move s (s\<lparr>ws_pc := Crashed\<rparr>)"
| w_send: "ws_pc s = Holding item \<Longrightarrow>
    worker_move s (s\<lparr>ws_sent := ws_sent s @ [(item, send_report item (ws_clock s) wall)], ws_pc := Sending\<rparr>)"
| w_more: "ws_pc s = Sent_one \<Longrightarrow> \<not> ws_deadline s \<le> ws_clock s \<Longrightarrow> worker_move s (s\<lparr>ws_pc := Popping\<rparr>)"
| w_late: "ws_pc s = Sent_one \<Longrightarrow> ws_deadline s \<le> ws_clock s \<Longrightarrow> worker_move s (s\<lparr>ws_pc := Discarding\<rparr>)"
| w_discard: "ws_pc s = Discarding \<Longrightarrow>
    worker_move s (s\<lparr>ws_queue := rq_clear (ws_queue s), ws_pc := Finished\<rparr>)"

text \<open>The call of reportAircraft returns.\<close>

inductive reporter_move :: "worker_sys \<Rightarrow> worker_sys \<Rightarrow> bool" where
  "ws_pc s = Sending \<Longrightarrow> reporter_move s (s\<lparr>ws_pc := Sent_one\<rparr>)"

text \<open>The clock is CLOCK\_MONOTONIC in milliseconds; it stays below half the range of uint64\_t.\<close>

definition clock_horizon :: u64 where "clock_horizon = 2 ^ 63"

inductive tick :: "worker_sys \<Rightarrow> worker_sys \<Rightarrow> bool" where
  "ws_clock s \<le> c \<Longrightarrow> c < clock_horizon \<Longrightarrow> tick s (s\<lparr>ws_clock := c\<rparr>)"

inductive stop_move :: "u64 \<Rightarrow> worker_sys \<Rightarrow> worker_sys \<Rightarrow> bool" for drain_timeout_ms :: u64 where
  s_deadline: "ws_stop s = Running \<or> ws_stop s = Joined \<Longrightarrow>
    stop_move drain_timeout_ms s (s\<lparr>ws_deadline := ws_clock s + drain_timeout_ms, ws_stop := Deadline_set\<rparr>)"
| s_shutdown: "ws_stop s = Deadline_set \<Longrightarrow>
    stop_move drain_timeout_ms s (s\<lparr>ws_queue := rq_shutdown (ws_queue s), ws_stop := Joining\<rparr>)"
| s_join: "ws_stop s = Joining \<Longrightarrow> ws_pc s = Finished \<Longrightarrow>
    stop_move drain_timeout_ms s (s\<lparr>ws_stop := Joined\<rparr>)"

inductive push_move :: "worker_sys \<Rightarrow> worker_sys \<Rightarrow> bool" where
  "push_move s (s\<lparr>ws_queue := rq_push (pr_icao_address (prep_report item)) item (ws_queue s),
                  ws_pushed := ws_pushed s @ [item]\<rparr>)"

definition worker_start :: "report_queue \<Rightarrow> u64 \<Rightarrow> worker_sys" where
  "worker_start q c =
     \<lparr>ws_queue = q, ws_deadline = - 1, ws_clock = c, ws_pc = Popping, ws_stop = Running,
      ws_pushed = [], ws_sent = []\<rparr>"

inductive worker_reachable :: "nat \<Rightarrow> u64 \<Rightarrow> worker_sys \<Rightarrow> bool" for cap :: nat and timeout :: u64 where
  start: "new_queue cap = Some q \<Longrightarrow> c < clock_horizon \<Longrightarrow> worker_reachable cap timeout (worker_start q c)"
| work: "worker_reachable cap timeout s \<Longrightarrow> worker_move s s' \<Longrightarrow> worker_reachable cap timeout s'"
| replies: "worker_reachable cap timeout s \<Longrightarrow> reporter_move s s' \<Longrightarrow> worker_reachable cap timeout s'"
| ticks: "worker_reachable cap timeout s \<Longrightarrow> tick s s' \<Longrightarrow> worker_reachable cap timeout s'"
| stops: "worker_reachable cap timeout s \<Longrightarrow> stop_move timeout s s' \<Longrightarrow> worker_reachable cap timeout s'"
| pushes: "worker_reachable cap timeout s \<Longrightarrow> push_move s s' \<Longrightarrow> worker_reachable cap timeout s'"

inductive_cases worker_moveE [consumes 1, case_names 1 2 3 4 5 6 7]: "worker_move s s'"
inductive_cases reporter_moveE [consumes 1, case_names 1]: "reporter_move s s'"
inductive_cases tickE [consumes 1, case_names 1]: "tick s s'"
inductive_cases stop_moveE [consumes 1, case_names 1 2 3]: "stop_move timeout s s'"
inductive_cases push_moveE [consumes 1, case_names 1]: "push_move s s'"

subsection \<open>What has been pushed is sent in order\<close>

abbreviation report_address :: "pending_report \<Rightarrow> u32" where
  "report_address i \<equiv> pr_icao_address (prep_report i)"

definition of_aircraft :: "u32 \<Rightarrow> pending_report list \<Rightarrow> pending_report list" where
  "of_aircraft k xs = filter (\<lambda>i. report_address i = k) xs"

lemma of_aircraft_append [simp]: "of_aircraft k (xs @ ys) = of_aircraft k xs @ of_aircraft k ys"
  by (simp add: of_aircraft_def)

lemma of_aircraft_Nil [simp]: "of_aircraft k [] = []"
  by (simp add: of_aircraft_def)

lemma of_aircraft_subseq: "subseq xs ys \<Longrightarrow> subseq (of_aircraft k xs) (of_aircraft k ys)"
  unfolding of_aircraft_def by (rule subseq_filter)

definition keyed :: "(u32 \<times> pending_report) list \<Rightarrow> bool" where
  "keyed xs \<longleftrightarrow> (\<forall>(k, i)\<in>set xs. report_address i = k)"

lemma keyed_push: "keyed xs \<Longrightarrow> keyed (fifo_push cap (report_address v) v xs)"
  by (cases xs) (auto simp: keyed_def fifo_push_def fifo_update_def)

lemma fifo_update_aircraft:
  assumes "distinct (map fst xs)" and "keyed xs" and "report_address v \<in> fst ` set xs"
  shows "of_aircraft k (map snd (fifo_update (report_address v) v xs)) =
    (if k = report_address v then [v] else of_aircraft k (map snd xs))"
  using assms
proof (induction xs)
  case (Cons e xs)
  obtain k' w where e: "e = (k', w)" by (cases e)
  have kd: "keyed xs" "report_address w = k'" using Cons(3) by (simp_all add: keyed_def e)
  show ?case
  proof (cases "report_address v = k'")
    case True
    then have new: "report_address v \<notin> fst ` set xs" using Cons(2) by (simp add: e)
    then have "fifo_update (report_address v) v xs = xs" by (induction xs) (auto simp: fifo_update_def)
    moreover have "of_aircraft (report_address v) (map snd xs) = []"
      using new kd(1) by (force simp: of_aircraft_def keyed_def filter_empty_conv)
    ultimately show ?thesis using True kd(2) by (simp add: e fifo_update_def of_aircraft_def)
  next
    case False
    then show ?thesis using Cons kd by (auto simp: e fifo_update_def of_aircraft_def)
  qed
qed simp

lemma fifo_push_aircraft:
  assumes "distinct (map fst xs)" and "keyed xs"
  shows "\<exists>ys. of_aircraft k (map snd (fifo_push cap (report_address v) v xs)) = ys @ of_aircraft k [v] \<and>
    subseq ys (of_aircraft k (map snd xs))"
proof (cases "report_address v \<in> fst ` set xs")
  case True
  show ?thesis
  proof (cases "k = report_address v")
    case True
    with fifo_update_aircraft[OF assms, of v k] \<open>report_address v \<in> fst ` set xs\<close> show ?thesis
      by (intro exI[of _ "[]"]) (simp add: fifo_push_def of_aircraft_def)
  next
    case False
    with fifo_update_aircraft[OF assms, of v k] True show ?thesis
      by (intro exI[of _ "of_aircraft k (map snd xs)"]) (simp add: fifo_push_def of_aircraft_def)
  qed
next
  case False
  have "subseq (tl xs) xs" by (cases xs) (auto intro: list_emb_Cons)
  then have "subseq (if cap \<le> length xs then tl xs else xs) xs" by simp
  then have "subseq (of_aircraft k (map snd (if cap \<le> length xs then tl xs else xs))) (of_aircraft k (map snd xs))"
    by (intro of_aircraft_subseq subseq_map)
  then show ?thesis using False by (auto simp: fifo_push_def)
qed

definition in_hand :: "worker_sys \<Rightarrow> pending_report list" where
  "in_hand s = (case ws_pc s of Holding item \<Rightarrow> [item] | _ \<Rightarrow> [])"

definition waiting :: "worker_sys \<Rightarrow> pending_report list" where
  "waiting s = map snd (rq_contents (ws_queue s))"

definition pipeline :: "worker_sys \<Rightarrow> pending_report list" where
  "pipeline s = map fst (ws_sent s) @ in_hand s @ waiting s"

lemma pop_waiting:
  assumes "rq_ok (ws_queue s)" and "rq_pop (ws_queue s) = Pop_returns q (Some item)"
  shows "rq_ok q \<and> rq_capacity q = rq_capacity (ws_queue s) \<and> rq_stopped q = rq_stopped (ws_queue s) \<and>
    (\<exists>k. rq_contents (ws_queue s) = (k, item) # rq_contents q)"
  using rq.pop_item[OF assms] by blast

definition worker_ok :: "nat \<Rightarrow> worker_sys \<Rightarrow> bool" where
  "worker_ok cap s \<longleftrightarrow> rq_ok (ws_queue s) \<and> rq_capacity (ws_queue s) = cap \<and> keyed (rq_contents (ws_queue s)) \<and>
     ws_pc s \<noteq> Crashed \<and> ws_clock s < clock_horizon \<and>
     (\<forall>(i, w)\<in>set (ws_sent s). \<exists>now wall. w = send_report i now wall) \<and>
     (\<forall>k. subseq (of_aircraft k (pipeline s)) (of_aircraft k (ws_pushed s))) \<and>
     (ws_stop s = Running \<longrightarrow>
        ws_deadline s = - 1 \<and> ws_pc s \<noteq> Discarding \<and> ws_pc s \<noteq> Finished \<and> \<not> rq_stopped (ws_queue s)) \<and>
     (ws_stop s = Joining \<or> ws_stop s = Joined \<longrightarrow> rq_stopped (ws_queue s))"

lemma clock_below_max: "c < clock_horizon \<Longrightarrow> \<not> (- 1 :: u64) \<le> c"
  using word_order.extremum_uniqueI[of c] by (auto simp: clock_horizon_def)

lemma send_count:
  "worker_ok cap s \<Longrightarrow> ws_pc s = Holding item \<Longrightarrow>
     pipeline (s\<lparr>ws_sent := ws_sent s @ [(item, w)], ws_pc := Sending\<rparr>) = pipeline s"
  by (simp add: pipeline_def in_hand_def waiting_def)

lemma pipeline_discard:
  assumes "rq_ok (ws_queue s)" and "ws_pc s = Discarding"
  shows "subseq (pipeline (s\<lparr>ws_queue := rq_clear (ws_queue s), ws_pc := Finished\<rparr>)) (pipeline s)"
  using rq.clear_law[OF assms(1)]
  by (simp add: pipeline_def in_hand_def waiting_def assms(2) subseq_rev_drop_many)

lemma worker_move_ok:
  assumes "worker_ok cap s" and "worker_move s s'"
  shows "worker_ok cap s' \<and> (ws_pc s \<noteq> Discarding \<longrightarrow> pipeline s' = pipeline s)"
  using assms(2)
proof (cases rule: worker_moveE)
  case (1 q item)
  have ok: "rq_ok (ws_queue s)" using assms(1) by (simp add: worker_ok_def)
  from pop_waiting[OF ok 1(3)] obtain k where q: "rq_ok q" "rq_capacity q = rq_capacity (ws_queue s)"
    "rq_stopped q = rq_stopped (ws_queue s)" "rq_contents (ws_queue s) = (k, item) # rq_contents q" by blast
  have p: "pipeline s' = pipeline s" by (simp add: 1 pipeline_def in_hand_def waiting_def q(4))
  then show ?thesis using assms(1) q by (auto simp: worker_ok_def 1(1) keyed_def)
next
  case (2 q)
  have ok: "rq_ok (ws_queue s)" using assms(1) by (simp add: worker_ok_def)
  then have q: "q = ws_queue s" "rq_stopped (ws_queue s)" using rq.pop_ends_iff 2(3) by auto
  have p: "pipeline s' = pipeline s" by (simp add: 2 pipeline_def in_hand_def waiting_def q(1))
  then show ?thesis using assms(1) q by (auto simp: worker_ok_def 2(1))
next
  case 3
  have "rq_ok (ws_queue s)" using assms(1) by (simp add: worker_ok_def)
  then show ?thesis using rq.pop_defined 3(3) by simp
next
  case (4 item wall)
  have p: "pipeline s' = pipeline s" using send_count[OF assms(1) 4(2)] by (simp add: 4)
  then show ?thesis using assms(1) by (auto simp: worker_ok_def 4(1))
next
  case 5
  have p: "pipeline s' = pipeline s" by (simp add: 5 pipeline_def in_hand_def waiting_def)
  then show ?thesis using assms(1) by (auto simp: worker_ok_def 5(1))
next
  case 6
  have p: "pipeline s' = pipeline s" by (simp add: 6 pipeline_def in_hand_def waiting_def)
  then show ?thesis using assms(1) 6(3) clock_below_max by (auto simp: worker_ok_def 6(1))
next
  case 7
  have ok: "rq_ok (ws_queue s)" using assms(1) by (simp add: worker_ok_def)
  have "subseq (of_aircraft k (pipeline s')) (of_aircraft k (ws_pushed s'))" for k
  proof (rule subseq_order.trans)
    show "subseq (of_aircraft k (pipeline s')) (of_aircraft k (pipeline s))"
      using of_aircraft_subseq[OF pipeline_discard[OF ok 7(2)]] by (simp add: 7(1))
    show "subseq (of_aircraft k (pipeline s)) (of_aircraft k (ws_pushed s'))"
      using assms(1) by (simp add: worker_ok_def 7(1))
  qed
  then show ?thesis using assms(1) rq.clear_law[OF ok] 7 by (auto simp: worker_ok_def keyed_def)
qed

lemma push_move_ok:
  assumes "worker_ok cap s" and "push_move s s'"
  shows "worker_ok cap s'"
  using assms(2)
proof (cases rule: push_moveE)
  case (1 item)
  have ok: "rq_ok (ws_queue s)" and kd: "keyed (rq_contents (ws_queue s))"
    using assms(1) by (simp_all add: worker_ok_def)
  note push = rq.push_law[OF ok, of "report_address item" item]
  have "subseq (of_aircraft k (pipeline s')) (of_aircraft k (ws_pushed s @ [item]))" for k
  proof -
    let ?sent = "of_aircraft k (map fst (ws_sent s) @ in_hand s)"
    obtain ys where ys: "of_aircraft k (waiting s') = ys @ of_aircraft k [item]"
      "subseq ys (of_aircraft k (waiting s))"
      using fifo_push_aircraft[OF rq.keys_distinct[OF ok] kd, of k "rq_capacity (ws_queue s)" item] push
      by (auto simp: waiting_def 1)
    have "subseq (?sent @ ys) (of_aircraft k (pipeline s))"
      using ys(2) by (simp add: pipeline_def subseq_append')
    also have "subseq \<dots> (of_aircraft k (ws_pushed s))" using assms(1) by (simp add: worker_ok_def)
    finally have "subseq ((?sent @ ys) @ of_aircraft k [item]) (of_aircraft k (ws_pushed s) @ of_aircraft k [item])"
      by (intro list_emb_append_mono) simp_all
    moreover have "of_aircraft k (pipeline s') = (?sent @ ys) @ of_aircraft k [item]"
      using ys(1) by (simp add: pipeline_def in_hand_def 1)
    ultimately show ?thesis by simp
  qed
  then show ?thesis using assms(1) push keyed_push[OF kd] by (auto simp: worker_ok_def 1)
qed

lemma stop_move_ok:
  assumes "worker_ok cap s" and "stop_move timeout s s'"
  shows "worker_ok cap s'"
  using assms(2)
proof (cases rule: stop_moveE)
  case 1
  then have "pipeline s' = pipeline s" by (simp add: pipeline_def in_hand_def waiting_def)
  then show ?thesis using assms(1) by (auto simp: worker_ok_def 1(1))
next
  case 2
  have ok: "rq_ok (ws_queue s)" using assms(1) by (simp add: worker_ok_def)
  note shut = rq.shutdown_law[OF ok]
  then have "pipeline s' = pipeline s" by (simp add: pipeline_def in_hand_def waiting_def 2)
  then show ?thesis using assms(1) shut by (auto simp: worker_ok_def 2(1))
next
  case 3
  then have "pipeline s' = pipeline s" by (simp add: pipeline_def in_hand_def waiting_def)
  then show ?thesis using assms(1) 3 by (auto simp: worker_ok_def)
qed

lemma reporter_move_ok: "worker_ok cap s \<Longrightarrow> reporter_move s s' \<Longrightarrow> worker_ok cap s' \<and> pipeline s' = pipeline s"
  by (erule reporter_moveE) (auto simp: worker_ok_def pipeline_def in_hand_def waiting_def)

lemma tick_ok: "worker_ok cap s \<Longrightarrow> tick s s' \<Longrightarrow> worker_ok cap s'"
  by (erule tickE) (auto simp: worker_ok_def pipeline_def in_hand_def waiting_def)

lemma worker_reachable_ok: "worker_reachable cap timeout s \<Longrightarrow> worker_ok cap s"
proof (induction rule: worker_reachable.induct)
  case (start q c)
  then show ?case using new_queue_ok[OF start(1)]
    by (simp add: worker_start_def worker_ok_def keyed_def pipeline_def in_hand_def waiting_def)
qed (auto dest: worker_move_ok reporter_move_ok tick_ok stop_move_ok push_move_ok)

subsection \<open>Draining after a stop\<close>

text \<open>Runs of the worker, the FSS side and the clock alone, counting the worker's moves.\<close>

inductive drain_run :: "nat \<Rightarrow> worker_sys \<Rightarrow> worker_sys \<Rightarrow> bool" where
  here: "drain_run 0 s s"
| work: "drain_run n s t \<Longrightarrow> worker_move t u \<Longrightarrow> drain_run (Suc n) s u"
| replies: "drain_run n s t \<Longrightarrow> reporter_move t u \<Longrightarrow> drain_run n s u"
| ticks: "drain_run n s t \<Longrightarrow> tick t u \<Longrightarrow> drain_run n s u"

definition work_left :: "worker_sys \<Rightarrow> nat" where
  "work_left s =
     (let n = length (rq_contents (ws_queue s))
      in case ws_pc s of Popping \<Rightarrow> 3 * n + 1 | Holding _ \<Rightarrow> 3 * n + 3 | Sending \<Rightarrow> 3 * n + 2
         | Sent_one \<Rightarrow> 3 * n + 2
         | Discarding \<Rightarrow> 1 | Finished \<Rightarrow> 0 | Crashed \<Rightarrow> 0)"

lemma worker_move_decreases:
  assumes "worker_ok cap s" and "worker_move s s'"
  shows "work_left s' < work_left s"
proof -
  have ok: "rq_ok (ws_queue s)" using assms(1) by (simp add: worker_ok_def)
  show ?thesis using assms(2)
  proof (cases rule: worker_moveE)
    case (1 q item)
    then show ?thesis using pop_waiting[OF ok 1(3)] by (auto simp: work_left_def)
  next
    case (2 q)
    then show ?thesis by (simp add: work_left_def Let_def)
  next
    case 3
    then show ?thesis using rq.pop_defined[OF ok] by simp
  qed (simp_all add: work_left_def Let_def)
qed

lemma worker_progress:
  assumes "worker_ok cap s" and "rq_stopped (ws_queue s)" and "ws_pc s \<noteq> Finished" and "ws_pc s \<noteq> Sending"
  shows "\<exists>s'. worker_move s s'"
proof (cases "ws_pc s")
  case Popping
  have ok: "rq_ok (ws_queue s)" using assms(1) by (simp add: worker_ok_def)
  then obtain q r where "rq_pop (ws_queue s) = Pop_returns q r"
    using rq.pop_defined[OF ok] rq.pop_blocks_iff[OF ok] assms(2) by (cases "rq_pop (ws_queue s)") auto
  then show ?thesis using Popping by (cases r) (auto intro: worker_move.intros)
next
  case Sent_one
  then show ?thesis by (cases "ws_deadline s \<le> ws_clock s") (auto intro: worker_move.intros)
qed (use assms in \<open>auto intro: worker_move.intros simp: worker_ok_def\<close>)

lemma worker_move_frame:
  assumes "worker_ok cap s" and "worker_move s s'"
  shows "ws_stop s' = ws_stop s \<and> ws_deadline s' = ws_deadline s \<and> ws_clock s' = ws_clock s \<and>
    rq_stopped (ws_queue s') = rq_stopped (ws_queue s)"
proof -
  have ok: "rq_ok (ws_queue s)" using assms(1) by (simp add: worker_ok_def)
  show ?thesis using assms(2)
  proof (cases rule: worker_moveE)
    case (1 q item)
    then show ?thesis using pop_waiting[OF ok 1(3)] by simp
  next
    case (2 q)
    then show ?thesis using rq.pop_ends_iff[OF ok] by simp
  qed (use rq.clear_law[OF ok] in simp_all)
qed

lemma reporter_move_frame:
  assumes "reporter_move s s'"
  shows "ws_stop s' = ws_stop s \<and> ws_deadline s' = ws_deadline s \<and> ws_clock s' = ws_clock s \<and>
    ws_queue s' = ws_queue s \<and> ws_pushed s' = ws_pushed s \<and> ws_sent s' = ws_sent s \<and> work_left s' = work_left s \<and>
    pipeline s' = pipeline s \<and> ws_pc s = Sending \<and> ws_pc s' = Sent_one"
  using assms by (cases rule: reporter_moveE) (simp add: work_left_def pipeline_def in_hand_def waiting_def)

lemma drain_run_ok:
  assumes "drain_run n s s'" and "worker_ok cap s"
  shows "worker_ok cap s' \<and> n + work_left s' \<le> work_left s \<and> ws_clock s \<le> ws_clock s' \<and>
    ws_stop s' = ws_stop s \<and> ws_deadline s' = ws_deadline s \<and>
    rq_stopped (ws_queue s') = rq_stopped (ws_queue s)"
  using assms
proof (induction rule: drain_run.induct)
  case (work n s t u)
  then have ih: "worker_ok cap t" "n + work_left t \<le> work_left s" by simp_all
  then show ?case
    using work worker_move_ok[OF ih(1) work(2)] worker_move_decreases[OF ih(1) work(2)]
      worker_move_frame[OF ih(1) work(2)] by simp
next
  case (replies n s t u)
  then show ?case using reporter_move_ok[of cap t u] reporter_move_frame[OF replies(2)] by simp
next
  case (ticks n s t u)
  then have t: "worker_ok cap t" by simp
  have "work_left u = work_left t" "ws_clock t \<le> ws_clock u" "ws_stop u = ws_stop t"
    "ws_deadline u = ws_deadline t" "ws_queue u = ws_queue t"
    using ticks(2) by (auto elim!: tickE simp: work_left_def)
  then show ?case using ticks tick_ok[OF t ticks(2)] by (auto intro: order_trans)
qed simp

lemma work_left_bound: "worker_ok cap s \<Longrightarrow> work_left s \<le> 3 * cap + 3"
  using rq.within_limit[of "ws_queue s"]
  by (auto simp: worker_ok_def work_left_def Let_def split: worker_pc.splits)

definition sends_left :: "worker_sys \<Rightarrow> nat" where
  "sends_left s = (case ws_pc s of Popping \<Rightarrow> 1 | Holding _ \<Rightarrow> 1 | _ \<Rightarrow> 0)"

lemma late_sends:
  assumes "drain_run n s s'" and "worker_ok cap s" and "ws_deadline s \<le> ws_clock s"
  shows "length (ws_sent s') + sends_left s' \<le> length (ws_sent s) + sends_left s"
  using assms
proof (induction rule: drain_run.induct)
  case (work n s t u)
  then have "ws_deadline t \<le> ws_clock t" using drain_run_ok[OF work(1,4)] by (auto intro: order_trans)
  with work show ?case by (auto elim!: worker_moveE simp: sends_left_def)
next
  case (replies n s t u)
  then show ?case by (auto elim!: reporter_moveE simp: sends_left_def)
next
  case (ticks n s t u)
  then show ?case by (auto elim!: tickE simp: sends_left_def)
qed simp

lemma timely_drain:
  assumes "drain_run n s s'" and "worker_ok cap s" and "ws_pc s \<noteq> Discarding" and "ws_pc s \<noteq> Finished"
    and "ws_clock s' < ws_deadline s'"
  shows "pipeline s' = pipeline s \<and> ws_pc s' \<noteq> Discarding \<and> (ws_pc s' = Finished \<longrightarrow> waiting s' = [])"
  using assms
proof (induction rule: drain_run.induct)
  case (work n s t u)
  have ok1: "worker_ok cap t" using drain_run_ok[OF work(1,4)] by blast
  then have "rq_ok (ws_queue t)" by (simp add: worker_ok_def)
  note ok = ok1 this
  note frame = worker_move_frame[OF ok(1) work(2)]
  have ih: "pipeline t = pipeline s" "ws_pc t \<noteq> Discarding" using work frame by simp_all
  have "ws_pc u \<noteq> Discarding \<and> (ws_pc u = Finished \<longrightarrow> waiting u = [])" using work(2)
  proof (cases rule: worker_moveE)
    case (2 q)
    then show ?thesis using rq.pop_ends_iff[OF ok(2)] by (simp add: waiting_def)
  next
    case 6
    then show ?thesis using work(7) frame by simp
  qed (use ih(2) in simp_all)
  then show ?case using worker_move_ok[OF ok(1) work(2)] ih by simp
next
  case (replies n s t u)
  then show ?case using reporter_move_frame[OF replies(2)] by simp
next
  case (ticks n s t u)
  then have "ws_clock t < ws_deadline t" by (auto elim!: tickE intro: le_less_trans)
  with ticks show ?case by (auto elim!: tickE simp: pipeline_def in_hand_def waiting_def)
qed (auto simp: pipeline_def)

subsection \<open>Properties\<close>

text \<open>C8: whatever the threads do and however they interleave, the reports sent for an aircraft are some of those
  pushed for it, each at most once and in the order they were pushed; each is sent with the age and
  timestamp of one clock reading; and the worker neither dereferences a missing entry nor ends or
  discards anything before it is asked to stop.\<close>

theorem worker_sends_in_order:
  assumes "worker_reachable cap timeout s"
  shows "(\<forall>k. subseq (of_aircraft k (map fst (ws_sent s))) (of_aircraft k (ws_pushed s))) \<and>
    (\<forall>(i, w)\<in>set (ws_sent s). \<exists>now wall. w = send_report i now wall) \<and>
    ws_pc s \<noteq> Crashed \<and> rq_size (ws_queue s) \<le> cap \<and>
    (ws_stop s \<noteq> Running \<or> ws_pc s \<noteq> Discarding \<and> ws_pc s \<noteq> Finished)"
proof -
  have ok: "worker_ok cap s" using worker_reachable_ok[OF assms] .
  have "subseq (of_aircraft k (map fst (ws_sent s))) (of_aircraft k (pipeline s))" for k
    by (simp add: pipeline_def subseq_rev_drop_many)
  then have "subseq (of_aircraft k (map fst (ws_sent s))) (of_aircraft k (ws_pushed s))" for k
    using ok subseq_order.trans unfolding worker_ok_def by blast
  moreover have "rq_size (ws_queue s) \<le> cap"
    using ok by (auto simp: worker_ok_def rq_ok_def rq_size_def)
  ultimately show ?thesis using ok by (auto simp: worker_ok_def)
qed

text \<open>Once stop has shut the queue down, the worker has a move until it has finished, unless it is in a call
  of reportAircraft, and it finishes within three moves per report of capacity plus three, whatever
  the clock does: the join in stop returns as soon as the sends do.\<close>

lemma worker_stop_terminates:
  assumes "worker_reachable cap timeout s" and "ws_stop s = Joining" and "drain_run n s s'"
  shows "n \<le> 3 * cap + 3 \<and> (ws_pc s' = Finished \<or> ws_pc s' = Sending \<or> (\<exists>s''. worker_move s' s''))"
proof -
  have ok: "worker_ok cap s" using worker_reachable_ok[OF assms(1)] .
  note r = drain_run_ok[OF assms(3) ok]
  then have "n \<le> 3 * cap + 3" using work_left_bound[OF ok] by simp
  moreover have "rq_stopped (ws_queue s')" using r ok assms(2) by (simp add: worker_ok_def)
  ultimately show ?thesis using worker_progress r by blast
qed

text \<open>C22: when the deadline of a stop has passed, at most one more report is sent, however long the backlog.\<close>

theorem at_most_one_send_after_deadline:
  assumes "worker_reachable cap timeout s" and "ws_deadline s \<le> ws_clock s" and "drain_run n s s'"
  shows "length (ws_sent s') \<le> length (ws_sent s) + 1"
proof -
  have "sends_left s \<le> 1" by (simp add: sends_left_def split: worker_pc.splits)
  then show ?thesis using late_sends[OF assms(3) worker_reachable_ok[OF assms(1)] assms(2)] by simp
qed

text \<open>C23: a drain that finishes before the deadline loses nothing: it sends the report in hand and then the whole
  backlog, oldest first.\<close>

theorem timely_drain_sends_everything:
  assumes "worker_reachable cap timeout s" and "ws_pc s \<noteq> Discarding" and "ws_pc s \<noteq> Finished"
    and "drain_run n s s'" and "ws_pc s' = Finished" and "ws_clock s' < ws_deadline s'"
  shows "map fst (ws_sent s') = map fst (ws_sent s) @ in_hand s @ map snd (rq_contents (ws_queue s))"
  using timely_drain[OF assms(4) worker_reachable_ok[OF assms(1)] assms(2,3,6)] assms(5)
  by (auto simp: pipeline_def in_hand_def waiting_def)

subsection \<open>A concrete run\<close>

definition "run_start = worker_start empty_queue 10"
definition "run_pushed = run_start\<lparr>ws_queue := rq_push 7 (sample_report 7 1) (ws_queue run_start),
  ws_pushed := [sample_report 7 1]\<rparr>"
definition "run_armed = run_pushed\<lparr>ws_deadline := 10 + 5000, ws_stop := Deadline_set\<rparr>"
definition "run_stopped = run_armed\<lparr>ws_queue := rq_shutdown (ws_queue run_armed), ws_stop := Joining\<rparr>"
definition "run_held = run_stopped\<lparr>ws_queue := rq_shutdown empty_queue, ws_pc := Holding (sample_report 7 1)\<rparr>"
definition "run_calling = run_held\<lparr>ws_sent := [(sample_report 7 1, send_report (sample_report 7 1) 10 77)], ws_pc := Sending\<rparr>"
definition "run_sent = run_calling\<lparr>ws_pc := Sent_one\<rparr>"
definition "run_again = run_sent\<lparr>ws_pc := Popping\<rparr>"
definition "run_end = run_again\<lparr>ws_pc := Finished\<rparr>"

lemmas run_defs = run_start_def run_pushed_def run_armed_def run_stopped_def run_held_def run_calling_def run_sent_def
  run_again_def run_end_def worker_start_def

lemma run_reachable: "worker_reachable 2 5000 run_stopped"
proof -
  have start: "worker_reachable 2 5000 run_start"
    unfolding run_start_def by (rule worker_reachable.start[OF empty_queue_ok(1)]) (simp add: clock_horizon_def)
  have "push_move run_start run_pushed"
    using push_move.intros[of run_start "sample_report 7 1"] by (simp add: run_defs sample_report_def)
  then have pushed: "worker_reachable 2 5000 run_pushed" by (rule worker_reachable.pushes[OF start])
  have "stop_move 5000 run_pushed run_armed"
    using stop_move.s_deadline[of run_pushed 5000] by (simp add: run_defs)
  then have armed: "worker_reachable 2 5000 run_armed" by (rule worker_reachable.stops[OF pushed])
  have "stop_move 5000 run_armed run_stopped"
    using stop_move.s_shutdown[of run_armed 5000] by (simp add: run_defs)
  then show ?thesis by (rule worker_reachable.stops[OF armed])
qed

lemma run_drains: "drain_run 4 run_stopped run_end"
proof -
  have m1: "worker_move run_stopped run_held"
    using worker_move.w_pop[of run_stopped "rq_shutdown empty_queue" "sample_report 7 1"]
    by (simp add: run_defs rq_pop_def rq_push_def rq_shutdown_def drop_oldest_def try_emplace_def map_erase_def)
  have m2: "worker_move run_held run_calling"
    using worker_move.w_send[of run_held "sample_report 7 1" 77] by (simp add: run_defs)
  have r: "reporter_move run_calling run_sent"
    using reporter_move.intros[of run_calling] by (simp add: run_defs)
  have m3: "worker_move run_sent run_again"
    using worker_move.w_more[of run_sent] by (simp add: run_defs)
  have m4: "worker_move run_again run_end"
    using worker_move.w_end[of run_again "rq_shutdown empty_queue"]
    by (simp add: run_defs rq_pop_def rq_shutdown_def)
  show ?thesis
    using drain_run.work[OF drain_run.work[OF drain_run.replies[OF drain_run.work[OF drain_run.work[OF drain_run.here m1] m2] r] m3] m4]
    by (simp add: numeral_eq_Suc)
qed

theorem worker_sends_in_order_witness: "ws_pc run_stopped \<noteq> Crashed"
  using worker_sends_in_order[OF run_reachable] by blast

theorem timely_drain_sends_everything_witness:
  "map fst (ws_sent run_end) = in_hand run_stopped @ map snd (rq_contents (ws_queue run_stopped))"
  using timely_drain_sends_everything[OF run_reachable _ _ run_drains] by (simp add: run_defs)

theorem at_most_one_send_after_deadline_witness:
  "\<exists>s s'. ws_deadline s \<le> ws_clock s \<and> drain_run 2 s s' \<and> length (ws_sent s) = 0 \<and> length (ws_sent s') = 1 \<and>
     length (ws_sent s') \<le> length (ws_sent s) + 1"
proof -
  let ?s = "run_stopped\<lparr>ws_clock := 6000\<rparr>"
  let ?h = "run_held\<lparr>ws_clock := 6000\<rparr>"
  let ?t = "?h\<lparr>ws_sent := [(sample_report 7 1, send_report (sample_report 7 1) 6000 77)], ws_pc := Sending\<rparr>"
  have "tick run_stopped ?s"
    by (rule tick.intros) (simp_all add: run_defs clock_horizon_def)
  then have r: "worker_reachable 2 5000 ?s" by (rule worker_reachable.ticks[OF run_reachable])
  have d: "ws_deadline ?s \<le> ws_clock ?s" by (simp add: run_defs)
  have m1: "worker_move ?s ?h"
    using worker_move.w_pop[of ?s "rq_shutdown empty_queue" "sample_report 7 1"]
    by (simp add: run_defs rq_pop_def rq_push_def rq_shutdown_def drop_oldest_def try_emplace_def map_erase_def)
  have m2: "worker_move ?h ?t"
    using worker_move.w_send[of ?h "sample_report 7 1" 77] by (simp add: run_defs)
  have run: "drain_run 2 ?s ?t"
    using drain_run.work[OF drain_run.work[OF drain_run.here m1] m2] by (simp add: numeral_eq_Suc)
  have "length (ws_sent ?s) = 0" "length (ws_sent ?t) = 1" by (simp_all add: run_defs)
  then show ?thesis using d run at_most_one_send_after_deadline[OF r d run] by blast
qed

end
