(* ===== verification/Framing.thy ===== *)
theory Framing
  imports Sbs1_Message
begin

text \<open>
  The framing of the receive loop: src/src/dump1090.cpp, dump1090::processMessages. A chunk is
  appended to the accumulator, every complete line in it is handed on with the chunk's receive
  stamp, the processed prefix is erased, and an accumulator that is still longer than the buffer
  is discarded. The descriptor the loop reads from is modelled in Connection.
\<close>

subsection \<open>The loop body\<close>

definition buffer_length :: nat where "buffer_length = 2048"

abbreviation "CR \<equiv> CHR 0x0D"
abbreviation "LF \<equiv> CHR 0x0A"

definition find_first_of :: "string \<Rightarrow> string \<Rightarrow> nat \<Rightarrow> nat option" where
  \<comment> \<open>None is npos\<close>
  "find_first_of cs s start =
     (let p = start + length (takeWhile (\<lambda>c. c \<notin> set cs) (drop start s))
      in if p < length s then Some p else None)"

definition substr :: "string \<Rightarrow> nat \<Rightarrow> nat \<Rightarrow> string" where
  "substr s from n = take n (drop from s)"

lemma find_first_of_Some:
  "find_first_of cs s start = Some p \<Longrightarrow> start \<le> p \<and> p < length s"
  by (auto simp: find_first_of_def Let_def split: if_splits)

function drain_lines :: "(string \<Rightarrow> 's \<Rightarrow> 's) \<Rightarrow> string \<Rightarrow> nat \<Rightarrow> 's \<Rightarrow> nat \<times> 's" where
  \<comment> \<open>the inner while loop: the final start, and the state of the owner of the callback\<close>
  "drain_lines process acc start st =
     (case find_first_of [CR, LF] acc start of
        None \<Rightarrow> (start, st)
      | Some p \<Rightarrow>
          drain_lines process acc (p + 1)
            (if start < p then process (substr acc start (p - start)) st else st))"
  by pat_completeness auto
termination
  by (relation "measure (\<lambda>(_, acc, start, _). length acc - start)")
    (auto dest!: find_first_of_Some)

declare drain_lines.simps [simp del]

definition receive_chunk ::
  "(u64 \<Rightarrow> string \<Rightarrow> 's \<Rightarrow> 's) \<Rightarrow> string \<times> u64 \<Rightarrow> string \<times> 's \<Rightarrow> string \<times> 's" where
  "receive_chunk process = (\<lambda>(chunk, stamp) (accumulator, st).
     (let accumulator = accumulator @ chunk;
          (start, st) = drain_lines (process stamp) accumulator 0 st;
          accumulator = drop start accumulator
      in (if buffer_length < length accumulator then [] else accumulator, st)))"

fun receive_chunks ::
  "(u64 \<Rightarrow> string \<Rightarrow> 's \<Rightarrow> 's) \<Rightarrow> (string \<times> u64) list \<Rightarrow> string \<times> 's \<Rightarrow> string \<times> 's" where
  \<comment> \<open>the outer loop over the chunks that recv returns\<close>
  "receive_chunks process [] s = s"
| "receive_chunks process (c # cs) s = receive_chunks process cs (receive_chunk process c s)"

definition feed ::
  "nat \<Rightarrow> (ADSBData \<Rightarrow> 's option \<Rightarrow> 's option) option \<Rightarrow> (string \<times> u64) list \<Rightarrow> 's option \<Rightarrow> 's option" where
  \<comment> \<open>one connection: the accumulator starts empty, and each line goes to processMessage\<close>
  "feed lw adsb_cb cs st =
     snd (receive_chunks (\<lambda>stamp line. processMessage lw adsb_cb line stamp) cs ([], st))"

text \<open>What a connection hands on, as a log of lines and stamps.\<close>

definition framed :: "(string \<times> u64) list \<Rightarrow> string \<times> (string \<times> u64) list" where
  "framed cs = receive_chunks (\<lambda>stamp line lg. lg @ [(line, stamp)]) cs ([], [])"

subsection \<open>The specification: the lines of a text\<close>

definition is_eol :: "char \<Rightarrow> bool" where
  "is_eol c \<longleftrightarrow> c = CR \<or> c = LF"

fun runs :: "string \<Rightarrow> string list" where
  \<comment> \<open>the pieces between the terminators; the last is the unterminated one\<close>
  "runs [] = [[]]"
| "runs (c # s) = (if is_eol c then [] # runs s else (c # hd (runs s)) # tl (runs s))"

definition complete_lines :: "string \<Rightarrow> string list" where
  "complete_lines s = filter (\<lambda>l. l \<noteq> []) (butlast (runs s))"

definition residue :: "string \<Rightarrow> string" where
  "residue s = last (runs s)"

lemma runs_nonempty [simp]: "runs s \<noteq> []"
  by (induction s) auto

lemma runs_append:
  "runs (a @ b) = butlast (runs a) @ (last (runs a) @ hd (runs b)) # tl (runs b)"
proof (induction a)
  case (Cons c a)
  then show ?case by (cases "runs a") auto
qed simp

lemma runs_no_eol: "\<forall>c\<in>set s. \<not> is_eol c \<Longrightarrow> runs s = [s]"
  by (induction s) auto

lemma runs_free: "r \<in> set (runs s) \<Longrightarrow> \<forall>c\<in>set r. \<not> is_eol c"
proof (induction s arbitrary: r)
  case (Cons c s)
  obtain x xs where "runs s = x # xs" by (cases "runs s") simp_all
  with Cons show ?case by (fastforce split: if_splits)
qed simp

lemma runs_residue: "runs (residue s) = [residue s]"
  by (rule runs_no_eol, rule runs_free[of _ s]) (simp add: residue_def)

lemma residue_residue [simp]: "residue (residue s) = residue s"
  by (subst residue_def) (simp add: runs_residue)

lemma lines_append:
  "complete_lines (a @ b) = complete_lines a @ complete_lines (residue a @ b)"
  "residue (a @ b) = residue (residue a @ b)"
proof -
  have r: "runs (residue a @ b) = (residue a @ hd (runs b)) # tl (runs b)"
    unfolding runs_append[of "residue a" b] runs_residue by simp
  have ab: "runs (a @ b) = butlast (runs a) @ runs (residue a @ b)"
    unfolding r unfolding runs_append residue_def ..
  show "complete_lines (a @ b) = complete_lines a @ complete_lines (residue a @ b)"
    by (simp add: complete_lines_def ab butlast_append)
  show "residue (a @ b) = residue (residue a @ b)"
    by (subst (1 2) residue_def) (simp add: ab)
qed

lemma complete_line_props:
  assumes "l \<in> set (complete_lines s)"
  shows "l \<noteq> [] \<and> (\<forall>c\<in>set l. \<not> is_eol c) \<and> length l < length s"
proof -
  have l: "l \<noteq> []" "l \<in> set (butlast (runs s))" using assms by (auto simp: complete_lines_def)
  have len: "r \<in> set (butlast (runs s)) \<Longrightarrow> length r < length s" for r
  proof (induction s arbitrary: r)
    case (Cons c s)
    obtain x xs where "runs s = x # xs" by (cases "runs s") simp_all
    with Cons show ?case by (fastforce split: if_splits)
  qed simp
  show ?thesis using l len[of l] runs_free[of l s] by (auto dest: in_set_butlastD)
qed

lemma length_residue: "length (residue s) \<le> length s"
proof -
  have "r \<in> set (runs s) \<Longrightarrow> length r \<le> length s" for r
  proof (induction s arbitrary: r)
    case (Cons c s)
    obtain x xs where "runs s = x # xs" by (cases "runs s") simp_all
    with Cons show ?case by (fastforce split: if_splits)
  qed simp
  then show ?thesis by (simp add: residue_def)
qed

subsection \<open>The loop computes the specification\<close>

lemma lines_run:
  assumes "\<forall>c\<in>set run. \<not> is_eol c" and "is_eol c"
  shows "complete_lines (run @ c # rest) = (if run = [] then [] else [run]) @ complete_lines rest"
    and "residue (run @ c # rest) = residue rest"
proof -
  have r: "runs (run @ c # rest) = run # runs rest"
    using runs_append[of run "c # rest"] runs_no_eol[OF assms(1)] assms(2) by simp
  show "complete_lines (run @ c # rest) = (if run = [] then [] else [run]) @ complete_lines rest"
    and "residue (run @ c # rest) = residue rest"
    by (simp_all add: complete_lines_def residue_def r)
qed

lemma eol_set: "c \<notin> set [CR, LF] \<longleftrightarrow> \<not> is_eol c"
  by (simp add: is_eol_def)

lemma drain_lines_spec:
  assumes "start \<le> length acc"
  shows "\<exists>stop. drain_lines f acc start st = (stop, fold f (complete_lines (drop start acc)) st) \<and>
    stop \<le> length acc \<and> drop stop acc = residue (drop start acc)"
  using assms
proof (induction f acc start st rule: drain_lines.induct)
  case (1 f acc start st)
  define run where "run = takeWhile (\<lambda>c. \<not> is_eol c) (drop start acc)"
  define rest where "rest = dropWhile (\<lambda>c. \<not> is_eol c) (drop start acc)"
  have split: "drop start acc = run @ rest" by (simp add: run_def rest_def)
  have free: "\<forall>c\<in>set run. \<not> is_eol c" by (auto simp: run_def dest: set_takeWhileD)
  have len: "length acc = start + length run + length rest"
    using arg_cong[OF split, of length] 1(2) by simp
  have find: "find_first_of [CR, LF] acc start = (if rest = [] then None else Some (start + length run))"
    unfolding find_first_of_def Let_def eol_set run_def [symmetric] by (simp add: len)
  show ?case
  proof (cases rest)
    case Nil
    then have "drain_lines f acc start st = (start, st)"
      by (subst drain_lines.simps) (simp add: find)
    then show ?thesis using 1(2) split Nil runs_no_eol[OF free]
      by (simp add: complete_lines_def residue_def)
  next
    case (Cons c t)
    have c: "is_eol c" using Cons hd_dropWhile[of "\<lambda>c. \<not> is_eol c" "drop start acc"] by (simp add: rest_def)
    have t: "drop (start + length run + 1) acc = t"
      using arg_cong[OF split, of "drop (length run + 1)"] Cons by (simp add: add.commute add.left_commute)
    have run: "substr acc start (start + length run - start) = run" by (simp add: substr_def split)
    let ?st = "if run \<noteq> [] then f run st else st"
    have step: "drain_lines f acc start st = drain_lines f acc (start + length run + 1) ?st"
      by (subst drain_lines.simps) (simp add: find Cons run [simplified])
    have "start + length run + 1 \<le> length acc" using len Cons by simp
    with 1(1)[of "start + length run", unfolded t run] obtain stop where
      "drain_lines f acc (start + length run + 1) ?st = (stop, fold f (complete_lines t) ?st)"
      "stop \<le> length acc" "drop stop acc = residue t"
      using find Cons run by auto
    then show ?thesis
      unfolding step split Cons lines_run[OF free c] by auto
  qed
qed

lemma receive_chunk_spec:
  "receive_chunk process (chunk, stamp) (acc, st) =
     (if buffer_length < length (residue (acc @ chunk)) then [] else residue (acc @ chunk),
      fold (process stamp) (complete_lines (acc @ chunk)) st)"
proof -
  obtain stop where "drain_lines (process stamp) (acc @ chunk) 0 st
      = (stop, fold (process stamp) (complete_lines (acc @ chunk)) st)"
    and "drop stop (acc @ chunk) = residue (acc @ chunk)"
    using drain_lines_spec[of 0 "acc @ chunk" "process stamp" st] by auto
  then show ?thesis unfolding receive_chunk_def Let_def by (simp del: drop_append length_drop)
qed

subsection \<open>Connections\<close>

abbreviation "log_line \<equiv> \<lambda>(stamp::u64) (line::string) lg. lg @ [(line, stamp)]"

lemma fold_log: "fold (log_line t) ls lg = lg @ map (\<lambda>l. (l, t)) ls"
  by (induction ls arbitrary: lg) simp_all

lemma receive_chunks_append:
  "receive_chunks f (as @ bs) s = receive_chunks f bs (receive_chunks f as s)"
  by (induction as arbitrary: s) simp_all

lemma receive_chunks_log:
  "receive_chunks log_line cs (acc, lg @ lg') =
     (fst (receive_chunks log_line cs (acc, lg')), lg @ snd (receive_chunks log_line cs (acc, lg')))"
proof (induction cs arbitrary: acc lg')
  case (Cons c cs)
  obtain chunk t where c: "c = (chunk, t)" by (cases c)
  show ?case by (simp only: c receive_chunks.simps receive_chunk_spec fold_log append_assoc Cons)
qed simp

lemma receive_chunks_via_log:
  "receive_chunks f cs (acc, st) =
     (fst (receive_chunks log_line cs (acc, [])),
      fold (\<lambda>(l, t). f t l) (snd (receive_chunks log_line cs (acc, []))) st)"
proof (induction cs arbitrary: acc st)
  case (Cons c cs)
  obtain chunk t where c: "c = (chunk, t)" by (cases c)
  define ls where "ls = complete_lines (acc @ chunk)"
  define acc' where "acc' = (if buffer_length < length (residue (acc @ chunk)) then [] else residue (acc @ chunk))"
  have "fold (\<lambda>(l, t). f t l) (map (\<lambda>l. (l, t)) ls) st = fold (f t) ls st"
    by (induction ls arbitrary: st) simp_all
  then show ?case
    using Cons[of acc' "fold (f t) ls st"] receive_chunks_log[of cs acc' "map (\<lambda>l. (l, t)) ls" "[]"]
    by (simp add: c receive_chunk_spec fold_log ls_def [symmetric] acc'_def [symmetric])
qed simp

lemma framed_snoc:
  "framed (cs @ [(chunk, t)]) =
     (let (acc, lg) = framed cs; r = residue (acc @ chunk)
      in (if buffer_length < length r then [] else r, lg @ map (\<lambda>l. (l, t)) (complete_lines (acc @ chunk))))"
  by (simp add: framed_def receive_chunks_append receive_chunk_spec fold_log Let_def split: prod.splits)

lemma framed_Nil: "framed [] = ([], [])"
  by (simp add: framed_def)

text \<open>While no line outgrows the buffer, the chunks are as good as one text.\<close>

lemma framed_whole:
  assumes "\<forall>r\<in>set (runs (concat (map fst cs))). length r \<le> buffer_length"
  shows "fst (framed cs) = residue (concat (map fst cs)) \<and>
    map fst (snd (framed cs)) = complete_lines (concat (map fst cs))"
  using assms
proof (induction cs rule: rev_induct)
  case (snoc c cs)
  obtain chunk t where c: "c = (chunk, t)" by (cases c)
  define s where "s = concat (map fst cs)"
  have runs: "runs (s @ chunk) = butlast (runs s) @ (last (runs s) @ hd (runs chunk)) # tl (runs chunk)"
    by (rule runs_append)
  have all: "\<forall>r\<in>set (runs (s @ chunk)). length r \<le> buffer_length" using snoc(2) by (simp add: c s_def)
  have "\<forall>r\<in>set (runs s). length r \<le> buffer_length"
  proof
    fix r assume "r \<in> set (runs s)"
    then have "r \<in> set (butlast (runs s)) \<or> r = last (runs s)"
      by (metis UnE append_butlast_last_id empty_iff insert_iff list.set(1,2) runs_nonempty set_append)
    then show "length r \<le> buffer_length" using all unfolding runs by auto
  qed
  with snoc(1) have ih: "fst (framed cs) = residue s" "map fst (snd (framed cs)) = complete_lines s"
    by (simp_all add: s_def)
  have "length (residue (s @ chunk)) \<le> buffer_length" using all by (simp add: residue_def)
  then have r: "length (residue (residue s @ chunk)) \<le> buffer_length" by (simp add: lines_append(2) [symmetric])
  show ?case using ih r lines_append[of s chunk]
    by (simp add: c framed_snoc Let_def o_def split_beta s_def [symmetric])
qed (simp add: framed_Nil residue_def complete_lines_def)

lemma runs_terminated:
  assumes "\<forall>l\<in>set ls. \<forall>c\<in>set l. \<not> is_eol c"
  shows "runs (concat (map (\<lambda>l. l @ [CR, LF]) ls)) = concat (map (\<lambda>l. [l, []]) ls) @ [[]]"
  using assms
proof (induction ls)
  case (Cons l ls)
  have "runs (l @ CR # LF # s) = l # [] # runs s" if "\<forall>c\<in>set l. \<not> is_eol c" for s
    using that runs_append[of l "CR # LF # s"] runs_no_eol[OF that] by (simp add: is_eol_def)
  with Cons show ?case by simp
qed simp

lemma framed_bounds:
  assumes "\<forall>(chunk, t)\<in>set cs. length chunk \<le> buffer_length"
  shows "length (fst (framed cs)) \<le> buffer_length \<and>
    (\<forall>(l, t)\<in>set (snd (framed cs)).
       l \<noteq> [] \<and> (\<forall>c\<in>set l. \<not> is_eol c) \<and> length l < 2 * buffer_length \<and> t \<in> snd ` set cs)"
  using assms
proof (induction cs rule: rev_induct)
  case (snoc c cs)
  obtain chunk t where c: "c = (chunk, t)" by (cases c)
  obtain acc lg where f: "framed cs = (acc, lg)" by (cases "framed cs")
  have ih: "length acc \<le> buffer_length" "length chunk \<le> buffer_length"
    using snoc by (simp_all add: f c)
  then show ?case using snoc complete_line_props[of _ "acc @ chunk"]
    by (fastforce simp: c f framed_snoc Let_def)
qed (simp add: framed_Nil)

lemma residue_eol: "is_eol e \<Longrightarrow> residue (s @ [e]) = []"
  by (simp add: residue_def runs_append)

subsection \<open>Properties\<close>

text \<open>C10: framing does not depend on how the stream was cut into chunks: while no line is longer than the buffer,
  the lines handed to processMessage are the complete non-empty lines of the whole stream in
  order, and feeding a connection is processing that log of lines.\<close>

theorem framing_chunking_irrelevant:
  assumes "\<forall>r\<in>set (runs (concat (map fst cs))). length r \<le> buffer_length"
  shows "map fst (snd (framed cs)) = complete_lines (concat (map fst cs)) \<and>
    fst (framed cs) = residue (concat (map fst cs)) \<and>
    feed lw cb cs st = fold (\<lambda>(l, t). processMessage lw cb l t) (snd (framed cs)) st"
  using framed_whole[OF assms]
    receive_chunks_via_log[of "\<lambda>t l. processMessage lw cb l t" cs "[]" st]
  by (simp add: feed_def framed_def)

theorem framing_chunking_irrelevant_witness:
  "map fst (snd (framed [(''MSG,1'' @ [CR], 5), ([LF] @ ''MS'', 6), (''G,2'' @ [LF] @ ''M'', 7)])) = [''MSG,1'', ''MSG,2'']"
proof -
  let ?cs = "[(''MSG,1'' @ [CR], 5), ([LF] @ ''MS'', 6), (''G,2'' @ [LF] @ ''M'', 7)]"
  have short: "\<forall>r\<in>set (runs (concat (map fst ?cs))). length r \<le> buffer_length"
    and lines: "complete_lines (concat (map fst ?cs)) = [''MSG,1'', ''MSG,2'']" by code_simp+
  show ?thesis using framing_chunking_irrelevant[OF short, THEN conjunct1] lines by (simp only:)
qed

text \<open>C31: any sequence of non-empty lines of at most a buffer each, sent with CR LF terminators and cut anywhere,
  is received line by line, and nothing is left over.\<close>

theorem framing_roundtrip:
  assumes "\<forall>l\<in>set ls. l \<noteq> [] \<and> length l \<le> buffer_length \<and> (\<forall>c\<in>set l. \<not> is_eol c)"
    and "concat (map fst cs) = concat (map (\<lambda>l. l @ [CR, LF]) ls)"
  shows "map fst (snd (framed cs)) = ls \<and> fst (framed cs) = []"
proof -
  have runs: "runs (concat (map fst cs)) = concat (map (\<lambda>l. [l, []]) ls) @ [[]]"
    using assms by (simp add: runs_terminated)
  have "filter (\<lambda>l. l \<noteq> []) (concat (map (\<lambda>l. [l, []]) ls)) = ls"
    using assms(1) by (induction ls) simp_all
  moreover have "\<forall>r\<in>set (runs (concat (map fst cs))). length r \<le> buffer_length"
    using assms(1) by (auto simp: runs)
  ultimately show ?thesis using framed_whole[of cs]
    by (simp add: complete_lines_def residue_def runs butlast_append)
qed

theorem framing_roundtrip_witness:
  "map fst (snd (framed [(''a,b'' @ [CR], 5), ([LF] @ ''c'', 6), ([CR, LF], 7)])) = [''a,b'', ''c'']"
  using framing_roundtrip[of "[''a,b'', ''c'']" "[(''a,b'' @ [CR], 5), ([LF] @ ''c'', 6), ([CR, LF], 7)]"]
  by (simp add: is_eol_def buffer_length_def)

text \<open>C32: with chunks no larger than the receive buffer, the accumulator never outgrows the buffer between
  chunks, and every line handed on is non-empty, free of CR and LF, shorter than 4096
  characters, and stamped with the receive time of one of the chunks.\<close>

theorem framing_bounded:
  assumes "\<forall>(chunk, t)\<in>set cs. length chunk \<le> buffer_length"
  shows "length (fst (framed cs)) \<le> 2048 \<and>
    (\<forall>(l, t)\<in>set (snd (framed cs)).
       l \<noteq> [] \<and> CR \<notin> set l \<and> LF \<notin> set l \<and> length l < 4096 \<and> t \<in> snd ` set cs)"
  using framed_bounds[OF assms] by (fastforce simp: buffer_length_def is_eol_def)

theorem framing_bounded_witness:
  "length (fst (framed [(''MSG,1'' @ [CR], 5), ([LF] @ ''MS'', 6)])) \<le> 2048"
  using framing_bounded[of "[(''MSG,1'' @ [CR], 5), ([LF] @ ''MS'', 6)]"] by (simp add: buffer_length_def)

text \<open>A line terminator resynchronises the stream: after a chunk that ends in CR or LF, whatever came before
  (an over-long line that was discarded included), the rest is framed as on a fresh
  connection.\<close>

lemma framing_resync:
  assumes "e = CR \<or> e = LF"
  shows "framed (cs @ (chunk @ [e], t) # ds) =
    (fst (framed ds), snd (framed (cs @ [(chunk @ [e], t)])) @ snd (framed ds))"
proof -
  have "is_eol e" using assms by (simp add: is_eol_def)
  then have "residue (acc @ chunk @ [e]) = []" for acc using residue_eol[of e "acc @ chunk"] by simp
  then have "fst (framed (cs @ [(chunk @ [e], t)])) = []" by (simp add: framed_snoc split_beta Let_def)
  then have "framed (cs @ [(chunk @ [e], t)]) = ([], snd (framed (cs @ [(chunk @ [e], t)])) @ [])"
    by (simp add: prod_eq_iff)
  then show ?thesis
    using receive_chunks_append[of log_line "cs @ [(chunk @ [e], t)]" ds "([], [])"]
      receive_chunks_log[of ds "[]" "snd (framed (cs @ [(chunk @ [e], t)]))" "[]"]
    by (simp add: framed_def)
qed

end
