(* ===== verification/Args.thy ===== *)
theory Args
  imports Charconv
begin

text \<open>
  src/src/args.hpp: parsing a TCP port and checking at startup that the credential files can be
  read. access and the text of an errno are arguments.
\<close>

subsection \<open>Definitions\<close>

definition parse_port :: "string \<Rightarrow> u16 option" where
  "parse_port arg =
     (let (rest, ec, v) = from_chars_unsigned (2 ^ 16 - 1) 10 arg 0
      in if ec \<noteq> errc_ok \<or> rest \<noteq> [] \<or> v < 1 then None else Some (word_of_int v))"

fun nat_to_string :: "nat \<Rightarrow> string" where
  "nat_to_string n =
     (if n < 10 then [digit_char (int n)] else nat_to_string (n div 10) @ [digit_char (int (n mod 10))])"

declare nat_to_string.simps [simp del]

definition to_string :: "int \<Rightarrow> string" where
  "to_string i = (if i < 0 then CHR ''-'' # nat_to_string (nat (- i)) else nat_to_string (nat i))"

abbreviation "quote \<equiv> CHR 0x27"

definition credential_error :: "(int \<Rightarrow> string) \<Rightarrow> string \<Rightarrow> string \<Rightarrow> int \<Rightarrow> string" where
  "credential_error message_of label path err =
     (let message = ''Cannot read '';
          message = message @ label;
          message = message @ '' '' @ [quote];
          message = message @ path;
          message = message @ [quote] @ '': '';
          message = message @ message_of err
      in message @ '' (errno '' @ to_string err @ '')'')"

fun check_credentials_readable ::
  "(string \<Rightarrow> int option) \<Rightarrow> (int \<Rightarrow> string) \<Rightarrow> (string \<times> string) list \<Rightarrow> string list" where
  \<comment> \<open>access returns None on success and the errno on failure\<close>
  "check_credentials_readable access message_of [] = []"
| "check_credentials_readable access message_of ((label, path) # rest) =
     (case access path of
        None \<Rightarrow> check_credentials_readable access message_of rest
      | Some err \<Rightarrow> credential_error message_of label path err #
                    check_credentials_readable access message_of rest)"

subsection \<open>Lemmas\<close>

lemma parse_port_eq:
  "parse_port s =
     (if digit_string 10 s \<and> 1 \<le> digits_val 10 s \<and> digits_val 10 s \<le> 65535
      then Some (word_of_int (digits_val 10 s)) else None)"
proof (cases "digit_string 10 s")
  case True
  then show ?thesis by (simp add: parse_port_def from_chars_unsigned_full del: from_chars_unsigned.simps)
next
  case False
  obtain rest ec v where f: "from_chars_unsigned (2 ^ 16 - 1) 10 s 0 = (rest, ec, v)"
    by (metis prod_cases3)
  then have "rest \<noteq> [] \<or> ec = invalid_argument" by (rule from_chars_unsigned_other[OF False])
  then show ?thesis using False unfolding parse_port_def f by auto
qed

lemma nat_to_string_props:
  "digits_val 10 (nat_to_string n) = int n \<and> digit_string 10 (nat_to_string n)"
proof (induction n rule: nat_to_string.induct)
  case (1 n)
  have d: "is_digit 10 (digit_char (int k)) \<and> digit_value (digit_char (int k)) = int k" if "k < 10" for k
    using that digit_value_digit_char[of "int k"] by (simp add: is_digit_def)
  show ?case
  proof (cases "n < 10")
    case True
    then show ?thesis using d[OF True] digits_val_snoc[of 10 "[]"]
      by (subst (1 2) nat_to_string.simps) (simp add: digit_string_def)
  next
    case False
    note ih = 1[OF False]
    have m: "n mod 10 < 10" by simp
    have n: "nat_to_string n = nat_to_string (n div 10) @ [digit_char (int (n mod 10))]"
      using False by (subst nat_to_string.simps) simp
    have "int (n div 10) * 10 + int (n mod 10) = int n" by presburger
    then show ?thesis unfolding n digits_val_snoc using ih d[OF m]
      by (simp add: digit_string_def)
  qed
qed

lemma credentials_filter:
  "check_credentials_readable access message_of creds =
     map (\<lambda>(label, path). credential_error message_of label path (the (access path)))
       (filter (\<lambda>(label, path). access path \<noteq> None) creds)"
  by (induction creds) (auto split: option.splits)

text \<open>C38: a port is accepted exactly when the whole argument is decimal digits with a value of 1 to 65535, and the
  decimal text of every non-zero port is read back as that port.\<close>

theorem parse_port_exact:
  "parse_port s =
     (if digit_string 10 s \<and> 1 \<le> digits_val 10 s \<and> digits_val 10 s \<le> 65535
      then Some (word_of_int (digits_val 10 s)) else None) \<and>
   parse_port (nat_to_string (unat p)) = (if p = 0 then None else Some p)"
proof -
  have lt: "uint p < 65536" using unsigned_less[of p] by simp
  have "1 \<le> int (unat p) \<and> int (unat p) \<le> 65535" if "p \<noteq> 0"
  proof -
    have "uint p \<noteq> 0" using that by (simp add: unsigned_eq_0_iff)
    moreover have "0 \<le> uint p" by (rule uint_ge_0)
    ultimately show ?thesis using lt unfolding uint_nat [symmetric] by linarith
  qed
  then have "parse_port (nat_to_string (unat p)) = (if p = 0 then None else Some p)"
    using nat_to_string_props[of "unat p"] by (auto simp: parse_port_eq)
  then show ?thesis using parse_port_eq by blast
qed

end
