(* ===== verification/Dump1090_Connect.thy ===== *)
theory Dump1090_Connect
  imports Adsb_Prelude
begin

text \<open>
  Reaching the dump1090 server: resolve\_candidates, set\_nonblocking, connect\_candidate,
  connect\_to\_dump1090 and the backoff of reconnect, from src/src/dump1090.cpp and dump1090.hpp.
  The answers of the operating system (the resolver, socket, fcntl, connect, poll, getsockopt, the
  clock) are arguments; the kernel's part of the state is the table of this program's open
  descriptors with their status flags.
\<close>

subsection \<open>Resolving\<close>

datatype address_family = AF_INET | AF_INET6 | AF_other

record 'a sockaddr =
  sa_family :: address_family
  sa_host :: 'a
  sa_port :: u16

record 'a addrinfo =
  ai_family :: address_family
  ai_addr :: "'a sockaddr option" \<comment> \<open>None is the null pointer\<close>
  ai_addrlen :: nat

definition sockaddr_storage_size :: nat where "sockaddr_storage_size = 128"

definition usable :: "'a addrinfo \<Rightarrow> bool" where
  "usable cur = (ai_addr cur \<noteq> None \<and> ai_addrlen cur \<le> sockaddr_storage_size \<and>
     (ai_family cur = AF_INET \<or> ai_family cur = AF_INET6))"

fun addrinfo_loop :: "u16 \<Rightarrow> 'a addrinfo list \<Rightarrow> 'a sockaddr list" where
  "addrinfo_loop nport [] = []"
| "addrinfo_loop nport (cur # rest) =
     (if \<not> usable cur then addrinfo_loop nport rest
      else (case ai_addr cur of
              None \<Rightarrow> addrinfo_loop nport rest
            | Some ss \<Rightarrow> ss\<lparr>sa_port := nport\<rparr> # addrinfo_loop nport rest))"

definition resolve_candidates ::
  "(string \<Rightarrow> 'a option) \<Rightarrow> (string \<Rightarrow> 'a option) \<Rightarrow> (string \<Rightarrow> 'a addrinfo list option) \<Rightarrow> (u16 \<Rightarrow> u16) \<Rightarrow>
     string \<Rightarrow> u16 \<Rightarrow> 'a sockaddr list" where
  \<comment> \<open>inet\_pton for each family, getaddrinfo (None where it fails) and htons are arguments\<close>
  "resolve_candidates pton4 pton6 getaddrinfo htons addr port =
     (case pton4 addr of
        Some ia \<Rightarrow> [\<lparr>sa_family = AF_INET, sa_host = ia, sa_port = htons port\<rparr>]
      | None \<Rightarrow>
          (case pton6 addr of
             Some ia \<Rightarrow> [\<lparr>sa_family = AF_INET6, sa_host = ia, sa_port = htons port\<rparr>]
           | None \<Rightarrow>
               (case getaddrinfo addr of
                  None \<Rightarrow> []
                | Some ai \<Rightarrow> addrinfo_loop (htons port) ai)))"

subsection \<open>One connection attempt\<close>

datatype socket_domain = PF_INET | PF_INET6

datatype sockopt = SO_KEEPALIVE | TCP_KEEPIDLE | TCP_KEEPINTVL | TCP_KEEPCNT

record sock =
  so_domain :: socket_domain
  so_flags :: u32
  so_options :: "(sockopt \<times> int) list" \<comment> \<open>the options set so far\<close>

type_synonym kernel = "int \<Rightarrow> sock option" \<comment> \<open>the open descriptors\<close>

definition socket_domain :: "address_family \<Rightarrow> socket_domain" where
  "socket_domain family = (if family = AF_INET then PF_INET else PF_INET6)"

definition new_socket :: "address_family \<Rightarrow> sock" where
  "new_socket family = \<lparr>so_domain = socket_domain family, so_flags = 0, so_options = []\<rparr>"

definition close_fd :: "int \<Rightarrow> kernel \<Rightarrow> kernel" where
  "close_fd fd k = k(fd := None)"

definition set_nonblocking :: "u32 \<Rightarrow> bool \<Rightarrow> bool \<Rightarrow> int \<Rightarrow> bool \<Rightarrow> kernel \<Rightarrow> bool \<times> kernel" where
  \<comment> \<open>whether F\_GETFL and F\_SETFL succeed are arguments, as is the platform's O\_NONBLOCK\<close>
  "set_nonblocking o_nonblock getfl setfl fd enable k =
     (case k fd of
        None \<Rightarrow> (False, k)
      | Some so \<Rightarrow>
          if \<not> getfl then (False, k)
          else (let flags = (if enable then so_flags so OR o_nonblock else so_flags so AND NOT o_nonblock)
                in if setfl then (True, k(fd \<mapsto> so\<lparr>so_flags := flags\<rparr>)) else (False, k)))"

definition keepalive_idle_s :: int where "keepalive_idle_s = 120"
definition keepalive_interval_s :: int where "keepalive_interval_s = 20"
definition keepalive_count :: int where "keepalive_count = 3"

definition keepalive_options :: "(sockopt \<times> int) list" where
  "keepalive_options =
     [(SO_KEEPALIVE, 1), (TCP_KEEPIDLE, keepalive_idle_s), (TCP_KEEPINTVL, keepalive_interval_s),
      (TCP_KEEPCNT, keepalive_count)]"

definition enable_keepalive :: "(sockopt \<Rightarrow> bool) \<Rightarrow> int \<Rightarrow> kernel \<Rightarrow> kernel" where
  \<comment> \<open>the chain of setsockopt calls ends at the first that fails; the failure is only logged\<close>
  "enable_keepalive setsockopt fd k =
     k(fd := map_option (\<lambda>so. so\<lparr>so_options := so_options so @
                                   takeWhile (\<lambda>(opt, _). setsockopt opt) keepalive_options\<rparr>) (k fd))"

datatype os_result = Os_ok | Os_error int \<comment> \<open>the errno\<close>

datatype poll_result = Poll_ready | Poll_timeout | Poll_error int

record connect_env =
  ce_socket :: int \<comment> \<open>the descriptor socket returns, or -1\<close>
  ce_getfl_on :: bool
  ce_setfl_on :: bool
  ce_connect :: os_result
  ce_deadline_base :: u64 \<comment> \<open>the clock when the deadline is computed\<close>
  ce_polls :: "(u64 \<times> poll_result) list" \<comment> \<open>the clock before each poll, and its answer\<close>
  ce_getsockopt :: "os_result \<times> int" \<comment> \<open>its result, and SO\_ERROR\<close>
  ce_getfl_off :: bool
  ce_setfl_off :: bool
  ce_setsockopt :: "sockopt \<Rightarrow> bool" \<comment> \<open>whether setting a keepalive option succeeds\<close>

definition connect_timeout_ms :: u64 where "connect_timeout_ms = 5000"

definition EINPROGRESS :: int where "EINPROGRESS = 115"
definition EINTR :: int where "EINTR = 4"
definition ETIMEDOUT :: int where "ETIMEDOUT = 110"

definition poll_remaining :: "u64 \<Rightarrow> u64 \<Rightarrow> i32" where
  \<comment> \<open>the timeout for poll, cast to int\<close>
  "poll_remaining deadline now = (if deadline \<le> now then 0 else ucast (deadline - now))"

fun poll_loop :: "u64 \<Rightarrow> (u64 \<times> poll_result) list \<Rightarrow> (u64 \<times> i32) list \<Rightarrow> (poll_result \<times> (u64 \<times> i32) list) option" where
  \<comment> \<open>the retry loop, with the clock and the timeout of each poll; None while every answer so far is EINTR\<close>
  "poll_loop deadline [] waits = None"
| "poll_loop deadline ((now, answer) # rest) waits =
     (let waits = waits @ [(now, poll_remaining deadline now)]
      in if answer = Poll_error EINTR then poll_loop deadline rest waits else Some (answer, waits))"

definition connect_completes :: "connect_env \<Rightarrow> (int + unit) option" where
  \<comment> \<open>connect, and on EINPROGRESS poll and SO\_ERROR: the errno that is reported, or success; None while
    poll is still being retried\<close>
  "connect_completes env =
     (case ce_connect env of
        Os_ok \<Rightarrow> Some (Inr ())
      | Os_error err \<Rightarrow>
          if err \<noteq> EINPROGRESS then Some (Inl err)
          else (case poll_loop (ce_deadline_base env + connect_timeout_ms) (ce_polls env) [] of
                  None \<Rightarrow> None
                | Some (Poll_timeout, _) \<Rightarrow> Some (Inl ETIMEDOUT)
                | Some (Poll_error err, _) \<Rightarrow> Some (Inl err)
                | Some (Poll_ready, _) \<Rightarrow>
                    (case ce_getsockopt env of
                       (Os_error err, so_err) \<Rightarrow> Some (Inl (if so_err \<noteq> 0 then so_err else err))
                     | (Os_ok, so_err) \<Rightarrow> Some (if so_err \<noteq> 0 then Inl so_err else Inr ()))))"

definition connect_candidate :: "u32 \<Rightarrow> address_family \<Rightarrow> connect_env \<Rightarrow> kernel \<Rightarrow> (int \<times> kernel) option" where
  \<comment> \<open>for one resolved address, of the given family\<close>
  "connect_candidate o_nonblock family env k =
     (let new_fd = ce_socket env
      in if new_fd = -1 then Some (-1, k)
         else (let k = k(new_fd \<mapsto> new_socket family);
                   (ok, k) = set_nonblocking o_nonblock (ce_getfl_on env) (ce_setfl_on env) new_fd True k
               in if \<not> ok then Some (-1, close_fd new_fd k)
                  else (case connect_completes env of
                          None \<Rightarrow> None
                        | Some (Inl _) \<Rightarrow> Some (-1, close_fd new_fd k)
                        | Some (Inr _) \<Rightarrow>
                            (let (ok, k) = set_nonblocking o_nonblock (ce_getfl_off env) (ce_setfl_off env)
                                             new_fd False k
                             in if \<not> ok then Some (-1, close_fd new_fd k)
                                else Some (new_fd, enable_keepalive (ce_setsockopt env) new_fd k)))))"

fun connect_first :: "u32 \<Rightarrow> (address_family \<times> connect_env) list \<Rightarrow> kernel \<Rightarrow> (int \<times> kernel) option" where
  \<comment> \<open>the loop over the candidates in connect\_to\_dump1090, each with the answers its attempt gets;
    -1 when none is reachable\<close>
  "connect_first o_nonblock [] k = Some (-1, k)"
| "connect_first o_nonblock ((family, env) # envs) k =
     (case connect_candidate o_nonblock family env k of
        None \<Rightarrow> None
      | Some (new_fd, k) \<Rightarrow> if new_fd \<noteq> -1 then Some (new_fd, k) else connect_first o_nonblock envs k)"

subsection \<open>Backoff\<close>

definition retry_delay_start :: u64 where "retry_delay_start = 1000"
definition retry_delay_cap :: u64 where "retry_delay_cap = 30000"

record backoff =
  bo_last_tried :: u64
  bo_retry_delay :: u64

definition new_backoff :: backoff where
  "new_backoff = \<lparr>bo_last_tried = 0, bo_retry_delay = retry_delay_start\<rparr>"

definition retry_due :: "backoff \<Rightarrow> u64 \<Rightarrow> bool" where
  "retry_due b ts = (bo_retry_delay b < ts - bo_last_tried b)"

definition note_attempt :: "u64 \<Rightarrow> backoff \<Rightarrow> backoff" where
  \<comment> \<open>before the attempt, in reconnect\<close>
  "note_attempt ts b = \<lparr>bo_last_tried = ts, bo_retry_delay = min (bo_retry_delay b * 2) retry_delay_cap\<rparr>"

definition note_success :: "backoff \<Rightarrow> backoff" where
  \<comment> \<open>after a successful connect, in connect\_to\_dump1090\<close>
  "note_success b = b\<lparr>bo_retry_delay := retry_delay_start\<rparr>"

subsection \<open>Lemmas\<close>

lemma set_nonblocking_cases:
  assumes "set_nonblocking nb g s fd enable k = (ok, k')" and "k fd = Some so"
  shows "(\<forall>n. n \<noteq> fd \<longrightarrow> k' n = k n) \<and>
    k' fd = Some (if ok then so\<lparr>so_flags := if enable then so_flags so OR nb else so_flags so AND NOT nb\<rparr> else so)"
  using assms by (auto simp: set_nonblocking_def Let_def split: if_splits)

lemma nonblock_off: "(0 OR nb) AND NOT nb = (0 :: u32)"
  by (rule bit_word_eqI) (simp add: bit_simps)

definition connected_socket :: "address_family \<Rightarrow> connect_env \<Rightarrow> sock" where
  \<comment> \<open>what a successful attempt leaves: of the family's domain, blocking, with keepalive as far as it could be set\<close>
  "connected_socket family env =
     \<lparr>so_domain = socket_domain family, so_flags = 0,
      so_options = takeWhile (\<lambda>(opt, _). ce_setsockopt env opt) keepalive_options\<rparr>"

text \<open>An attempt either yields an open, blocking descriptor or leaves the table as it was.\<close>

lemma connect_candidate_cases:
  assumes "connect_candidate nb family env k = Some (fd, k')" and "k (ce_socket env) = None"
  shows "if fd = -1 then k' = k else fd = ce_socket env \<and> k' = k(fd \<mapsto> connected_socket family env)"
proof (cases "ce_socket env = -1")
  case True
  then show ?thesis using assms(1) by (simp add: connect_candidate_def Let_def)
next
  case False
  define n where "n = ce_socket env"
  define k1 where "k1 = k(n \<mapsto> new_socket family)"
  obtain ok2 k2 where s2: "set_nonblocking nb (ce_getfl_on env) (ce_setfl_on env) n True k1 = (ok2, k2)"
    by (cases "set_nonblocking nb (ce_getfl_on env) (ce_setfl_on env) n True k1")
  obtain ok3 k3 where s3: "set_nonblocking nb (ce_getfl_off env) (ce_setfl_off env) n False k2 = (ok3, k3)"
    by (cases "set_nonblocking nb (ce_getfl_off env) (ce_setfl_off env) n False k2")
  have "k1 n = Some (new_socket family)" by (simp add: k1_def)
  note c2' = set_nonblocking_cases[OF s2 this]
  then have c2: "\<forall>m. m \<noteq> n \<longrightarrow> k2 m = k m"
    "k2 n = Some (if ok2 then (new_socket family)\<lparr>so_flags := 0 OR nb\<rparr> else new_socket family)"
    by (auto simp: k1_def new_socket_def)
  have c3: "\<forall>m. m \<noteq> n \<longrightarrow> k3 m = k m" "ok2 \<Longrightarrow> ok3 \<Longrightarrow> k3 n = Some (new_socket family)"
    using set_nonblocking_cases[OF s3 c2(2)] c2(1) nonblock_off[of nb] by (auto simp: new_socket_def)
  have close: "close_fd n k2 = k" "close_fd n k3 = k"
    using c2(1) c3(1) assms(2) by (auto simp: close_fd_def fun_eq_iff n_def)
  have "connect_candidate nb family env k =
      (if \<not> ok2 then Some (-1, k)
       else (case connect_completes env of None \<Rightarrow> None | Some (Inl _) \<Rightarrow> Some (-1, k)
             | Some (Inr _) \<Rightarrow> if \<not> ok3 then Some (-1, k) else Some (n, enable_keepalive (ce_setsockopt env) n k3)))"
    using False by (simp add: connect_candidate_def Let_def n_def [symmetric] k1_def [symmetric] s2 s3 close
        cong: option.case_cong sum.case_cong)
  moreover have "ok2 \<Longrightarrow> ok3 \<Longrightarrow> enable_keepalive (ce_setsockopt env) n k3 = k(n \<mapsto> connected_socket family env)"
    using c3 by (auto simp: fun_eq_iff enable_keepalive_def connected_socket_def new_socket_def)
  ultimately show ?thesis using assms(1) False
    by (auto simp: n_def [symmetric] split: if_splits option.splits sum.splits)
qed

lemma connect_first_cases:
  assumes "connect_first nb envs k = Some (fd, k')" and "\<forall>e\<in>set envs. k (ce_socket (snd e)) = None"
  shows "if fd = -1 then k' = k
    else (\<exists>e\<in>set envs. fd = ce_socket (snd e) \<and> k' = k(fd \<mapsto> connected_socket (fst e) (snd e)))"
  using assms
proof (induction envs)
  case (Cons e envs)
  obtain family env where e: "e = (family, env)" by (cases e)
  then obtain n k1 where c: "connect_candidate nb family env k = Some (n, k1)"
    using Cons(2) by (auto split: option.splits)
  have "k (ce_socket env) = None" using Cons(3) by (simp add: e)
  note cc = connect_candidate_cases[OF c this]
  show ?case
  proof (cases "n = -1")
    case True
    then have "connect_first nb envs k = Some (fd, k')" using Cons(2) c cc by (simp add: e)
    from Cons(1)[OF this] Cons(3) show ?thesis by (cases "fd = -1") simp_all
  next
    case False
    then have "fd = n" "k' = k1" using Cons(2) c by (simp_all add: e)
    then show ?thesis using False cc by (simp add: e)
  qed
qed simp

lemma poll_loop_waits:
  assumes "poll_loop deadline answers waits = Some (r, waits')"
  shows "\<exists>n\<le>length answers. waits' = waits @ map (\<lambda>(now, _). (now, poll_remaining deadline now)) (take n answers)"
  using assms
proof (induction answers arbitrary: waits)
  case (Cons a answers)
  obtain now answer where a: "a = (now, answer)" by (cases a)
  show ?case
  proof (cases "answer = Poll_error EINTR")
    case True
    then have "poll_loop deadline answers (waits @ [(now, poll_remaining deadline now)]) = Some (r, waits')"
      using Cons(2) by (simp add: a Let_def)
    from Cons(1)[OF this] obtain n where "n \<le> length answers"
      "waits' = (waits @ [(now, poll_remaining deadline now)]) @ map (\<lambda>(now, _). (now, poll_remaining deadline now)) (take n answers)"
      by blast
    then show ?thesis by (intro exI[of _ "Suc n"]) (simp add: a)
  next
    case False
    then show ?thesis using Cons(2) by (intro exI[of _ 1]) (simp add: a Let_def)
  qed
qed simp

lemma poll_loop_some: "poll_loop deadline answers waits = Some (r, waits') \<Longrightarrow> waits' \<noteq> []"
  by (induction answers arbitrary: waits) (auto simp: Let_def split: if_splits)

lemma poll_remaining_bound:
  assumes "uint base + 5000 < 2 ^ 64" and "base \<le> now"
  shows "sint (poll_remaining (base + connect_timeout_ms) now) = max 0 (uint base + 5000 - uint now)"
proof -
  have d: "uint (base + connect_timeout_ms) = uint base + 5000"
    using assms(1) uint_add_lem[of base "connect_timeout_ms"] by (simp add: connect_timeout_ms_def)
  show ?thesis
  proof (cases "base + connect_timeout_ms \<le> now")
    case True
    then show ?thesis using d by (simp add: poll_remaining_def word_le_def)
  next
    case False
    let ?w = "base + connect_timeout_ms - now"
    have w: "uint ?w = uint base + 5000 - uint now"
      using uint_minus_le[of now "base + connect_timeout_ms"] False d by simp
    have le: "uint ?w \<le> 5000" using w assms(2) by (simp add: word_le_def)
    have u: "uint (ucast ?w :: i32) = uint ?w"
      using le by (simp add: unsigned_ucast_eq take_bit_int_eq_self uint_ge_0)
    have "sint (ucast ?w :: i32) = uint ?w"
      using le u signed_take_bit_int_eq_self[of 31 "uint ?w"] uint_ge_0[of ?w] by (simp add: sint_uint)
    then show ?thesis using False w d by (simp add: poll_remaining_def word_le_def)
  qed
qed

lemma addrinfo_loop_filter:
  "addrinfo_loop p ai = map (\<lambda>c. the (ai_addr c)\<lparr>sa_port := p\<rparr>) (filter usable ai)"
  by (induction ai) (auto simp: usable_def split: option.splits)

lemma backoff_after:
  "bo_retry_delay (foldl (\<lambda>b ts. note_attempt ts b) new_backoff tss) =
     (word_of_int (min (1000 * 2 ^ length tss) 30000) :: u64)"
proof (induction tss rule: rev_induct)
  case Nil
  then show ?case by (simp add: new_backoff_def retry_delay_start_def)
next
  case (snoc ts tss)
  define n where "n = length tss"
  have two: "min (word_of_int (min (1000 * 2 ^ n) 30000) * 2) 30000
      = (word_of_int (min (1000 * 2 ^ Suc n) 30000) :: u64)"
  proof (cases "n < 5")
    case True
    then consider "n = 0" | "n = 1" | "n = 2" | "n = 3" | "n = 4" by linarith
    then show ?thesis by cases (simp_all add: min_def)
  next
    case False
    then have "(2::int) ^ 5 \<le> 2 ^ n" by (intro power_increasing) simp_all
    then have "min (1000 * 2 ^ n) 30000 = (30000::int)" "min (1000 * 2 ^ Suc n) 30000 = (30000::int)" by simp_all
    then show ?thesis by (simp only:) (simp add: min_def)
  qed
  show ?case using snoc two by (simp add: note_attempt_def retry_delay_cap_def n_def [symmetric])
qed

subsection \<open>Properties\<close>

text \<open>A literal address is its own single candidate; a name gives every usable result of the resolver, in the
  resolver's order, each with the requested port in network order; a name that does not resolve
  gives none.\<close>

lemma resolve_candidates_exact:
  "resolve_candidates pton4 pton6 getaddrinfo htons addr port =
     (if pton4 addr \<noteq> None then [\<lparr>sa_family = AF_INET, sa_host = the (pton4 addr), sa_port = htons port\<rparr>]
      else if pton6 addr \<noteq> None then [\<lparr>sa_family = AF_INET6, sa_host = the (pton6 addr), sa_port = htons port\<rparr>]
      else map (\<lambda>c. the (ai_addr c)\<lparr>sa_port := htons port\<rparr>)
             (filter usable (case getaddrinfo addr of None \<Rightarrow> [] | Some ai \<Rightarrow> ai)))"
  by (auto simp: resolve_candidates_def addrinfo_loop_filter split: option.splits)

text \<open>C35: connecting never leaks a descriptor and never returns a half-made connection: over all candidates, in
  order, either none is reachable and every socket opened on the way is closed again, or the
  result is the socket of one of them, of the domain of its address, open, back in blocking mode,
  with the keepalive options set as far as the system let it, and nothing else changed.\<close>

theorem connect_leaks_nothing:
  assumes "connect_first nb envs k = Some (fd, k')" and "\<forall>e\<in>set envs. k (ce_socket (snd e)) = None"
  shows "if fd = -1 then k' = k
    else (\<exists>e\<in>set envs. fd = ce_socket (snd e) \<and>
            k' fd = Some \<lparr>so_domain = if fst e = AF_INET then PF_INET else PF_INET6, so_flags = 0,
                          so_options = takeWhile (\<lambda>(opt, _). ce_setsockopt (snd e) opt)
                            [(SO_KEEPALIVE, 1), (TCP_KEEPIDLE, 120), (TCP_KEEPINTVL, 20), (TCP_KEEPCNT, 3)]\<rparr>) \<and>
         (\<forall>n. n \<noteq> fd \<longrightarrow> k' n = k n)"
proof (cases "fd = -1")
  case True
  then show ?thesis using connect_first_cases[OF assms] by simp
next
  case False
  then obtain e where e: "e \<in> set envs" "fd = ce_socket (snd e)" "k' = k(fd \<mapsto> connected_socket (fst e) (snd e))"
    using connect_first_cases[OF assms] by auto
  have "k' fd = Some (connected_socket (fst e) (snd e))" "\<forall>n. n \<noteq> fd \<longrightarrow> k' n = k n" by (simp_all add: e(3))
  moreover note connected_socket_def[of "fst e" "snd e", unfolded socket_domain_def keepalive_options_def
      keepalive_idle_s_def keepalive_interval_s_def keepalive_count_def]
  ultimately show ?thesis using False e(1,2) by (simp only: if_False) blast
qed

definition "refused_env =
  \<lparr>ce_socket = 5, ce_getfl_on = True, ce_setfl_on = True, ce_connect = Os_error 115, ce_deadline_base = 100,
   ce_polls = [(100, Poll_error 4), (200, Poll_ready)], ce_getsockopt = (Os_ok, 111),
   ce_getfl_off = True, ce_setfl_off = True, ce_setsockopt = (\<lambda>_. True)\<rparr>"
definition "good_env =
  \<lparr>ce_socket = 5, ce_getfl_on = True, ce_setfl_on = True, ce_connect = Os_ok, ce_deadline_base = 0,
   ce_polls = [], ce_getsockopt = (Os_ok, 0), ce_getfl_off = True, ce_setfl_off = True, ce_setsockopt = (\<lambda>_. True)\<rparr>"
definition "good_socket = connected_socket AF_INET good_env"

lemmas connect_eval = connect_candidate_def connect_completes_def set_nonblocking_def Let_def
  EINPROGRESS_def EINTR_def enable_keepalive_def new_socket_def connected_socket_def

lemma good_env_connects:
  "connect_first 2048 [(AF_INET, good_env)] (\<lambda>_. None) = Some (5, [5 \<mapsto> good_socket])"
  by (simp add: good_env_def good_socket_def connect_eval)

theorem connect_leaks_nothing_witness:
  "\<exists>k'. connect_first 2048 [(AF_INET6, refused_env), (AF_INET, good_env)] (\<lambda>_. None) = Some (5, k') \<and>
     k' 5 \<noteq> None \<and> k' 6 = None"
proof -
  obtain k' where k': "connect_first 2048 [(AF_INET6, refused_env), (AF_INET, good_env)] (\<lambda>_. None) = Some (5, k')"
    by (simp add: refused_env_def good_env_def connect_eval)
  from connect_leaks_nothing[OF k'] k' show ?thesis by auto
qed

text \<open>C39: no connection attempt can hang in poll: however often a signal interrupts it, each wait is for at most
  five seconds and ends by the deadline that was fixed before the first, the timeout never overflows
  the int it is cast to, and once the deadline has passed poll is only asked without waiting.\<close>

theorem poll_waits_end_by_the_deadline:
  assumes "poll_loop (base + connect_timeout_ms) answers [] = Some (r, waits)"
    and "uint base + 5000 < 2 ^ 64" and "\<forall>(now, _)\<in>set answers. base \<le> now"
  shows "waits \<noteq> [] \<and>
    (\<forall>(now, wait)\<in>set waits. 0 \<le> sint wait \<and> sint wait \<le> 5000 \<and>
       (if uint now \<le> uint base + 5000 then uint now + sint wait = uint base + 5000 else sint wait = 0))"
proof -
  obtain n where n: "waits = map (\<lambda>(now, _). (now, poll_remaining (base + connect_timeout_ms) now)) (take n answers)"
    using poll_loop_waits[OF assms(1)] by auto
  have "waits \<noteq> []" using assms(1) poll_loop_some by blast
  moreover have "0 \<le> sint wait \<and> sint wait \<le> 5000 \<and>
      (if uint now \<le> uint base + 5000 then uint now + sint wait = uint base + 5000 else sint wait = 0)"
    if "(now, wait) \<in> set waits" for now wait
  proof -
    have "wait = poll_remaining (base + connect_timeout_ms) now" "base \<le> now"
      using that assms(3) by (auto simp: n dest: in_set_takeD)
    then show ?thesis using poll_remaining_bound[OF assms(2)] by (auto simp: word_le_def)
  qed
  ultimately show ?thesis by blast
qed

theorem poll_waits_end_by_the_deadline_witness:
  "\<exists>waits. poll_loop (100 + connect_timeout_ms) [(100, Poll_error 4), (5200, Poll_timeout)] [] = Some (Poll_timeout, waits) \<and>
     waits \<noteq> [] \<and> (\<forall>(now, wait)\<in>set waits. sint wait \<le> 5000)"
proof -
  obtain waits where w: "poll_loop (100 + connect_timeout_ms) [(100, Poll_error 4), (5200, Poll_timeout)] []
      = Some (Poll_timeout, waits)"
    by (simp add: EINTR_def)
  from poll_waits_end_by_the_deadline[OF w] w show ?thesis by fastforce
qed

text \<open>C36: the delay between attempts after n failures in a row is 1000 * 2 to the n milliseconds, capped exactly at
  30000, without overflow however long the outage, and a success resets it to 1000.\<close>

theorem backoff_doubles_to_cap:
  "uint (bo_retry_delay (foldl (\<lambda>b ts. note_attempt ts b) new_backoff tss)) = min (1000 * 2 ^ length tss) 30000 \<and>
   bo_retry_delay (note_success (foldl (\<lambda>b ts. note_attempt ts b) new_backoff tss)) = 1000"
proof -
  have "uint (word_of_int (min (1000 * 2 ^ n) 30000) :: u64) = min (1000 * 2 ^ n) 30000" for n
    by (rule uint_word_of_int_bounded) simp_all
  then show ?thesis
    unfolding backoff_after by (simp add: note_success_def retry_delay_start_def)
qed

end
