(* ===== verification/Connection.thy ===== *)
theory Connection
  imports Framing Dump1090_Connect
begin

text \<open>
  The dump1090 connection as two threads sharing one atomic descriptor: the receive thread running
  dump1090::processMessages, and the main thread running the constructor, reconnect and disconnect
  (src/src/dump1090.cpp). A move is what one thread does between two accesses to the shared
  descriptor or calls of the kernel. The server at the other end is the environment: recv blocks until
  bytes of it have arrived, or the connection has ended, or shutdown has ended it. The flag \<^theory_text>\<open>cs_bad\<close> records a recv, shutdown or close
  on a descriptor that is not open.
\<close>

subsection \<open>The threads\<close>

datatype recv_pc = R_none | R_loop | R_recv int | R_dropped | R_close int | R_exited

datatype main_pc = M_idle | M_connect | M_connecting | M_shut int | M_join int | M_close int

record 's conn_sys =
  cs_fd :: int
  cs_kernel :: kernel
  cs_backoff :: backoff
  cs_recv :: recv_pc
  cs_main :: main_pc
  cs_input :: "int \<Rightarrow> string" \<comment> \<open>per descriptor, the bytes that have arrived and are not read yet\<close>
  cs_ended :: "int \<Rightarrow> bool" \<comment> \<open>closed or broken by the server, or shut down: recv does not block\<close>
  cs_acc :: string
  cs_app :: 's
  cs_streams :: "(string \<times> u64) list list" \<comment> \<open>what recv returned, per connection, the newest first\<close>
  cs_bad :: bool

definition use_fd :: "int \<Rightarrow> 's conn_sys \<Rightarrow> 's conn_sys" where
  "use_fd n s = s\<lparr>cs_bad := cs_bad s \<or> cs_kernel s n = None\<rparr>"

definition close_owned :: "int \<Rightarrow> 's conn_sys \<Rightarrow> 's conn_sys" where
  "close_owned n s = (use_fd n s)\<lparr>cs_kernel := close_fd n (cs_kernel s)\<rparr>"

definition log_chunk :: "string \<times> u64 \<Rightarrow> (string \<times> u64) list list \<Rightarrow> (string \<times> u64) list list" where
  "log_chunk c css = (hd css @ [c]) # tl css"

inductive recv_move :: "(u64 \<Rightarrow> string \<Rightarrow> 's \<Rightarrow> 's) \<Rightarrow> 's conn_sys \<Rightarrow> 's conn_sys \<Rightarrow> bool"
  for process :: "u64 \<Rightarrow> string \<Rightarrow> 's \<Rightarrow> 's" where
  r_gone: "cs_recv s = R_loop \<Longrightarrow> cs_fd s = -1 \<Longrightarrow> recv_move process s (s\<lparr>cs_recv := R_exited\<rparr>)"
| r_load: "cs_recv s = R_loop \<Longrightarrow> cs_fd s \<noteq> -1 \<Longrightarrow> recv_move process s (s\<lparr>cs_recv := R_recv (cs_fd s)\<rparr>)"
| r_data: "cs_recv s = R_recv n \<Longrightarrow> cs_input s n = chunk @ rest \<Longrightarrow> chunk \<noteq> [] \<Longrightarrow> length chunk \<le> buffer_length \<Longrightarrow>
    receive_chunk process (chunk, stamp) (cs_acc s, cs_app s) = (acc, app) \<Longrightarrow>
    recv_move process s
      ((use_fd n s)\<lparr>cs_input := (cs_input s)(n := rest), cs_acc := acc, cs_app := app, cs_recv := R_loop,
                    cs_streams := log_chunk (chunk, stamp) (cs_streams s)\<rparr>)"
| r_drop: "cs_recv s = R_recv n \<Longrightarrow> cs_ended s n \<or> cs_kernel s n = None \<Longrightarrow>
    recv_move process s ((use_fd n s)\<lparr>cs_recv := R_dropped\<rparr>)"
| r_exchange: "cs_recv s = R_dropped \<Longrightarrow>
    recv_move process s
      (s\<lparr>cs_fd := -1, cs_recv := (if cs_fd s = -1 then R_exited else R_close (cs_fd s))\<rparr>)"
| r_close: "cs_recv s = R_close n \<Longrightarrow> recv_move process s ((close_owned n s)\<lparr>cs_recv := R_exited\<rparr>)"

text \<open>The dump1090 server: bytes arrive on an open connection, or it ends.\<close>

inductive peer_move :: "'s conn_sys \<Rightarrow> 's conn_sys \<Rightarrow> bool" where
  p_bytes: "cs_kernel s n \<noteq> None \<Longrightarrow> \<not> cs_ended s n \<Longrightarrow>
    peer_move s (s\<lparr>cs_input := (cs_input s)(n := cs_input s n @ bytes)\<rparr>)"
| p_end: "cs_kernel s n \<noteq> None \<Longrightarrow> peer_move s (s\<lparr>cs_ended := (cs_ended s)(n := True)\<rparr>)"

definition joinable_done :: "'s conn_sys \<Rightarrow> bool" where
  \<comment> \<open>join returns: there is no receive thread, or it has left processMessages\<close>
  "joinable_done s = (cs_recv s = R_none \<or> cs_recv s = R_exited)"

inductive main_move :: "u32 \<Rightarrow> 's conn_sys \<Rightarrow> 's conn_sys \<Rightarrow> bool" for o_nonblock :: u32 where
  m_reconnect: "cs_main s = M_idle \<Longrightarrow> cs_fd s = -1 \<Longrightarrow> retry_due (cs_backoff s) ts \<Longrightarrow>
    main_move o_nonblock s (s\<lparr>cs_backoff := note_attempt ts (cs_backoff s), cs_main := M_connect\<rparr>)"
| m_join_old: "cs_main s = M_connect \<Longrightarrow> joinable_done s \<Longrightarrow>
    main_move o_nonblock s (s\<lparr>cs_recv := R_none, cs_main := M_connecting\<rparr>)"
| m_unreachable: "cs_main s = M_connecting \<Longrightarrow> \<forall>e\<in>set envs. cs_kernel s (ce_socket (snd e)) = None \<Longrightarrow>
    connect_first o_nonblock envs (cs_kernel s) = Some (-1, k) \<Longrightarrow>
    main_move o_nonblock s (s\<lparr>cs_kernel := k, cs_main := M_idle\<rparr>)"
| m_connected: "cs_main s = M_connecting \<Longrightarrow> \<forall>e\<in>set envs. cs_kernel s (ce_socket (snd e)) = None \<Longrightarrow>
    connect_first o_nonblock envs (cs_kernel s) = Some (n, k) \<Longrightarrow> n \<noteq> -1 \<Longrightarrow>
    main_move o_nonblock s
      (s\<lparr>cs_kernel := k, cs_fd := n, cs_backoff := note_success (cs_backoff s),
         cs_input := (cs_input s)(n := []), cs_ended := (cs_ended s)(n := False),
         cs_recv := R_loop, cs_acc := [], cs_streams := [] # cs_streams s, cs_main := M_idle\<rparr>)"
| m_disconnect: "cs_main s = M_idle \<Longrightarrow>
    main_move o_nonblock s
      (s\<lparr>cs_fd := -1, cs_main := (if cs_fd s \<noteq> -1 then M_shut (cs_fd s) else M_join (-1))\<rparr>)"
| m_shutdown: "cs_main s = M_shut n \<Longrightarrow>
    main_move o_nonblock s ((use_fd n s)\<lparr>cs_ended := (cs_ended s)(n := True), cs_main := M_join n\<rparr>)"
    \<comment> \<open>where it fails with ENOTCONN, the connection had ended already\<close>
| m_joined: "cs_main s = M_join n \<Longrightarrow> joinable_done s \<Longrightarrow>
    main_move o_nonblock s (s\<lparr>cs_recv := R_none, cs_main := (if n \<noteq> -1 then M_close n else M_idle)\<rparr>)"
| m_close: "cs_main s = M_close n \<Longrightarrow> main_move o_nonblock s ((close_owned n s)\<lparr>cs_main := M_idle\<rparr>)"

definition conn_start :: "'s \<Rightarrow> 's conn_sys" where
  \<comment> \<open>the constructor goes straight to connect\_to\_dump1090\<close>
  "conn_start app =
     \<lparr>cs_fd = -1, cs_kernel = (\<lambda>_. None), cs_backoff = new_backoff, cs_recv = R_none, cs_main = M_connect,
      cs_input = (\<lambda>_. []), cs_ended = (\<lambda>_. False), cs_acc = [], cs_app = app, cs_streams = [], cs_bad = False\<rparr>"

inductive conn_reachable ::
  "(u64 \<Rightarrow> string \<Rightarrow> 's \<Rightarrow> 's) \<Rightarrow> u32 \<Rightarrow> 's \<Rightarrow> 's conn_sys \<Rightarrow> bool"
  for process :: "u64 \<Rightarrow> string \<Rightarrow> 's \<Rightarrow> 's" and o_nonblock :: u32 and app :: 's where
  start: "conn_reachable process o_nonblock app (conn_start app)"
| recv: "conn_reachable process o_nonblock app s \<Longrightarrow> recv_move process s t \<Longrightarrow>
    conn_reachable process o_nonblock app t"
| main: "conn_reachable process o_nonblock app s \<Longrightarrow> main_move o_nonblock s t \<Longrightarrow>
    conn_reachable process o_nonblock app t"
| peer: "conn_reachable process o_nonblock app s \<Longrightarrow> peer_move s t \<Longrightarrow> conn_reachable process o_nonblock app t"

inductive_cases recv_moveE [consumes 1, case_names gone load data drop exchange closing]: "recv_move process s s'"
inductive_cases main_moveE [consumes 1, case_names reconnect join_old unreachable connected disconnect shutdown joined closing]:
  "main_move nb s s'"
inductive_cases peer_moveE [consumes 1, case_names bytes ending]: "peer_move s s'"

subsection \<open>The invariant\<close>

definition opens :: "'s conn_sys \<Rightarrow> int set \<Rightarrow> bool" where
  "opens s fds \<longleftrightarrow> dom (cs_kernel s) = fds"

definition thread_on :: "int \<Rightarrow> recv_pc \<Rightarrow> bool" where
  "thread_on n pc \<longleftrightarrow> pc = R_loop \<or> pc = R_recv n \<or> pc = R_dropped"

definition recv_alone :: "'s conn_sys \<Rightarrow> bool" where
  \<comment> \<open>the receive thread has ended, or has just one descriptor left to close\<close>
  "recv_alone s \<longleftrightarrow>
     (case cs_recv s of
        R_none \<Rightarrow> opens s {} | R_exited \<Rightarrow> opens s {} | R_close n \<Rightarrow> n \<noteq> -1 \<and> opens s {n} | _ \<Rightarrow> False)"

definition conn_ok :: "'s conn_sys \<Rightarrow> bool" where
  "conn_ok s \<longleftrightarrow> \<not> cs_bad s \<and>
     (if cs_fd s \<noteq> -1 then cs_main s = M_idle \<and> opens s {cs_fd s} \<and> thread_on (cs_fd s) (cs_recv s)
      else (case cs_main s of
              M_idle \<Rightarrow> recv_alone s
            | M_connect \<Rightarrow> recv_alone s
            | M_connecting \<Rightarrow> cs_recv s = R_none \<and> opens s {}
            | M_shut n \<Rightarrow> n \<noteq> -1 \<and> opens s {n} \<and> (thread_on n (cs_recv s) \<or> cs_recv s = R_exited)
            | M_join n \<Rightarrow> if n = -1 then recv_alone s
                          else cs_ended s n \<and> opens s {n} \<and> (thread_on n (cs_recv s) \<or> cs_recv s = R_exited)
            | M_close n \<Rightarrow> n \<noteq> -1 \<and> opens s {n} \<and> cs_recv s = R_none))"

lemmas conn_defs = conn_ok_def recv_alone_def thread_on_def opens_def use_fd_def close_owned_def close_fd_def
  joinable_done_def

lemma opensD: "dom k = {n} \<Longrightarrow> k n \<noteq> None"
  by (auto simp: dom_def)

lemma conn_ok_start: "conn_ok (conn_start app)"
  by (simp add: conn_defs conn_start_def)

lemma recv_move_ok:
  assumes "conn_ok s" and "recv_move process s s'"
  shows "conn_ok s'"
  using assms(2)
proof (cases rule: recv_moveE)
  case gone
  then show ?thesis using assms(1) by (auto simp: conn_defs split: main_pc.splits if_splits)
next
  case load
  then show ?thesis using assms(1) by (auto simp: conn_defs split: main_pc.splits if_splits)
next
  case (data n chunk rest stamp acc app)
  have k: "cs_kernel s n \<noteq> None"
    using assms(1) data(2) opensD by (fastforce simp: conn_defs split: main_pc.splits if_splits)
  then show ?thesis using assms(1) data by (auto simp: conn_defs split: main_pc.splits if_splits)
next
  case (drop n)
  have k: "cs_kernel s n \<noteq> None"
    using assms(1) drop(2) opensD by (fastforce simp: conn_defs split: main_pc.splits if_splits)
  then show ?thesis using assms(1) drop by (auto simp: conn_defs split: main_pc.splits if_splits)
next
  case exchange
  then show ?thesis using assms(1) by (auto simp: conn_defs split: main_pc.splits if_splits)
next
  case (closing n)
  have k: "cs_kernel s n \<noteq> None"
    using assms(1) closing(2) opensD by (fastforce simp: conn_defs split: main_pc.splits if_splits)
  then show ?thesis using assms(1) closing by (auto simp: conn_defs split: main_pc.splits if_splits)
qed

lemma main_move_ok:
  assumes "conn_ok s" and "main_move nb s s'"
  shows "conn_ok s'"
  using assms(2)
proof (cases rule: main_moveE)
  case (reconnect ts)
  then show ?thesis using assms(1) by (auto simp: conn_defs split: recv_pc.splits)
next
  case join_old
  then show ?thesis using assms(1) by (auto simp: conn_defs split: recv_pc.splits if_splits)
next
  case (unreachable envs k)
  then show ?thesis using assms(1) connect_first_cases[OF unreachable(4,3)]
    by (auto simp: conn_defs split: if_splits)
next
  case (connected envs n k)
  obtain so where "k = (cs_kernel s)(n \<mapsto> so)" using connect_first_cases[OF connected(4,3)] connected(5) by auto
  moreover have "dom (cs_kernel s) = {}" "\<not> cs_bad s"
    using assms(1) connected(2) by (simp_all add: conn_defs split: if_splits)
  ultimately show ?thesis using connected by (auto simp: conn_defs)
next
  case disconnect
  then show ?thesis using assms(1)
    by (cases "cs_fd s = -1"; cases "cs_recv s") (simp_all add: conn_defs)
next
  case (shutdown n)
  then have "cs_kernel s n \<noteq> None" using assms(1) opensD by (auto simp: conn_defs split: if_splits)
  then show ?thesis using assms(1) shutdown by (auto simp: conn_defs split: if_splits)
next
  case (joined n)
  then show ?thesis using assms(1) by (auto simp: conn_defs split: recv_pc.splits if_splits)
next
  case (closing n)
  then have "cs_kernel s n \<noteq> None" using assms(1) opensD by (auto simp: conn_defs split: if_splits)
  then show ?thesis using assms(1) closing by (auto simp: conn_defs split: if_splits)
qed

lemma peer_move_frame:
  assumes "peer_move s s'"
  shows "cs_fd s' = cs_fd s \<and> cs_kernel s' = cs_kernel s \<and> cs_backoff s' = cs_backoff s \<and> cs_recv s' = cs_recv s \<and>
    cs_main s' = cs_main s \<and> cs_acc s' = cs_acc s \<and> cs_app s' = cs_app s \<and> cs_streams s' = cs_streams s \<and>
    cs_bad s' = cs_bad s \<and> (\<forall>n. cs_ended s n \<longrightarrow> cs_ended s' n)"
  using assms by (cases rule: peer_moveE) simp_all

lemma peer_move_ok:
  assumes "conn_ok s" and "peer_move s s'"
  shows "conn_ok s'"
proof -
  note frame = peer_move_frame[OF assms(2)]
  then have o: "opens s' = opens s" by (intro ext) (simp add: opens_def)
  then have "recv_alone s' = recv_alone s" using frame by (cases "cs_recv s") (simp_all add: recv_alone_def)
  with o show ?thesis using assms(1) frame by (cases "cs_main s") (auto simp: conn_ok_def split: if_splits)
qed

lemma conn_reachable_ok: "conn_reachable process nb app s \<Longrightarrow> conn_ok s"
  by (induction rule: conn_reachable.induct) (auto intro: conn_ok_start dest: recv_move_ok main_move_ok peer_move_ok)

subsection \<open>What the callback has been given\<close>

definition deliver_stream :: "(u64 \<Rightarrow> string \<Rightarrow> 's \<Rightarrow> 's) \<Rightarrow> (string \<times> u64) list \<Rightarrow> 's \<Rightarrow> 's" where
  \<comment> \<open>the chunks of one connection, framed from an empty accumulator\<close>
  "deliver_stream process cs app = snd (receive_chunks process cs ([], app))"

definition streams_ok :: "(u64 \<Rightarrow> string \<Rightarrow> 's \<Rightarrow> 's) \<Rightarrow> 's \<Rightarrow> 's conn_sys \<Rightarrow> bool" where
  "streams_ok process app s \<longleftrightarrow> cs_app s = foldr (deliver_stream process) (cs_streams s) app \<and>
     (case cs_streams s of
        [] \<Rightarrow> cs_recv s = R_none \<or> cs_recv s = R_exited
      | cs # css \<Rightarrow> receive_chunks process cs ([], foldr (deliver_stream process) css app) = (cs_acc s, cs_app s))"

lemma recv_move_streams:
  assumes "streams_ok process app s" and "recv_move process s s'"
  shows "streams_ok process app s'"
  using assms(2)
proof (cases rule: recv_moveE)
  case (data n chunk rest stamp acc app')
  obtain cs css where css: "cs_streams s = cs # css"
    using assms(1) data(2) by (auto simp: streams_ok_def split: list.splits)
  then have "receive_chunks process (cs @ [(chunk, stamp)]) ([], foldr (deliver_stream process) css app) = (acc, app')"
    using assms(1) data(6) by (simp add: streams_ok_def receive_chunks_append)
  then show ?thesis using css by (simp add: data(1) streams_ok_def log_chunk_def use_fd_def deliver_stream_def)
qed (use assms(1) in \<open>auto simp: streams_ok_def use_fd_def close_owned_def split: list.splits\<close>)

lemma main_move_streams:
  assumes "streams_ok process app s" and "main_move nb s s'"
  shows "streams_ok process app s'"
  using assms(2)
proof (cases rule: main_moveE)
  case (connected envs n k)
  then show ?thesis using assms(1) by (simp add: streams_ok_def deliver_stream_def split: list.splits)
qed (use assms(1) in \<open>auto simp: streams_ok_def use_fd_def close_owned_def joinable_done_def split: list.splits\<close>)

lemma peer_move_streams: "streams_ok process app s \<Longrightarrow> peer_move s s' \<Longrightarrow> streams_ok process app s'"
  by (erule peer_moveE) (simp_all add: streams_ok_def split: list.splits)

lemma conn_reachable_streams: "conn_reachable process nb app s \<Longrightarrow> streams_ok process app s"
proof (induction rule: conn_reachable.induct)
  case start
  show ?case by (simp add: streams_ok_def conn_start_def)
qed (auto dest: recv_move_streams main_move_streams peer_move_streams)

subsection \<open>Disconnecting\<close>

definition disconnecting :: "'s conn_sys \<Rightarrow> bool" where
  "disconnecting s = (case cs_main s of M_shut _ \<Rightarrow> True | M_join _ \<Rightarrow> True | M_close _ \<Rightarrow> True | _ \<Rightarrow> False)"

definition quiet :: "'s conn_sys \<Rightarrow> bool" where
  \<comment> \<open>disconnected: no receive thread and no descriptor\<close>
  "quiet s \<longleftrightarrow> cs_main s = M_idle \<and> cs_fd s = -1 \<and> cs_recv s = R_none \<and> cs_kernel s = (\<lambda>_. None)"

text \<open>Runs while the main thread is in disconnect: the moves of both threads, counted, and of the server.\<close>

inductive closing_run ::
  "(u64 \<Rightarrow> string \<Rightarrow> 's \<Rightarrow> 's) \<Rightarrow> u32 \<Rightarrow> nat \<Rightarrow> 's conn_sys \<Rightarrow> 's conn_sys \<Rightarrow> bool"
  for process :: "u64 \<Rightarrow> string \<Rightarrow> 's \<Rightarrow> 's" and o_nonblock :: u32 where
  here: "closing_run process o_nonblock 0 s s"
| recv: "closing_run process o_nonblock n s t \<Longrightarrow> disconnecting t \<Longrightarrow> recv_move process t u \<Longrightarrow>
    closing_run process o_nonblock (Suc n) s u"
| main: "closing_run process o_nonblock n s t \<Longrightarrow> disconnecting t \<Longrightarrow> main_move o_nonblock t u \<Longrightarrow>
    closing_run process o_nonblock (Suc n) s u"
| peer: "closing_run process o_nonblock n s t \<Longrightarrow> peer_move t u \<Longrightarrow> closing_run process o_nonblock n s u"

definition close_work :: "'s conn_sys \<Rightarrow> nat" where
  "close_work s =
     (case cs_recv s of R_recv _ \<Rightarrow> 3 | R_dropped \<Rightarrow> 2 | R_loop \<Rightarrow> 1 | R_close _ \<Rightarrow> 1 | _ \<Rightarrow> 0) +
     (case cs_main s of M_shut _ \<Rightarrow> 3 | M_join _ \<Rightarrow> 2 | M_close _ \<Rightarrow> 1 | _ \<Rightarrow> 0)"

lemma disconnecting_fd: "conn_ok s \<Longrightarrow> disconnecting s \<Longrightarrow> cs_fd s = -1"
  by (auto simp: conn_ok_def disconnecting_def split: if_splits)

lemma closing_recv:
  assumes "conn_ok s" and "disconnecting s" and "recv_move process s s'"
  shows "disconnecting s' \<and> close_work s' < close_work s"
proof -
  have fd: "cs_fd s = -1" using disconnecting_fd assms by blast
  show ?thesis using assms(3)
    by (cases rule: recv_moveE)
      (use assms(2) fd in \<open>auto simp: disconnecting_def close_work_def use_fd_def close_owned_def\<close>)
qed

lemma closing_main:
  assumes "conn_ok s" and "disconnecting s" and "main_move nb s s'"
  shows "(disconnecting s' \<or> quiet s') \<and> close_work s' < close_work s"
proof -
  have fd: "cs_fd s = -1" using disconnecting_fd assms by blast
  show ?thesis using assms(3)
  proof (cases rule: main_moveE)
    case (shutdown n)
    then show ?thesis by (simp add: disconnecting_def close_work_def use_fd_def)
  next
    case (joined n)
    have "close_work s' < close_work s" using joined by (auto simp: close_work_def joinable_done_def)
    moreover have "n = -1 \<Longrightarrow> cs_kernel s = (\<lambda>_. None)"
      using assms(1) joined fd by (auto simp: conn_defs fun_eq_iff split: recv_pc.splits)
    ultimately show ?thesis using joined fd by (auto simp: disconnecting_def quiet_def)
  next
    case (closing n)
    have "dom (cs_kernel s) = {n}" using assms(1) closing fd by (simp add: conn_defs)
    then have "(cs_kernel s)(n := None) = (\<lambda>_. None)" by (auto simp: fun_eq_iff dom_def)
    moreover have "cs_recv s = R_none" using assms(1) closing fd by (simp add: conn_defs)
    ultimately show ?thesis
      using closing fd by (simp add: close_work_def quiet_def close_owned_def use_fd_def close_fd_def)
  qed (use assms(2) in \<open>simp_all add: disconnecting_def\<close>)
qed

lemma closing_run_ok:
  assumes "closing_run process nb n s s'" and "conn_ok s" and "disconnecting s"
  shows "conn_ok s' \<and> (disconnecting s' \<or> quiet s') \<and> n + close_work s' \<le> close_work s"
  using assms
proof (induction rule: closing_run.induct)
  case (recv n s t u)
  then show ?case using recv_move_ok[of t process u] closing_recv[of t process u] by fastforce
next
  case (main n s t u)
  then show ?case using main_move_ok[of t nb u] closing_main[of t nb u] by fastforce
next
  case (peer n s t u)
  then show ?case using peer_move_ok[of t u] peer_move_frame[of t u]
    by (simp add: disconnecting_def quiet_def close_work_def)
qed simp

text \<open>A receive thread that is joined is not blocked: shutdown has ended its connection.\<close>

lemma recv_can_end:
  assumes "\<not> joinable_done s" and "cs_fd s = -1" and "\<And>n. cs_recv s = R_recv n \<Longrightarrow> cs_ended s n"
  shows "\<exists>s'. recv_move process s s' \<and> cs_app s' = cs_app s"
proof (cases "cs_recv s")
  case R_loop
  show ?thesis by (rule exI, rule conjI, rule recv_move.r_gone[OF R_loop assms(2)]) simp
next
  case (R_recv n)
  have "cs_ended s n \<or> cs_kernel s n = None" using assms(3)[OF R_recv] ..
  show ?thesis by (rule exI, rule conjI, rule recv_move.r_drop[OF R_recv]) (fact, simp add: use_fd_def)
next
  case R_dropped
  show ?thesis by (rule exI, rule conjI, rule recv_move.r_exchange[OF R_dropped]) simp
next
  case (R_close n)
  show ?thesis by (rule exI, rule conjI, rule recv_move.r_close[OF R_close]) (simp add: close_owned_def use_fd_def)
qed (use assms(1) in \<open>simp_all add: joinable_done_def\<close>)

lemma closing_unblocked:
  assumes "conn_ok s" and "disconnecting s" and "\<not> joinable_done s"
  shows "(\<exists>n. cs_main s = M_shut n) \<or> (\<forall>n. cs_recv s = R_recv n \<longrightarrow> cs_ended s n)"
  using assms disconnecting_fd[OF assms(1,2)]
  by (auto simp: conn_defs disconnecting_def split: main_pc.splits if_splits)

lemma main_can_disconnect:
  "joinable_done s \<or> (\<exists>n. cs_main s = M_shut n) \<Longrightarrow> disconnecting s \<Longrightarrow> \<exists>s'. main_move nb s s'"
  by (cases "cs_main s") (auto simp: disconnecting_def intro: main_move.intros)

lemma closing_progress:
  assumes "conn_ok s" and "disconnecting s"
  shows "\<exists>s'. recv_move process s s' \<or> main_move nb s s'"
proof (cases "joinable_done s \<or> (\<exists>n. cs_main s = M_shut n)")
  case True
  then show ?thesis using main_can_disconnect assms(2) by blast
next
  case False
  then have "cs_recv s = R_recv n \<Longrightarrow> cs_ended s n" for n using closing_unblocked[OF assms] by blast
  then show ?thesis using recv_can_end[of s process] False disconnecting_fd[OF assms] by blast
qed

subsection \<open>Properties\<close>

text \<open>C14: across every interleaving of the receive thread with reconnects and disconnects, each descriptor has one
  owner: no recv, shutdown or close ever hits a descriptor that is not open, at most one is open
  between connection attempts, and none is left open once the connection is down and the receive
  thread has gone.\<close>

theorem descriptor_ownership:
  assumes "conn_reachable process nb app s"
  shows "\<not> cs_bad s \<and> (\<exists>n. dom (cs_kernel s) \<subseteq> {n}) \<and>
    (cs_main s \<noteq> M_idle \<or> cs_fd s \<noteq> -1 \<or> \<not> joinable_done s \<or> cs_kernel s = (\<lambda>_. None))"
proof -
  have ok: "conn_ok s" using conn_reachable_ok[OF assms] .
  have "\<exists>n. dom (cs_kernel s) \<subseteq> {n}"
    using ok by (auto simp: conn_defs split: if_splits main_pc.splits recv_pc.splits)
  moreover have "cs_main s = M_idle \<Longrightarrow> cs_fd s = -1 \<Longrightarrow> joinable_done s \<Longrightarrow> cs_kernel s = (\<lambda>_. None)"
    using ok by (auto simp: conn_defs fun_eq_iff split: recv_pc.splits)
  ultimately show ?thesis using ok by (auto simp: conn_ok_def)
qed

text \<open>A disconnect always comes to an end: from any point of it, whatever the receive thread was doing, some
  thread can move until the receive thread is joined and the descriptor closed, and that takes at
  most six moves.\<close>

lemma disconnect_terminates:
  assumes "conn_reachable process nb app s" and "disconnecting s" and "closing_run process nb n s s'"
  shows "n \<le> 6 \<and> (quiet s' \<or> (\<exists>s''. recv_move process s' s'' \<or> main_move nb s' s''))"
proof -
  have ok: "conn_ok s" using conn_reachable_ok[OF assms(1)] .
  note run = closing_run_ok[OF assms(3) ok assms(2)]
  have "close_work s \<le> 6" by (simp add: close_work_def split: recv_pc.splits main_pc.splits)
  then show ?thesis using run closing_progress[of s' process nb] by auto
qed

text \<open>C16: whatever the connects, drops and disconnects, the callback has been given exactly the framed lines of what
  each connection received, connection after connection, and a connection starts with an empty
  accumulator: the unterminated end of one connection never joins the beginning of the next.\<close>

theorem connections_are_framed_apart:
  assumes "conn_reachable process nb app s"
  shows "cs_app s = foldr (deliver_stream process) (cs_streams s) app"
  using conn_reachable_streams[OF assms] by (simp add: streams_ok_def)

subsection \<open>A concrete run\<close>

definition "up = (conn_start [] :: string list conn_sys)\<lparr>cs_kernel := [5 \<mapsto> good_socket], cs_fd := 5, cs_recv := R_loop, cs_streams := [[]], cs_main := M_idle\<rparr>"
definition "going_down = up\<lparr>cs_fd := -1, cs_main := M_shut 5\<rparr>"

abbreviation "collect \<equiv> \<lambda>(t::u64) (l::string) ls. ls @ [l]"

lemma up_reachable: "conn_reachable collect 2048 [] up"
proof -
  let ?a = "conn_start [] :: string list conn_sys"
  have a: "conn_reachable collect 2048 [] ?a" by (rule conn_reachable.start)
  have "main_move 2048 ?a (?a\<lparr>cs_recv := R_none, cs_main := M_connecting\<rparr>)"
    by (rule main_move.m_join_old) (simp_all add: conn_start_def joinable_done_def)
  then have b: "conn_reachable collect 2048 [] (?a\<lparr>cs_recv := R_none, cs_main := M_connecting\<rparr>)"
    by (rule conn_reachable.main[OF a])
  have "main_move 2048 (?a\<lparr>cs_recv := R_none, cs_main := M_connecting\<rparr>) up"
    using main_move.m_connected[of "?a\<lparr>cs_recv := R_none, cs_main := M_connecting\<rparr>" "[(AF_INET, good_env)]" 2048 5 "[5 \<mapsto> good_socket]"] good_env_connects
    by (simp add: conn_start_def up_def new_backoff_def note_success_def retry_delay_start_def)
  then show ?thesis by (rule conn_reachable.main[OF b])
qed

lemma going_down_reachable: "conn_reachable collect 2048 [] going_down"
proof -
  have "main_move 2048 up going_down"
    using main_move.m_disconnect[of up 2048] by (simp add: up_def going_down_def conn_start_def)
  then show ?thesis by (rule conn_reachable.main[OF up_reachable])
qed

text \<open>A line and the beginning of another arrive.\<close>

definition "bytes_sent = ''a'' @ [LF] @ ''b''"
definition "heard = up\<lparr>cs_acc := ''b'', cs_app := [''a''], cs_streams := [[(bytes_sent, 7)]]\<rparr>"

lemma heard_reachable: "conn_reachable collect 2048 [] heard"
proof -
  let ?r = "up\<lparr>cs_recv := R_recv 5\<rparr>"
  let ?p = "?r\<lparr>cs_input := (\<lambda>_. [])(5 := bytes_sent)\<rparr>"
  have "recv_move collect up ?r" using recv_move.r_load[of up collect] by (simp add: up_def)
  then have r: "conn_reachable collect 2048 [] ?r" by (rule conn_reachable.recv[OF up_reachable])
  have "peer_move ?r ?p" using peer_move.p_bytes[of ?r 5 bytes_sent] by (simp add: up_def conn_start_def)
  then have p: "conn_reachable collect 2048 [] ?p" by (rule conn_reachable.peer[OF r])
  have "receive_chunk collect (bytes_sent, 7) ([], []) = (''b'', [''a''])" by code_simp
  then have "recv_move collect ?p heard"
    using recv_move.r_data[of ?p 5 bytes_sent "[]" collect 7 "''b''" "[''a'']"]
    by (simp add: up_def heard_def conn_start_def use_fd_def log_chunk_def buffer_length_def bytes_sent_def)
  then show ?thesis by (rule conn_reachable.recv[OF p])
qed

theorem descriptor_ownership_witness: "\<exists>n. dom (cs_kernel going_down) \<subseteq> {n} \<and> \<not> cs_bad going_down"
  using descriptor_ownership[OF going_down_reachable] by blast

theorem connections_are_framed_apart_witness:
  "cs_streams heard = [[(bytes_sent, 7)]] \<and> foldr (deliver_stream collect) [[(bytes_sent, 7)]] [] = [''a'']"
  using connections_are_framed_apart[OF heard_reachable] by (simp add: heard_def up_def)

end
