(* ===== verification/Fss_Reporter.thy ===== *)
theory Fss_Reporter
  imports Reporting_Worker
begin

text \<open>
  The concrete reporter: src/src/fss-reporter.hpp and fss-reporter.cpp. The base classes and the
  messages come from the flight-safety-system library: a connection, its reconnect and what the base
  client does with a server or a message are arguments.
\<close>

record position_report_message =
  fm_latitude :: double
  fm_longitude :: double
  fm_report :: wire_report

definition reportAircraft :: "(position_report_message \<Rightarrow> 'c \<Rightarrow> 'c) \<Rightarrow> wire_report \<Rightarrow> 'c \<Rightarrow> 'c" where
  \<comment> \<open>build the message from the point's coordinates and the other arguments, and send it to all\<close>
  "reportAircraft sendMsgAll r client =
     sendMsgAll \<lparr>fm_latitude = latitude (wr_position r), fm_longitude = longitude (wr_position r), fm_report = r\<rparr>
       client"

record fss_reporter_server =
  fs_address :: string
  fs_port :: u16
  fs_ca :: string
  fs_private_key :: string
  fs_public_key :: string

record 'c fss_reporter_client =
  ca_file :: string
  private_key_file :: string
  public_key_file :: string
  fc_base :: 'c \<comment> \<open>the state of the base class\<close>

definition connectTo ::
  "(fss_reporter_server \<Rightarrow> fss_reporter_server) \<Rightarrow> (fss_reporter_server \<Rightarrow> 'c \<Rightarrow> 'c) \<Rightarrow>
     string \<Rightarrow> u16 \<Rightarrow> bool \<Rightarrow> 'c fss_reporter_client \<Rightarrow> 'c fss_reporter_client" where
  "connectTo reconnect addServer t_address t_port t_connect client =
     (let server = \<lparr>fs_address = t_address, fs_port = t_port, fs_ca = ca_file client,
                    fs_private_key = private_key_file client, fs_public_key = public_key_file client\<rparr>;
          server = (if t_connect then reconnect server else server)
      in client\<lparr>fc_base := addServer server (fc_base client)\<rparr>)"

definition new_fss_reporter_client ::
  "(fss_reporter_server \<Rightarrow> fss_reporter_server) \<Rightarrow> (fss_reporter_server \<Rightarrow> 'c \<Rightarrow> 'c) \<Rightarrow> 'c \<Rightarrow>
     string \<Rightarrow> u16 \<Rightarrow> string \<Rightarrow> string \<Rightarrow> string \<Rightarrow> 'c fss_reporter_client" where
  "new_fss_reporter_client reconnect addServer base t_address t_port t_ca t_private_key t_public_key =
     connectTo reconnect addServer t_address t_port False
       \<lparr>ca_file = t_ca, private_key_file = t_private_key, public_key_file = t_public_key, fc_base = base\<rparr>"

definition sendIdentify :: "('conn \<Rightarrow> 's \<Rightarrow> 's) \<Rightarrow> 'conn option \<Rightarrow> 's \<Rightarrow> 's" where
  \<comment> \<open>sending the non-aircraft identity, when there is a connection\<close>
  "sendIdentify sendIdentity connection s = (case connection of None \<Rightarrow> s | Some c \<Rightarrow> sendIdentity c s)"

text \<open>Construction registers exactly one server, with the credentials given, without connecting.\<close>

lemma new_client_server:
  "fc_base (new_fss_reporter_client reconnect addServer base addr port ca priv pub) =
     addServer \<lparr>fs_address = addr, fs_port = port, fs_ca = ca, fs_private_key = priv, fs_public_key = pub\<rparr> base"
  by (simp add: new_fss_reporter_client_def connectTo_def)

end
