(* ===== verification/Main_Loop.thy ===== *)
theory Main_Loop
  imports Registry_History Monotonic_Time Reporting_Worker Framing Args Connection Fss_Reporter
begin

text \<open>
  The program: src/src/main.cpp with src/src/shutdown\_signal.cpp. The callback that joins the
  registry to the report queue, the stale-aircraft sweep, the checks on the command line, and the
  main loop with its shutdown order. The global registry and queue are the state \<^theory_text>\<open>app\<close>;
  None is what follows a read or a conversion that is undefined behaviour.
\<close>

subsection \<open>The callback\<close>

definition report_queue_capacity :: nat where "report_queue_capacity = 4096"

record app =
  app_registry :: aircraft_registry
  app_queue :: report_queue
  app_reported_evictions :: u64

definition handle_adsb_data :: "ADSBData \<Rightarrow> app option \<Rightarrow> app option" where
  "handle_adsb_data adsb st =
     Option.bind st (\<lambda>a.
       case registry_fold (app_registry a) adsb of
         None \<Rightarrow> None
       | Some (reg, None) \<Rightarrow> Some (a\<lparr>app_registry := reg\<rparr>)
       | Some (reg, Some report) \<Rightarrow>
           Some (a\<lparr>app_registry := reg,
                   app_queue := rq_push (pr_icao_address report)
                     \<lparr>prep_report = report, prep_received = last_seen adsb\<rparr> (app_queue a)\<rparr>))"

subsection \<open>The sweep\<close>

definition stale_window_ms :: u64 where "stale_window_ms = 10 * 60 * 1000"

datatype log_line = Evicting u32 | At_capacity u64 u64

definition evict_stale_aircraft :: "u64 \<Rightarrow> app \<Rightarrow> app \<times> log_line list" where
  "evict_stale_aircraft now a =
     (let (reg, addresses) = evict_stale (app_registry a) now stale_window_ms;
          total = capacity_evictions reg;
          a = a\<lparr>app_registry := reg\<rparr>;
          lines = map Evicting addresses
      in if app_reported_evictions a < total
         then (a\<lparr>app_reported_evictions := total\<rparr>,
               lines @ [At_capacity (total - app_reported_evictions a) total])
         else (a, lines))"

subsection \<open>Starting\<close>

record config =
  cfg_dump1090_host :: string
  cfg_dump1090_port :: u16
  cfg_fss_host :: string
  cfg_fss_port :: u16
  cfg_ca :: string
  cfg_private_key :: string
  cfg_public_key :: string

datatype startup = Exits int string string \<comment> \<open>status, standard output, standard error\<close> | Starts config

abbreviation "newline \<equiv> [CHR 0x0A]"

definition usage_args :: string where
  "usage_args = '' dump1090-host dump1090-port fss-host fss-port ca.public.key private.key public.key''"

definition invalid_port :: "string \<Rightarrow> string \<Rightarrow> string" where
  "invalid_port which arg = ''Invalid '' @ which @ '' port '' @ [quote] @ arg @ [quote] @ '' (must be 1-65535)'' @ newline"

definition start_main ::
  "(string \<Rightarrow> int option) \<Rightarrow> (int \<Rightarrow> string) \<Rightarrow> string \<Rightarrow> string list \<Rightarrow> startup" where
  \<comment> \<open>access, the text of an errno and PACKAGE\_VERSION are arguments\<close>
  "start_main access message_of version argv =
     (let usage = ''Usage: '' @ concat (take 1 argv) @ usage_args @ newline
      in if length argv = 2 \<and> (argv ! 1 = ''--help'' \<or> argv ! 1 = ''-h'') then Exits 0 usage []
         else if length argv = 2 \<and> argv ! 1 = ''--version''
         then Exits 0 (''fss-adsb '' @ version @ newline) []
         else if length argv \<noteq> 8 then Exits 1 [] usage
         else (case parse_port (argv ! 2) of
                 None \<Rightarrow> Exits 1 [] (invalid_port ''dump1090'' (argv ! 2))
               | Some dump1090_port \<Rightarrow>
                   (case parse_port (argv ! 4) of
                      None \<Rightarrow> Exits 1 [] (invalid_port ''FSS'' (argv ! 4))
                    | Some fss_port \<Rightarrow>
                        (let errors = check_credentials_readable access message_of
                               [(''CA public key'', argv ! 5), (''client private key'', argv ! 6),
                                (''client public key'', argv ! 7)]
                         in if errors \<noteq> [] then Exits 1 [] (concat (map (\<lambda>e. e @ newline) errors))
                            else Starts \<lparr>cfg_dump1090_host = argv ! 1, cfg_dump1090_port = dump1090_port,
                                         cfg_fss_host = argv ! 3, cfg_fss_port = fss_port, cfg_ca = argv ! 5,
                                         cfg_private_key = argv ! 6, cfg_public_key = argv ! 7\<rparr>))))"

definition start_app :: "app option" where
  \<comment> \<open>the global registry, and the queue made in main\<close>
  "start_app =
     (case (new_registry default_registry_capacity, new_queue report_queue_capacity) of
        (Some reg, Some q) \<Rightarrow> Some \<lparr>app_registry = reg, app_queue = q, app_reported_evictions = 0\<rparr>
      | _ \<Rightarrow> None)"

subsection \<open>The loop\<close>

datatype main_action = Sleep | Dumper_reconnect | Fss_reconnect | Evict | Dumper_disconnect | Worker_stop

definition evict_interval_secs :: nat where "evict_interval_secs = 60"

fun main_loop :: "bool list \<Rightarrow> nat \<Rightarrow> main_action list" where
  \<comment> \<open>the values of the running flag the loop condition reads, and seconds\_elapsed\<close>
  "main_loop [] seconds_elapsed = []"
| "main_loop (running # later) seconds_elapsed =
     (if \<not> running then [Dumper_disconnect, Worker_stop]
      else Sleep # Dumper_reconnect # Fss_reconnect #
        (if evict_interval_secs \<le> seconds_elapsed + 1 then Evict # main_loop later 0
         else main_loop later (seconds_elapsed + 1)))"

definition sigIntHandler :: "int \<Rightarrow> int \<Rightarrow> int" where
  \<comment> \<open>the new value of the running flag\<close>
  "sigIntHandler signum running = 0"

subsection \<open>Everything that is queued is well formed\<close>

definition report_ok :: "u32 \<Rightarrow> pending_report \<Rightarrow> bool" where
  "report_ok k item \<longleftrightarrow>
     (let p = prep_report item
      in pr_icao_address p = k \<and> 1 \<le> uint k \<and> uint k \<le> 0xFFFFFF \<and> valid (pr_position p) \<and>
         in_range (latitude (pr_position p)) (- 90) 90 \<and> in_range (longitude (pr_position p)) (- 180) 180 \<and>
         pr_heading p \<le> 36000 \<and> length (pr_callsign p) \<le> 8 \<and> squawk_code (pr_squawk p) \<and> bit (pr_flags p) 0)"

definition app_ok :: "app \<Rightarrow> bool" where
  "app_ok a \<longleftrightarrow> registry_ok (app_registry a) \<and> rq_ok (app_queue a) \<and>
     (\<forall>(k, item)\<in>set (rq_contents (app_queue a)). report_ok k item)"

lemma flags_coords: "bit (report_flags r t) 0"
  by (simp add: report_flags_def bit_or_iff flag_bits)

lemma built_report_ok:
  assumes "record_ok r" and "ranges_ok m" and "build_report r m = Some (Some p)"
    and "1 \<le> uint (ICAOAddress r)" and "uint (ICAOAddress r) \<le> 0xFFFFFF"
  shows "report_ok (ICAOAddress r) \<lparr>prep_report = p, prep_received = t\<rparr>" and "pr_icao_address p = ICAOAddress r"
proof -
  have v: "valid (pos m)" using assms(3) by (auto simp: build_report_def split: if_splits)
  have len: "length (callsign r) \<le> 8" using assms(1) by (auto simp: record_ok_def split: if_splits)
  have sq: "squawk_code (squawk r)" using assms(1) by (simp add: record_ok_def ranges_ok_def)
  have pos: "in_range (latitude (pos m)) (- 90) 90" "in_range (longitude (pos m)) (- 180) 180"
    using assms(2) by (simp_all add: ranges_ok_def)
  obtain cdeg hor ver where c: "deg_to_centideg (heading r) = Some cdeg" "cdeg \<le> 36000"
    "knots_to_cm_per_s (speed r) = Some hor" "ft_per_min_to_cm_per_s (vert_vel r) = Some ver"
    using report_conversions[OF assms(1)] by blast
  have p: "p = \<lparr>pr_position = pos m, pr_altitude = altitude r, pr_heading = cdeg,
      pr_hor_vel = hor, pr_ver_vel = ver, pr_icao_address = ICAOAddress r,
      pr_callsign = callsign r, pr_squawk = squawk r, pr_flags = report_flags r (last_seen m)\<rparr>"
    using assms(3) v c by (simp add: build_report_def)
  show "report_ok (ICAOAddress r) \<lparr>prep_report = p, prep_received = t\<rparr>" "pr_icao_address p = ICAOAddress r"
    using v len sq pos c(2) assms(4,5) flags_coords by (simp_all add: p report_ok_def)
qed

lemma fifo_push_set: "set (fifo_push cap k v xs) \<subseteq> insert (k, v) (set xs)"
  by (cases xs) (auto simp: fifo_push_def fifo_update_def split: if_splits)

lemma handle_adsb_data_ok:
  assumes "app_ok a" and "ranges_ok m" and "1 \<le> uint (ICAOAddress m)" and "uint (ICAOAddress m) \<le> 0xFFFFFF"
  shows "\<exists>a'. handle_adsb_data m (Some a) = Some a' \<and> app_ok a' \<and>
    reg_capacity (app_registry a') = reg_capacity (app_registry a) \<and>
    rq_capacity (app_queue a') = rq_capacity (app_queue a)"
proof -
  let ?k = "ICAOAddress m"
  have reg: "registry_ok (app_registry a)" and q: "rq_ok (app_queue a)" using assms(1) by (simp_all add: app_ok_def)
  from fold_defined[OF reg assms(2)] obtain old report reg' where
    at: "aircraft_at (admit ?k (app_registry a)) ?k = Some old" and
    b: "build_report (update_record (setLastSeen (last_seen m) old) m) m = Some report" and
    f: "registry_fold (app_registry a) m = Some (reg', report)"
    by blast
  note reg' = fold_keeps_ok[OF reg assms(2) f]
  let ?r = "update_record (setLastSeen (last_seen m) old) m"
  have adm: "registry_ok (admit ?k (app_registry a))" using admit_ok[OF reg] by blast
  have r: "record_ok ?r" "ICAOAddress ?r = ?k"
    using registry_ok_at[OF adm at] assms(2) by (simp_all add: record_ok_update record_ok_setters)
  show ?thesis
  proof (cases report)
    case None
    then show ?thesis using f reg' assms(1) by (simp add: handle_adsb_data_def app_ok_def)
  next
    case (Some p)
    let ?item = "\<lparr>prep_report = p, prep_received = last_seen m\<rparr>"
    have p: "report_ok ?k ?item" "pr_icao_address p = ?k"
      using built_report_ok[OF r(1) assms(2), of p] b Some r(2) assms(3,4) by simp_all
    note push = rq.push_law[OF q, of ?k ?item]
    have "\<forall>(k, i)\<in>set (rq_contents (rq_push ?k ?item (app_queue a))). report_ok k i"
      using push fifo_push_set[of "rq_capacity (app_queue a)" ?k ?item "rq_contents (app_queue a)"] p(1) assms(1)
      by (auto simp: app_ok_def)
    then show ?thesis using f Some p(2) reg' push
      by (simp add: handle_adsb_data_def app_ok_def)
  qed
qed

lemma processed_ok:
  assumes "16 \<le> lw" and "app_ok a"
  shows "\<exists>a'. processMessage lw (Some handle_adsb_data) line t (Some a) = Some a' \<and> app_ok a' \<and>
    reg_capacity (app_registry a') = reg_capacity (app_registry a) \<and>
    rq_capacity (app_queue a') = rq_capacity (app_queue a)"
proof (cases "parse_message lw line t")
  case None
  then show ?thesis using assms(2) by (simp add: processMessage_eq)
next
  case (Some m)
  then show ?thesis
    using handle_adsb_data_ok[OF assms(2) parsed_ranges_ok[OF assms(1) Some] parsed_address(2,3)[OF assms(1) Some]]
    by (simp add: processMessage_eq)
qed

lemma processed_all_ok:
  assumes "16 \<le> lw" and "app_ok a"
  shows "\<exists>a'. fold (\<lambda>(l, t). processMessage lw (Some handle_adsb_data) l t) lines (Some a) = Some a' \<and> app_ok a' \<and>
    reg_capacity (app_registry a') = reg_capacity (app_registry a) \<and>
    rq_capacity (app_queue a') = rq_capacity (app_queue a)"
  using assms(2)
proof (induction lines arbitrary: a)
  case (Cons e lines)
  obtain l t where e: "e = (l, t)" by (cases e)
  obtain a1 where a1: "processMessage lw (Some handle_adsb_data) l t (Some a) = Some a1" "app_ok a1"
    "reg_capacity (app_registry a1) = reg_capacity (app_registry a)"
    "rq_capacity (app_queue a1) = rq_capacity (app_queue a)"
    using processed_ok[OF assms(1) Cons(2)] by blast
  show ?case using Cons(1)[OF a1(2)] a1 by (simp add: e)
qed simp

lemma feed_fold:
  "feed lw cb cs st = fold (\<lambda>(l, t). processMessage lw cb l t) (snd (framed cs)) st"
  using receive_chunks_via_log[of "\<lambda>t l. processMessage lw cb l t" cs "[]" st]
  by (simp add: feed_def framed_def)

lemma start_app_ok:
  obtains a where "start_app = Some a" "app_ok a" "reg_capacity (app_registry a) = 4096"
    "rq_capacity (app_queue a) = 4096"
proof -
  obtain reg q where n: "new_registry 4096 = Some reg" "new_queue 4096 = Some q"
    by (simp add: new_registry_def new_queue_def)
  then have "registry_ok reg" "rq_ok q" "rq_contents q = []" "rq_capacity q = 4096" "reg_capacity reg = 4096"
    using registry_ok_new[OF n(1)] new_queue_ok[OF n(2)] n(1) by (auto simp: new_registry_def)
  then show thesis
    using n by (intro that[of "\<lparr>app_registry = reg, app_queue = q, app_reported_evictions = 0\<rparr>"])
      (simp_all add: start_app_def default_registry_capacity_def report_queue_capacity_def app_ok_def)
qed

lemma position_is_queued:
  assumes "app_ok a" and "ranges_ok m" and "1 \<le> uint (ICAOAddress m)" and "uint (ICAOAddress m) \<le> 0xFFFFFF"
    and "valid (pos m)" and "handle_adsb_data m (Some a) = Some a'"
  shows "rq_contents (app_queue a') \<noteq> []"
proof -
  have reg: "registry_ok (app_registry a)" and q: "rq_ok (app_queue a)" using assms(1) by (simp_all add: app_ok_def)
  obtain old report reg' where
    b: "build_report (update_record (setLastSeen (last_seen m) old) m) m = Some report" and
    f: "registry_fold (app_registry a) m = Some (reg', report)"
    using fold_defined[OF reg assms(2)] by blast
  have "report \<noteq> None" using b assms(5) by (auto simp: build_report_def split: option.splits)
  then obtain p where "report = Some p" by blast
  then have "app_queue a' = rq_push (pr_icao_address p) \<lparr>prep_report = p, prep_received = last_seen m\<rparr> (app_queue a)"
    using assms(6) f by (auto simp: handle_adsb_data_def)
  moreover have "fifo_push n k v xs \<noteq> []" for n k v and xs :: "(u32 \<times> pending_report) list"
    by (cases xs) (auto simp: fifo_push_def fifo_update_def)
  ultimately show ?thesis using rq.push_law[OF q] by metis
qed

subsection \<open>An example stream\<close>

abbreviation "example_line \<equiv> ''MSG,3,1,1,C8217B,1,,,,,,5000,,,0,0,,''"

lemma example_line_position:
  obtains m where "parse_message 64 example_line 1000 = Some m" and "valid (pos m)"
proof -
  have "map_option (\<lambda>m. valid (pos m)) (parse_message 64 example_line 1000) = Some True" by code_simp
  then show thesis using that by (cases "parse_message 64 example_line 1000") auto
qed

lemma example_chunk: "complete_lines (example_line @ newline) = [example_line]" "residue (example_line @ newline) = []"
proof -
  have free: "\<forall>c\<in>set example_line. \<not> is_eol c" by code_simp
  have eol: "is_eol CHR 0x0A" by (simp add: is_eol_def)
  show "complete_lines (example_line @ newline) = [example_line]" "residue (example_line @ newline) = []"
    unfolding lines_run[OF free eol] by (simp_all add: complete_lines_def residue_def)
qed

lemma short_line: "parse_message 64 ''MSG,3'' 5 = None"
  by code_simp

lemma example_framed:
  "snd (framed [(''MSG,3'' @ newline, 5), (example_line @ newline, 1000)]) = [(''MSG,3'', 5), (example_line, 1000)]"
proof -
  have free: "\<forall>c\<in>set ''MSG,3''. \<not> is_eol c" by code_simp
  have eol: "is_eol CHR 0x0A" by (simp add: is_eol_def)
  have short: "complete_lines (''MSG,3'' @ newline) = [''MSG,3'']" "residue (''MSG,3'' @ newline) = []"
    unfolding lines_run[OF free eol] by (simp_all add: complete_lines_def residue_def)
  let ?log = "\<lambda>stamp line lg. lg @ [(line, stamp)]"
  have "receive_chunk ?log (''MSG,3'' @ newline, 5) ([], []) = ([], [(''MSG,3'', 5)])"
    unfolding receive_chunk_spec append_Nil short by simp
  moreover have "receive_chunk ?log (example_line @ newline, 1000) ([], [(''MSG,3'', 5)]) =
      ([], [(''MSG,3'', 5), (example_line, 1000)])"
    unfolding receive_chunk_spec append_Nil example_chunk by simp
  ultimately show ?thesis by (simp only: framed_def receive_chunks.simps snd_conv)
qed

subsection \<open>Properties\<close>

text \<open>C2: no byte stream from dump1090 can break the program: whatever chunks arrive, in whatever pieces, no
  column is read that a line does not have, no conversion is undefined, the registry and the queue
  stay within their capacities and well formed, and every report that waits to be sent carries a
  valid in-range position, a non-zero 24-bit address, and in-range fields.\<close>

theorem any_stream_is_safe:
  assumes "16 \<le> lw" and "app_ok a"
  shows "\<exists>a'. feed lw (Some handle_adsb_data) cs (Some a) = Some a' \<and>
    registry_size (app_registry a') \<le> reg_capacity (app_registry a) \<and>
    rq_size (app_queue a') \<le> rq_capacity (app_queue a) \<and>
    (\<forall>(k, item)\<in>set (rq_contents (app_queue a')). report_ok k item) \<and> app_ok a'"
proof -
  obtain a' where a': "feed lw (Some handle_adsb_data) cs (Some a) = Some a'" "app_ok a'"
    "reg_capacity (app_registry a') = reg_capacity (app_registry a)"
    "rq_capacity (app_queue a') = rq_capacity (app_queue a)"
    using processed_all_ok[OF assms, of "snd (framed cs)"] unfolding feed_fold by blast
  then have "registry_size (app_registry a') \<le> reg_capacity (app_registry a)"
    and "rq_size (app_queue a') \<le> rq_capacity (app_queue a)"
    by (auto simp: app_ok_def registry_ok_def rq_ok_def registry_size_def rq_size_def)
  with a' show ?thesis by (auto simp: app_ok_def)
qed

theorem any_stream_is_safe_witness:
  "\<exists>a a'. start_app = Some a \<and>
     feed 64 (Some handle_adsb_data) [(''MSG,3'' @ newline, 5), (example_line @ newline, 1000)] (Some a) = Some a' \<and>
     registry_size (app_registry a') \<le> 4096 \<and> rq_contents (app_queue a') \<noteq> [] \<and>
     (\<forall>(k, item)\<in>set (rq_contents (app_queue a')). report_ok k item)"
proof -
  let ?cs = "[(''MSG,3'' @ newline, 5), (example_line @ newline, 1000)]"
  obtain a where a: "start_app = Some a" "app_ok a" "reg_capacity (app_registry a) = 4096"
    by (rule start_app_ok)
  obtain a' where a': "feed 64 (Some handle_adsb_data) ?cs (Some a) = Some a'"
    "registry_size (app_registry a') \<le> 4096" "\<forall>(k, item)\<in>set (rq_contents (app_queue a')). report_ok k item"
    using any_stream_is_safe[OF _ a(2), of 64 ?cs] a(3) by auto
  obtain m where m: "parse_message 64 example_line 1000 = Some m" "valid (pos m)" by (rule example_line_position)
  have "feed 64 (Some handle_adsb_data) ?cs (Some a) = handle_adsb_data m (Some a)"
    unfolding feed_fold example_framed by (simp add: processMessage_eq m(1) short_line)
  with a' position_is_queued[OF a(2) parsed_ranges_ok[OF _ m(1)] parsed_address(2,3)[OF _ m(1)] m(2)]
  have "rq_contents (app_queue a') \<noteq> []" by auto
  with a(1) a' show ?thesis by blast
qed

text \<open>C37: the program starts exactly when it is given seven arguments, both ports parse and all three credential
  files can be read, and then runs with those very arguments; it exits with status 0 without
  starting only for --help, -h and --version.\<close>

theorem starts_exactly_when_arguments_are_good:
  "(start_main access message_of version argv = Starts cfg \<longleftrightarrow>
     (\<exists>program dp fp. argv = [program, cfg_dump1090_host cfg, dp, cfg_fss_host cfg, fp, cfg_ca cfg,
                              cfg_private_key cfg, cfg_public_key cfg] \<and>
        parse_port dp = Some (cfg_dump1090_port cfg) \<and> parse_port fp = Some (cfg_fss_port cfg) \<and>
        access (cfg_ca cfg) = None \<and> access (cfg_private_key cfg) = None \<and> access (cfg_public_key cfg) = None)) \<and>
   ((\<exists>out err. start_main access message_of version argv = Exits 0 out err) \<longleftrightarrow>
     length argv = 2 \<and> argv ! 1 \<in> {''--help'', ''-h'', ''--version''})"
proof -
  have eight: "length argv = 8 \<longleftrightarrow> (\<exists>a0 a1 a2 a3 a4 a5 a6 a7. argv = [a0, a1, a2, a3, a4, a5, a6, a7])"
    by (auto simp: length_Suc_conv numeral_eq_Suc)
  have "(start_main access message_of version argv = Starts cfg) =
     (\<exists>program dp fp. argv = [program, cfg_dump1090_host cfg, dp, cfg_fss_host cfg, fp, cfg_ca cfg,
                              cfg_private_key cfg, cfg_public_key cfg] \<and>
        parse_port dp = Some (cfg_dump1090_port cfg) \<and> parse_port fp = Some (cfg_fss_port cfg) \<and>
        access (cfg_ca cfg) = None \<and> access (cfg_private_key cfg) = None \<and> access (cfg_public_key cfg) = None)"
  proof (cases "length argv = 8")
    case True
    then obtain a0 a1 a2 a3 a4 a5 a6 a7 where argv: "argv = [a0, a1, a2, a3, a4, a5, a6, a7]" using eight by blast
    show ?thesis
      by (cases cfg) (auto simp: argv start_main_def Let_def split: option.splits)
  next
    case False
    then show ?thesis by (auto simp: start_main_def Let_def split: if_splits)
  qed
  moreover have "(\<exists>out err. start_main access message_of version argv = Exits 0 out err) \<longleftrightarrow>
     length argv = 2 \<and> argv ! 1 \<in> {''--help'', ''-h'', ''--version''}"
    by (auto simp: start_main_def Let_def split: option.splits if_splits)
  ultimately show ?thesis by (rule conjI)
qed

lemma main_loop_evictions:
  assumes "secs < 60"
  shows "count_list (main_loop (replicate n True @ [False]) secs) Evict = (n + secs) div 60 \<and>
    count_list (main_loop (replicate n True @ [False]) secs) Dumper_reconnect = n \<and>
    (\<exists>before. main_loop (replicate n True @ [False]) secs = before @ [Dumper_disconnect, Worker_stop] \<and>
       Dumper_disconnect \<notin> set before \<and> Worker_stop \<notin> set before)"
  using assms
proof (induction n arbitrary: secs)
  case (Suc n)
  show ?case
  proof (cases "60 \<le> secs + 1")
    case True
    then have "secs = 59" using Suc(2) by simp
    with Suc(1)[of 0] show ?thesis by (force simp: evict_interval_secs_def)
  next
    case False
    then have s: "secs + 1 < 60" by simp
    with Suc(1)[OF s] show ?thesis by (force simp: evict_interval_secs_def)
  qed
qed (auto simp: evict_interval_secs_def)

text \<open>The main loop retries the connection every second and sweeps stale aircraft once every 60 seconds, and
  when a signal clears the running flag it stops ingestion first and the reporting worker last.\<close>

lemma main_loop_schedule:
  "count_list (main_loop (replicate n True @ [False]) 0) Evict = n div 60 \<and>
   count_list (main_loop (replicate n True @ [False]) 0) Dumper_reconnect = n \<and>
   (\<exists>before. main_loop (replicate n True @ [False]) 0 = before @ [Dumper_disconnect, Worker_stop] \<and>
      Dumper_disconnect \<notin> set before \<and> Worker_stop \<notin> set before)"
  using main_loop_evictions[of 0 n] by simp

end
