(* ===== verification/Worker_Delivery.thy ===== *)
theory Worker_Delivery
  imports Reporting_Worker
begin

text \<open>
  What the coalescing queue may drop, and what it never drops, on the transition system of
  Reporting\_Worker: while the aircraft that have been pushed fit the capacity, only superseded
  reports disappear, and the newest report of every aircraft has been sent, is being sent, or waits.
\<close>

subsection \<open>The newest report of an aircraft\<close>

definition newest :: "u32 \<Rightarrow> pending_report list \<Rightarrow> pending_report option" where
  "newest k xs = (if of_aircraft k xs = [] then None else Some (last (of_aircraft k xs)))"

lemma newest_Nil [simp]: "newest k [] = None"
  by (simp add: newest_def)

lemma newest_snoc [simp]: "newest k (xs @ [i]) = (if report_address i = k then Some i else newest k xs)"
  by (simp add: newest_def of_aircraft_def)

lemma newest_same: "of_aircraft k xs = of_aircraft k ys \<Longrightarrow> newest k xs = newest k ys"
  by (simp add: newest_def)

lemma newest_prefix: "newest k (xs @ ys) = (case newest k ys of Some i \<Rightarrow> Some i | None \<Rightarrow> newest k xs)"
  by (simp add: newest_def)

lemma newest_mem: "newest k xs = Some i \<Longrightarrow> i \<in> set xs \<and> report_address i = k"
  using last_in_set[of "of_aircraft k xs"] by (auto simp: newest_def of_aircraft_def split: if_splits)

definition newest_kept :: "worker_sys \<Rightarrow> bool" where
  "newest_kept s \<longleftrightarrow> (\<forall>k. newest k (pipeline s) = newest k (ws_pushed s))"

definition fits :: "nat \<Rightarrow> worker_sys \<Rightarrow> bool" where
  "fits cap s \<longleftrightarrow> card (report_address ` set (ws_pushed s)) \<le> cap"

subsection \<open>Pushing without a drop\<close>

lemma of_aircraft_contents:
  assumes "keyed xs" and "k \<notin> fst ` set xs"
  shows "of_aircraft k (map snd xs) = []"
  using assms by (force simp: of_aircraft_def keyed_def filter_empty_conv)

lemma fifo_push_newest:
  assumes "distinct (map fst xs)" and "keyed xs"
    and "report_address v \<in> fst ` set xs \<or> length xs < cap"
  shows "newest k (ys @ map snd (fifo_push cap (report_address v) v xs)) =
    newest k ((ys @ map snd xs) @ [v])"
proof (cases "report_address v \<in> fst ` set xs")
  case True
  then show ?thesis
    using fifo_update_aircraft[OF assms(1,2) True, of k]
    by (auto simp: fifo_push_def newest_def of_aircraft_def)
next
  case False
  then show ?thesis using assms(3) by (auto simp: fifo_push_def newest_def of_aircraft_def)
qed

lemma subseq_set_mem: "subseq xs ys \<Longrightarrow> x \<in> set xs \<Longrightarrow> x \<in> set ys"
  by (induction rule: list_emb.induct) auto

lemma contents_addresses:
  assumes "worker_ok cap s"
  shows "fst ` set (rq_contents (ws_queue s)) \<subseteq> report_address ` set (ws_pushed s)"
proof
  fix k assume "k \<in> fst ` set (rq_contents (ws_queue s))"
  then obtain i where i: "(k, i) \<in> set (rq_contents (ws_queue s))" by auto
  then have k: "report_address i = k" using assms by (auto simp: worker_ok_def keyed_def)
  have "i \<in> set (of_aircraft k (pipeline s))"
    using i k by (force simp: of_aircraft_def pipeline_def waiting_def)
  moreover have "subseq (of_aircraft k (pipeline s)) (of_aircraft k (ws_pushed s))"
    using assms by (simp add: worker_ok_def)
  ultimately have "i \<in> set (of_aircraft k (ws_pushed s))" by (blast intro: subseq_set_mem)
  then show "k \<in> report_address ` set (ws_pushed s)" by (auto simp: of_aircraft_def)
qed

lemma push_room:
  assumes "worker_ok cap s" and "card (report_address ` set (ws_pushed s @ [item])) \<le> cap"
    and "report_address item \<notin> fst ` set (rq_contents (ws_queue s))"
  shows "length (rq_contents (ws_queue s)) < cap"
proof -
  let ?K = "fst ` set (rq_contents (ws_queue s))"
  have "rq_ok (ws_queue s)" using assms(1) by (simp add: worker_ok_def)
  then have "distinct (map fst (rq_contents (ws_queue s)))" by (rule rq.keys_distinct)
  then have "card ?K = length (rq_contents (ws_queue s))" using distinct_card by force
  then have "Suc (length (rq_contents (ws_queue s))) = card (insert (report_address item) ?K)"
    using assms(3) by simp
  also have "\<dots> \<le> card (report_address ` set (ws_pushed s @ [item]))"
    using contents_addresses[OF assms(1)] by (intro card_mono) auto
  finally show ?thesis using assms(2) by simp
qed

lemma push_move_newest:
  assumes "worker_ok cap s" and "newest_kept s" and "push_move s s'" and "fits cap s'"
  shows "newest_kept s'"
  using assms(3)
proof (cases rule: push_moveE)
  case (1 item)
  have ok: "rq_ok (ws_queue s)" and kd: "keyed (rq_contents (ws_queue s))" and
    cap: "rq_capacity (ws_queue s) = cap" using assms(1) by (simp_all add: worker_ok_def)
  have room: "report_address item \<in> fst ` set (rq_contents (ws_queue s)) \<or>
      length (rq_contents (ws_queue s)) < cap"
    using push_room[OF assms(1), of item] assms(4) by (auto simp: fits_def 1)
  have "newest k (pipeline s') = newest k (pipeline s @ [item])" for k
    using fifo_push_newest[OF rq.keys_distinct[OF ok] kd room, of k "map fst (ws_sent s) @ in_hand s"]
      rq.push_law[OF ok, of "report_address item" item]
    by (simp add: pipeline_def waiting_def in_hand_def 1 cap)
  then show ?thesis using assms(2) by (simp add: newest_kept_def 1)
qed

lemma worker_move_newest:
  assumes "worker_ok cap s" and "newest_kept s" and "worker_move s s'" and "ws_pc s \<noteq> Discarding"
  shows "newest_kept s'"
proof -
  have "pipeline s' = pipeline s" using worker_move_ok[OF assms(1,3)] assms(4) by blast
  moreover have "ws_pushed s' = ws_pushed s" using assms(3) by (auto elim: worker_moveE)
  ultimately show ?thesis using assms(2) by (simp add: newest_kept_def)
qed

lemma reporter_move_newest: "worker_ok cap s \<Longrightarrow> reporter_move s s' \<Longrightarrow> newest_kept s' = newest_kept s"
  using reporter_move_ok[of cap s s'] reporter_move_frame[of s s'] by (simp add: newest_kept_def)

lemma tick_newest: "tick s s' \<Longrightarrow> newest_kept s' = newest_kept s"
  by (erule tickE) (simp add: newest_kept_def pipeline_def in_hand_def waiting_def)

lemma stop_move_newest:
  assumes "worker_ok cap s" and "stop_move timeout s s'"
  shows "newest_kept s' = newest_kept s"
  using assms(2)
proof (cases rule: stop_moveE)
  case 2
  have "rq_ok (ws_queue s)" using assms(1) by (simp add: worker_ok_def)
  then show ?thesis
    using rq.shutdown_law by (simp add: newest_kept_def pipeline_def in_hand_def waiting_def 2)
qed (simp_all add: newest_kept_def pipeline_def in_hand_def waiting_def)

lemma pushed_mono:
  "worker_move s s' \<Longrightarrow> ws_pushed s' = ws_pushed s" "tick s s' \<Longrightarrow> ws_pushed s' = ws_pushed s"
  "stop_move timeout s s' \<Longrightarrow> ws_pushed s' = ws_pushed s"
  by (auto elim: worker_moveE tickE stop_moveE)

lemma fits_before_push: "push_move s s' \<Longrightarrow> fits cap s' \<Longrightarrow> fits cap s"
  by (erule push_moveE) (auto simp: fits_def card_insert_if split: if_splits)

lemma newest_kept_until_finished:
  assumes "worker_reachable cap timeout s" and "fits cap s" and "ws_pc s \<noteq> Finished"
  shows "newest_kept s"
  using assms
proof (induction rule: worker_reachable.induct)
  case (start q c)
  then show ?case using new_queue_ok[OF start(1)]
    by (simp add: newest_kept_def worker_start_def pipeline_def in_hand_def waiting_def)
next
  case (work s s')
  have ok: "worker_ok cap s" using worker_reachable_ok[OF work(1)] .
  have pc: "ws_pc s \<noteq> Finished" "ws_pc s \<noteq> Discarding"
    using work(2,5) by (auto elim: worker_moveE)
  have "fits cap s" using work(4) pushed_mono(1)[OF work(2)] by (simp add: fits_def)
  then show ?case using worker_move_newest[OF ok _ work(2) pc(2)] work(3) pc(1) by blast
next
  case (replies s s')
  then show ?case using reporter_move_newest[OF worker_reachable_ok[OF replies(1)] replies(2)] reporter_move_frame[OF replies(2)]
    by (simp add: fits_def)
next
  case (ticks s s')
  have "ws_pc s = ws_pc s'" using ticks(2) by (auto elim: tickE)
  then show ?case using ticks tick_newest[OF ticks(2)] pushed_mono(2)[OF ticks(2)] by (simp add: fits_def)
next
  case (stops s s')
  have "ws_pc s = ws_pc s'" using stops(2) by (auto elim: stop_moveE)
  then show ?case
    using stops stop_move_newest[OF worker_reachable_ok[OF stops(1)] stops(2)] pushed_mono(3)[OF stops(2)]
    by (simp add: fits_def)
next
  case (pushes s s')
  have "ws_pc s = ws_pc s'" using pushes(2) by (auto elim: push_moveE)
  then show ?case
    using pushes push_move_newest[OF worker_reachable_ok[OF pushes(1)] _ pushes(2,4)]
      fits_before_push[OF pushes(2,4)] by simp
qed

subsection \<open>Properties\<close>

text \<open>C13: coalescing only ever drops superseded reports: while the aircraft heard of fit the queue's capacity and
  the worker has not finished, the newest report of every aircraft has been sent, or is in hand,
  or is the one waiting for that aircraft - whatever the interleaving and however slow the sends.\<close>

theorem newest_report_survives:
  assumes "worker_reachable cap timeout s" and "card (report_address ` set (ws_pushed s)) \<le> cap"
    and "ws_pc s \<noteq> Finished" and "newest k (ws_pushed s) = Some i"
  shows "newest k (map fst (ws_sent s)) = Some i \<or> ws_pc s = Holding i \<or> (k, i) \<in> set (rq_contents (ws_queue s))"
proof -
  have ok: "worker_ok cap s" using worker_reachable_ok[OF assms(1)] .
  have "newest k (pipeline s) = Some i"
    using newest_kept_until_finished[OF assms(1) _ assms(3)] assms(2,4) by (simp add: fits_def newest_kept_def)
  then consider "newest k (waiting s) = Some i" | "newest k (in_hand s) = Some i" | "newest k (map fst (ws_sent s)) = Some i"
    unfolding pipeline_def newest_prefix by (auto split: option.splits)
  then show ?thesis
  proof cases
    case 1
    then obtain k' where "(k', i) \<in> set (rq_contents (ws_queue s))" "report_address i = k"
      using newest_mem[OF 1] by (auto simp: waiting_def)
    then show ?thesis using ok by (auto simp: worker_ok_def keyed_def)
  next
    case 2
    then show ?thesis using newest_mem[OF 2] by (auto simp: in_hand_def split: worker_pc.splits)
  qed simp
qed

theorem newest_report_survives_witness:
  "(7, sample_report 7 1) \<in> set (rq_contents (ws_queue run_stopped))"
proof -
  have "newest 7 (ws_pushed run_stopped) = Some (sample_report 7 1)"
    by (simp add: run_defs newest_def of_aircraft_def sample_report_def)
  then show ?thesis
    using newest_report_survives[OF run_reachable, of 7 "sample_report 7 1"] by (simp add: run_defs)
qed

end
