(* ===== verification/Provenance.thy ===== *)
theory Provenance
  imports Registry_History
begin

text \<open>
  Where the contents of a report come from: every field that an accumulated record of
  src/src/adsb\_record.hpp holds was carried by some message of that same aircraft, through folds,
  capacity evictions and sweeps of the registry, and so every field a report flags as valid was
  broadcast by its own aircraft within the freshness window.
\<close>

subsection \<open>Records\<close>

definition backed :: "ADSBData list \<Rightarrow> ADSBData \<Rightarrow> bool" where
  "backed ms r \<longleftrightarrow>
     (altitude_set r \<longrightarrow> (\<exists>m\<in>set ms. altitude_set m \<and> altitude m = altitude r \<and> altitude_time m = altitude_time r)) \<and>
     (heading_set r \<longrightarrow> (\<exists>m\<in>set ms. heading_set m \<and> heading m = heading r \<and> heading_time m = heading_time r)) \<and>
     (speed_set r \<longrightarrow> (\<exists>m\<in>set ms. speed_set m \<and> speed m = speed r \<and> speed_time m = speed_time r)) \<and>
     (callsign_set r \<longrightarrow> (\<exists>m\<in>set ms. carries_callsign m \<and> trim_trailing_spaces (callsign m) = callsign r \<and>
        callsign_time m = callsign_time r)) \<and>
     (squawk_set r \<longrightarrow> (\<exists>m\<in>set ms. squawk_set m \<and> squawk m = squawk r \<and> squawk_time m = squawk_time r)) \<and>
     (vert_vel_set r \<longrightarrow> (\<exists>m\<in>set ms. vert_vel_set m \<and> vert_vel m = vert_vel r \<and> vert_vel_time m = vert_vel_time r))"

lemma backed_new: "backed ms (new_ADSBData a)"
  by (simp add: backed_def new_ADSBData_def)

lemma backed_setLastSeen: "backed ms (setLastSeen t r) = backed ms r"
  by (simp add: backed_def record_simps)

lemma backed_mono: "backed ms r \<Longrightarrow> set ms \<subseteq> set ns \<Longrightarrow> backed ns r"
  unfolding backed_def by blast

lemma backed_update: "backed ms r \<Longrightarrow> backed (ms @ [m]) (update_record r m)"
  unfolding backed_def update_record_fields by auto

subsection \<open>The registry\<close>

definition registry_backed :: "ADSBData list \<Rightarrow> aircraft_registry \<Rightarrow> bool" where
  "registry_backed ms reg \<longleftrightarrow> (\<forall>k a. aircraft_at reg k = Some a \<longrightarrow> backed (own_messages k ms) a)"

lemma registry_backed_new: "new_registry cap = Some reg \<Longrightarrow> registry_backed ms reg"
  by (auto simp: new_registry_def registry_backed_def split: if_splits)

lemma evicted_at:
  assumes "registry_ok reg" and "aircraft_at (evict_least_recently_seen reg) k = Some a"
  shows "aircraft_at reg k = Some a"
proof (cases "known_aircraft reg = []")
  case True
  then show ?thesis using assms(2) by (simp add: evict_least_recently_seen_def)
next
  case False
  show ?thesis
    by (rule evict_lru[OF assms(1) False])
      (use assms in \<open>auto simp: smap.lookup_erase registry_okD split: if_splits\<close>)
qed

lemma admitted_at:
  assumes "registry_ok reg" and "aircraft_at (admit k reg) k' = Some a"
  shows "aircraft_at reg k' = Some a \<or> (k' = k \<and> a = new_ADSBData k)"
proof (cases "aircraft_at reg k")
  case None
  define reg' where "reg' = (if reg_capacity reg \<le> length (known_aircraft reg)
    then evict_least_recently_seen reg else reg)"
  have adm: "admit k reg = reg'\<lparr>known_aircraft := try_emplace k (new_ADSBData k) (known_aircraft reg')\<rparr>"
    using None by (simp add: admit_def reg'_def Let_def)
  have sorted: "map_sorted (known_aircraft reg')"
    using registry_okD(1) evict_lru_ok(1)[OF assms(1)] assms(1) by (auto simp: reg'_def)
  have "aircraft_at reg' k' = Some a \<or> (k' = k \<and> a = new_ADSBData k)"
    using assms(2) by (auto simp: adm try_emplace_def smap.lookup_put[OF sorted] split: option.splits if_splits)
  then show ?thesis using evicted_at[OF assms(1)] by (auto simp: reg'_def split: if_splits)
next
  case (Some b)
  then show ?thesis using assms(2) by (simp add: admit_known)
qed

lemma swept_backed:
  assumes "registry_ok reg" and "registry_backed ms reg"
  shows "registry_backed ms (fst (evict_stale reg now window))"
  using assms(2) evict_stale_ok(2)[OF assms(1)]
  by (auto simp: registry_backed_def split: option.splits if_splits)

subsection \<open>Reports\<close>

definition recent :: "ADSBData \<Rightarrow> ADSBData \<Rightarrow> int \<Rightarrow> bool" where
  \<comment> \<open>received less than this many milliseconds before the message that made the report\<close>
  "recent m m' window \<longleftrightarrow> uint (last_seen m) < uint (last_seen m') + window"

definition report_backed :: "ADSBData list \<Rightarrow> ADSBData \<Rightarrow> position_report \<Rightarrow> bool" where
  "report_backed ms m p \<longleftrightarrow> valid (pos m) \<and> pr_position p = pos m \<and> pr_icao_address p = ICAOAddress m \<and>
     (bit (pr_flags p) 1 \<longrightarrow> (\<exists>m'\<in>set ms. altitude_set m' \<and> pr_altitude p = altitude m' \<and> recent m m' 60000)) \<and>
     (bit (pr_flags p) 2 \<longrightarrow> (\<exists>m'\<in>set ms. heading_set m' \<and> deg_to_centideg (heading m') = Some (pr_heading p) \<and>
        recent m m' 60000)) \<and>
     (bit (pr_flags p) 3 \<longrightarrow> (\<exists>m'\<in>set ms. speed_set m' \<and> knots_to_cm_per_s (speed m') = Some (pr_hor_vel p) \<and>
        recent m m' 60000)) \<and>
     (bit (pr_flags p) 4 \<longrightarrow> (\<exists>m'\<in>set ms. callsign_set m' \<and> trim_trailing_spaces (callsign m') = pr_callsign p \<and>
        recent m m' 300000)) \<and>
     (bit (pr_flags p) 5 \<longrightarrow> (\<exists>m'\<in>set ms. squawk_set m' \<and> pr_squawk p = squawk m' \<and> recent m m' 300000)) \<and>
     (bit (pr_flags p) 7 \<longrightarrow> (\<exists>m'\<in>set ms. vert_vel_set m' \<and> ft_per_min_to_cm_per_s (vert_vel m') = Some (pr_ver_vel p) \<and>
        recent m m' 60000))"

definition stamped :: "ADSBData \<Rightarrow> bool" where
  \<comment> \<open>a message whose fields carry its own receive time\<close>
  "stamped m \<longleftrightarrow> (callsign_set m \<longrightarrow> callsign_time m = last_seen m) \<and> (altitude_set m \<longrightarrow> altitude_time m = last_seen m) \<and>
     (speed_set m \<longrightarrow> speed_time m = last_seen m) \<and> (heading_set m \<longrightarrow> heading_time m = last_seen m) \<and>
     (vert_vel_set m \<longrightarrow> vert_vel_time m = last_seen m) \<and> (squawk_set m \<longrightarrow> squawk_time m = last_seen m)"

lemma parsed_stamped: "16 \<le> lw \<Longrightarrow> parse_message lw l t = Some m \<Longrightarrow> stamped m"
  using parsed_times[of lw l t m] parsed_address(1)[of lw l t m] by (simp add: stamped_def)

lemma fresh_recent: "fresh (last_seen m) t w \<Longrightarrow> t = last_seen m' \<Longrightarrow> recent m m' w"
  by (simp add: fresh_def recent_def)

lemma flag_set:
  "bit (report_flags r t) 1 \<Longrightarrow> altitude_set r \<and> fresh t (altitude_time r) 60000"
  "bit (report_flags r t) 2 \<Longrightarrow> heading_set r \<and> fresh t (heading_time r) 60000"
  "bit (report_flags r t) 3 \<Longrightarrow> speed_set r \<and> fresh t (speed_time r) 60000"
  "bit (report_flags r t) 4 \<Longrightarrow> callsign_set r \<and> fresh t (callsign_time r) 300000"
  "bit (report_flags r t) 5 \<Longrightarrow> squawk_set r \<and> fresh t (squawk_time r) 300000"
  "bit (report_flags r t) 7 \<Longrightarrow> vert_vel_set r \<and> fresh t (vert_vel_time r) 60000"
  by (simp_all add: report_flags_iff)

lemma recent_field:
  assumes "has \<Longrightarrow> \<exists>m'\<in>M. Q m' \<and> last_seen m' = t" and "has \<and> fresh (last_seen m) t w"
  shows "\<exists>m'\<in>M. Q m' \<and> recent m m' w"
  using assms fresh_recent by blast

lemma backed_fields:
  assumes "backed ms r" and "\<forall>m'\<in>set ms. stamped m'"
  shows "altitude_set r \<Longrightarrow> \<exists>m'\<in>set ms. (altitude_set m' \<and> altitude r = altitude m') \<and> last_seen m' = altitude_time r"
    "heading_set r \<Longrightarrow> \<exists>m'\<in>set ms. (heading_set m' \<and> heading r = heading m') \<and> last_seen m' = heading_time r"
    "speed_set r \<Longrightarrow> \<exists>m'\<in>set ms. (speed_set m' \<and> speed r = speed m') \<and> last_seen m' = speed_time r"
    "callsign_set r \<Longrightarrow> \<exists>m'\<in>set ms. (callsign_set m' \<and> trim_trailing_spaces (callsign m') = callsign r) \<and>
       last_seen m' = callsign_time r"
    "squawk_set r \<Longrightarrow> \<exists>m'\<in>set ms. (squawk_set m' \<and> squawk r = squawk m') \<and> last_seen m' = squawk_time r"
    "vert_vel_set r \<Longrightarrow> \<exists>m'\<in>set ms. (vert_vel_set m' \<and> vert_vel r = vert_vel m') \<and> last_seen m' = vert_vel_time r"
proof -
  have st: "m' \<in> set ms \<Longrightarrow> stamped m'" for m' using assms(2) by blast
  show "altitude_set r \<Longrightarrow> \<exists>m'\<in>set ms. (altitude_set m' \<and> altitude r = altitude m') \<and> last_seen m' = altitude_time r"
    using assms(1) st unfolding backed_def stamped_def by metis
  show "heading_set r \<Longrightarrow> \<exists>m'\<in>set ms. (heading_set m' \<and> heading r = heading m') \<and> last_seen m' = heading_time r"
    using assms(1) st unfolding backed_def stamped_def by metis
  show "speed_set r \<Longrightarrow> \<exists>m'\<in>set ms. (speed_set m' \<and> speed r = speed m') \<and> last_seen m' = speed_time r"
    using assms(1) st unfolding backed_def stamped_def by metis
  show "callsign_set r \<Longrightarrow> \<exists>m'\<in>set ms. (callsign_set m' \<and> trim_trailing_spaces (callsign m') = callsign r) \<and>
      last_seen m' = callsign_time r"
    using assms(1) st unfolding backed_def stamped_def carries_callsign_def by metis
  show "squawk_set r \<Longrightarrow> \<exists>m'\<in>set ms. (squawk_set m' \<and> squawk r = squawk m') \<and> last_seen m' = squawk_time r"
    using assms(1) st unfolding backed_def stamped_def by metis
  show "vert_vel_set r \<Longrightarrow> \<exists>m'\<in>set ms. (vert_vel_set m' \<and> vert_vel r = vert_vel m') \<and> last_seen m' = vert_vel_time r"
    using assms(1) st unfolding backed_def stamped_def by metis
qed

lemma built_report_backed:
  assumes "backed ms r" and "\<forall>m'\<in>set ms. stamped m'" and "record_ok r" and "ICAOAddress r = ICAOAddress m"
    and "build_report r m = Some (Some p)"
  shows "report_backed ms m p"
proof -
  obtain cdeg hor ver where c: "deg_to_centideg (heading r) = Some cdeg" "knots_to_cm_per_s (speed r) = Some hor"
    "ft_per_min_to_cm_per_s (vert_vel r) = Some ver"
    using report_conversions[OF assms(3)] by blast
  have v: "valid (pos m)" using assms(5) by (auto simp: build_report_def split: if_splits)
  have p: "p = \<lparr>pr_position = pos m, pr_altitude = altitude r, pr_heading = cdeg,
      pr_hor_vel = hor, pr_ver_vel = ver, pr_icao_address = ICAOAddress r,
      pr_callsign = callsign r, pr_squawk = squawk r, pr_flags = report_flags r (last_seen m)\<rparr>"
    using assms(5) v c by (simp add: build_report_def)
  note f = backed_fields[OF assms(1,2)]
  note r = recent_field[OF f(1)] recent_field[OF f(2)] recent_field[OF f(3)] recent_field[OF f(4)]
    recent_field[OF f(5)] recent_field[OF f(6)]
  let ?t = "last_seen m"
  have "bit (report_flags r ?t) 1 \<Longrightarrow> \<exists>m'\<in>set ms. altitude_set m' \<and> altitude r = altitude m' \<and> recent m m' 60000"
    using r(1)[where m = m and w = 60000] flag_set(1) by blast
  moreover have "bit (report_flags r ?t) 2 \<Longrightarrow>
      \<exists>m'\<in>set ms. heading_set m' \<and> deg_to_centideg (heading m') = Some cdeg \<and> recent m m' 60000"
    using r(2)[where m = m and w = 60000] flag_set(2) c(1) by metis
  moreover have "bit (report_flags r ?t) 3 \<Longrightarrow>
      \<exists>m'\<in>set ms. speed_set m' \<and> knots_to_cm_per_s (speed m') = Some hor \<and> recent m m' 60000"
    using r(3)[where m = m and w = 60000] flag_set(3) c(2) by metis
  moreover have "bit (report_flags r ?t) 4 \<Longrightarrow>
      \<exists>m'\<in>set ms. callsign_set m' \<and> trim_trailing_spaces (callsign m') = callsign r \<and> recent m m' 300000"
    using r(4)[where m = m and w = 300000] flag_set(4) by blast
  moreover have "bit (report_flags r ?t) 5 \<Longrightarrow> \<exists>m'\<in>set ms. squawk_set m' \<and> squawk r = squawk m' \<and> recent m m' 300000"
    using r(5)[where m = m and w = 300000] flag_set(5) by blast
  moreover have "bit (report_flags r ?t) 7 \<Longrightarrow>
      \<exists>m'\<in>set ms. vert_vel_set m' \<and> ft_per_min_to_cm_per_s (vert_vel m') = Some ver \<and> recent m m' 60000"
    using r(6)[where m = m and w = 60000] flag_set(6) c(3) by metis
  ultimately show ?thesis unfolding report_backed_def p position_report.simps assms(4) using v by blast
qed

lemma fold_backed:
  assumes "registry_ok reg" and "ranges_ok m" and "registry_backed ms reg"
    and "registry_fold reg m = Some (reg', report)"
  shows "registry_backed (ms @ [m]) reg'"
    and "\<forall>m'\<in>set (ms @ [m]). stamped m' \<Longrightarrow> report = Some p \<Longrightarrow>
      report_backed (own_messages (ICAOAddress m) (ms @ [m])) m p"
proof -
  let ?k = "ICAOAddress m" and ?reg = "admit (ICAOAddress m) reg"
  from fold_defined[OF assms(1,2)] obtain a where
    at: "aircraft_at ?reg ?k = Some a" and
    b: "build_report (update_record (setLastSeen (last_seen m) a) m) m = Some report" and
    reg': "reg' = ?reg\<lparr>known_aircraft := map_put ?k (update_record (setLastSeen (last_seen m) a) m) (known_aircraft ?reg)\<rparr>"
    using assms(4) by auto
  let ?a = "update_record (setLastSeen (last_seen m) a) m"
  have ok: "registry_ok ?reg" using admit_ok[OF assms(1)] by blast
  have adm: "backed (own_messages k ms) x" if "aircraft_at ?reg k = Some x" for k x
    using admitted_at[OF assms(1) that] assms(3) backed_new by (auto simp: registry_backed_def)
  have new: "backed (own_messages ?k (ms @ [m])) ?a"
    using backed_update[of "own_messages ?k ms" "setLastSeen (last_seen m) a" m] adm[OF at]
    by (simp add: backed_setLastSeen own_messages_snoc)
  show "registry_backed (ms @ [m]) reg'"
    using new adm backed_mono[of "own_messages _ ms" _ "own_messages _ (ms @ [m])"]
    by (auto simp: registry_backed_def reg' smap.lookup_put[OF registry_okD(1)[OF ok]] own_messages_snoc split: if_splits)
  assume st: "\<forall>m'\<in>set (ms @ [m]). stamped m'" and rep: "report = Some p"
  have r: "record_ok ?a" "ICAOAddress ?a = ?k"
    using registry_ok_at[OF ok at] assms(2) by (simp_all add: record_ok_update record_ok_setters)
  have "\<forall>m'\<in>set (own_messages ?k (ms @ [m])). stamped m'" using st by (auto simp: own_messages_def)
  then show "report_backed (own_messages ?k (ms @ [m])) m p"
    using built_report_backed[OF new _ r] b rep by simp
qed

end
