(* ===== verification/Program.thy ===== *)
theory Program
  imports Main_Loop Worker_Delivery Provenance
begin

text \<open>
  The running program as one transition system: the receive thread (src/src/dump1090.cpp), the
  callback, the main loop and its shutdown order with the destructors (src/src/main.cpp), the
  reporting worker (src/src/reporting\_worker.cpp) and the clock, composed of the systems of
  Connection and Reporting\_Worker with the registry between them. The receive thread handles one
  line per move; a line that makes a report takes two, since the fold and the push are separate
  critical sections, between which the main thread may sweep the registry. What the program waits
  for from outside is the environment: the clock, the signal, the bytes and the end of a connection
  to dump1090, and the return of the two calls into the FSS client library.
\<close>

subsection \<open>The callback in two critical sections\<close>

definition fold_message ::
  "ADSBData \<Rightarrow> (aircraft_registry \<times> pending_report option) option \<Rightarrow> (aircraft_registry \<times> pending_report option) option" where
  \<comment> \<open>the first half of handle\_adsb\_data: the registry, and the report to push\<close>
  "fold_message adsb st =
     Option.bind st (\<lambda>(reg, _).
       map_option (\<lambda>(reg', report).
           (reg', map_option (\<lambda>r. \<lparr>prep_report = r, prep_received = last_seen adsb\<rparr>) report))
         (registry_fold reg adsb))"

definition push_item :: "pending_report \<Rightarrow> worker_sys \<Rightarrow> worker_sys" where
  \<comment> \<open>the second half\<close>
  "push_item item w = w\<lparr>ws_queue := rq_push (pr_icao_address (prep_report item)) item (ws_queue w),
                        ws_pushed := ws_pushed w @ [item]\<rparr>"

lemma push_item_move: "push_move w (push_item item w)"
  unfolding push_item_def by (rule push_move.intros)

lemma handle_adsb_data_halves:
  "handle_adsb_data m (Some a) =
     (case fold_message m (Some (app_registry a, None)) of
        None \<Rightarrow> None
      | Some (reg, None) \<Rightarrow> Some (a\<lparr>app_registry := reg\<rparr>)
      | Some (reg, Some item) \<Rightarrow>
          Some (a\<lparr>app_registry := reg,
                  app_queue := rq_push (pr_icao_address (prep_report item)) item (app_queue a)\<rparr>))"
  by (simp add: handle_adsb_data_def fold_message_def split: option.splits prod.splits)

subsection \<open>The state\<close>

datatype program_pc =
    G_construct \<comment> \<open>the constructor of the dump1090 object\<close>
  | G_test nat \<comment> \<open>the loop condition; seconds\_elapsed\<close>
  | G_sleep nat
  | G_reconnect nat
  | G_connecting nat
  | G_attempt nat \<comment> \<open>in the library's attemptReconnect\<close>
  | G_count nat
  | G_disconnect bool \<comment> \<open>disconnect: called by main, or by the destructor\<close>
  | G_stop bool \<comment> \<open>the worker's stop: likewise\<close>
  | G_return
  | G_exit

record program =
  pg_conn :: "(string \<times> u64) list conn_sys" \<comment> \<open>its callback logs the lines framed so far\<close>
  pg_next :: nat \<comment> \<open>how many of those lines processMessage has handled\<close>
  pg_registry :: aircraft_registry
  pg_reported :: u64
  pg_push :: "pending_report option" \<comment> \<open>folded, and about to be pushed\<close>
  pg_worker :: worker_sys
  pg_running :: bool
  pg_pc :: program_pc
  pg_undefined :: bool \<comment> \<open>a read of a column or a conversion was undefined behaviour\<close>

abbreviation "now_of s \<equiv> ws_clock (pg_worker s)"

definition pending :: "program \<Rightarrow> (string \<times> u64) list" where
  "pending s = drop (pg_next s) (cs_app (pg_conn s))"

definition receiving :: "program \<Rightarrow> bool" where
  \<comment> \<open>the receive thread is done with the lines of its last chunk\<close>
  "receiving s \<longleftrightarrow> pending s = [] \<and> pg_push s = None"

definition app_of :: "program \<Rightarrow> app" where
  "app_of s = \<lparr>app_registry = pg_registry s, app_queue = ws_queue (pg_worker s),
               app_reported_evictions = pg_reported s\<rparr>"

definition sweep :: "program \<Rightarrow> program" where
  "sweep s = (let (a, _) = evict_stale_aircraft (now_of s) (app_of s)
              in s\<lparr>pg_registry := app_registry a, pg_reported := app_reported_evictions a\<rparr>)"

subsection \<open>The receive thread\<close>

inductive receiver_step :: "nat \<Rightarrow> program \<Rightarrow> program \<Rightarrow> bool" for lw :: nat where
  t_recv: "receiving s \<Longrightarrow> recv_move log_line (pg_conn s) c \<Longrightarrow>
    \<forall>(l, t)\<in>set (drop (pg_next s) (cs_app c)). t = now_of s \<Longrightarrow>
    receiver_step lw s (s\<lparr>pg_conn := c\<rparr>)"
| t_line: "pg_push s = None \<Longrightarrow> pending s = (l, t) # rest \<Longrightarrow>
    processMessage lw (Some fold_message) l t (Some (pg_registry s, None)) = Some (reg, item) \<Longrightarrow>
    receiver_step lw s (s\<lparr>pg_next := Suc (pg_next s), pg_registry := reg, pg_push := item\<rparr>)"
| t_undefined: "pg_push s = None \<Longrightarrow> pending s = (l, t) # rest \<Longrightarrow>
    processMessage lw (Some fold_message) l t (Some (pg_registry s, None)) = None \<Longrightarrow>
    receiver_step lw s (s\<lparr>pg_undefined := True\<rparr>)"
| t_push: "pg_push s = Some item \<Longrightarrow>
    receiver_step lw s (s\<lparr>pg_push := None, pg_worker := push_item item (pg_worker s)\<rparr>)"

subsection \<open>The main thread\<close>

inductive main_step :: "u32 \<Rightarrow> program \<Rightarrow> program \<Rightarrow> bool" for o_nonblock :: u32 where
  g_construct: "pg_pc s = G_construct \<Longrightarrow> cs_main (pg_conn s) \<noteq> M_idle \<Longrightarrow> main_move o_nonblock (pg_conn s) c \<Longrightarrow>
    main_step o_nonblock s (s\<lparr>pg_conn := c\<rparr>)"
| g_constructed: "pg_pc s = G_construct \<Longrightarrow> cs_main (pg_conn s) = M_idle \<Longrightarrow>
    main_step o_nonblock s (s\<lparr>pg_pc := G_test 0\<rparr>)"
| g_loop: "pg_pc s = G_test n \<Longrightarrow> pg_running s \<Longrightarrow> main_step o_nonblock s (s\<lparr>pg_pc := G_sleep n\<rparr>)"
| g_sleep: "pg_pc s = G_sleep n \<Longrightarrow> main_step o_nonblock s (s\<lparr>pg_pc := G_reconnect n\<rparr>)"
    \<comment> \<open>sleep returns after a second, or at a signal\<close>
| g_no_reconnect: "pg_pc s = G_reconnect n \<Longrightarrow>
    cs_fd (pg_conn s) \<noteq> -1 \<or> \<not> retry_due (cs_backoff (pg_conn s)) (now_of s) \<Longrightarrow>
    main_step o_nonblock s (s\<lparr>pg_pc := G_attempt n\<rparr>)"
| g_reconnect: "pg_pc s = G_reconnect n \<Longrightarrow> main_move o_nonblock (pg_conn s) c \<Longrightarrow> cs_main c = M_connect \<Longrightarrow>
    bo_last_tried (cs_backoff c) = now_of s \<Longrightarrow>
    main_step o_nonblock s (s\<lparr>pg_conn := c, pg_pc := G_connecting n\<rparr>)"
| g_connecting: "pg_pc s = G_connecting n \<Longrightarrow> cs_main (pg_conn s) \<noteq> M_idle \<Longrightarrow> main_move o_nonblock (pg_conn s) c \<Longrightarrow>
    main_step o_nonblock s (s\<lparr>pg_conn := c\<rparr>)"
| g_connected: "pg_pc s = G_connecting n \<Longrightarrow> cs_main (pg_conn s) = M_idle \<Longrightarrow>
    main_step o_nonblock s (s\<lparr>pg_pc := G_attempt n\<rparr>)"
| g_count: "pg_pc s = G_count n \<Longrightarrow> \<not> evict_interval_secs \<le> n + 1 \<Longrightarrow>
    main_step o_nonblock s (s\<lparr>pg_pc := G_test (n + 1)\<rparr>)"
| g_sweep: "pg_pc s = G_count n \<Longrightarrow> evict_interval_secs \<le> n + 1 \<Longrightarrow>
    main_step o_nonblock s ((sweep s)\<lparr>pg_pc := G_test 0\<rparr>)"
| g_down: "pg_pc s = G_test n \<Longrightarrow> \<not> pg_running s \<Longrightarrow> main_move o_nonblock (pg_conn s) c \<Longrightarrow> disconnecting c \<Longrightarrow>
    main_step o_nonblock s (s\<lparr>pg_conn := c, pg_pc := G_disconnect False\<rparr>)"
| g_disconnect: "pg_pc s = G_disconnect d \<Longrightarrow> cs_main (pg_conn s) \<noteq> M_idle \<Longrightarrow> main_move o_nonblock (pg_conn s) c \<Longrightarrow>
    main_step o_nonblock s (s\<lparr>pg_conn := c\<rparr>)"
| g_disconnected: "pg_pc s = G_disconnect d \<Longrightarrow> cs_main (pg_conn s) = M_idle \<Longrightarrow>
    main_step o_nonblock s (s\<lparr>pg_pc := G_stop d\<rparr>)"
| g_stop: "pg_pc s = G_stop d \<Longrightarrow> stop_move default_drain_timeout_ms (pg_worker s) w \<Longrightarrow>
    main_step o_nonblock s
      (s\<lparr>pg_worker := w,
         pg_pc := (if ws_stop w \<noteq> Joined then G_stop d else if d then G_exit else G_return)\<rparr>)"
| g_destroy: "pg_pc s = G_return \<Longrightarrow> main_move o_nonblock (pg_conn s) c \<Longrightarrow> disconnecting c \<Longrightarrow>
    main_step o_nonblock s (s\<lparr>pg_conn := c, pg_pc := G_disconnect True\<rparr>)"

subsection \<open>The whole program\<close>

inductive program_step :: "nat \<Rightarrow> u32 \<Rightarrow> program \<Rightarrow> program \<Rightarrow> bool" for lw :: nat and o_nonblock :: u32 where
  receiver: "receiver_step lw s s' \<Longrightarrow> program_step lw o_nonblock s s'"
| main: "main_step o_nonblock s s' \<Longrightarrow> program_step lw o_nonblock s s'"
| worker: "worker_move (pg_worker s) w \<Longrightarrow> program_step lw o_nonblock s (s\<lparr>pg_worker := w\<rparr>)"

inductive environment_step :: "program \<Rightarrow> program \<Rightarrow> bool" where
  e_tick: "tick (pg_worker s) w \<Longrightarrow> environment_step s (s\<lparr>pg_worker := w\<rparr>)"
| e_signal: "environment_step s (s\<lparr>pg_running := False\<rparr>)" \<comment> \<open>sigIntHandler\<close>
| e_peer: "peer_move (pg_conn s) c \<Longrightarrow> environment_step s (s\<lparr>pg_conn := c\<rparr>)"
| e_reply: "reporter_move (pg_worker s) w \<Longrightarrow> environment_step s (s\<lparr>pg_worker := w\<rparr>)"
| e_attempted: "pg_pc s = G_attempt n \<Longrightarrow> environment_step s (s\<lparr>pg_pc := G_count n\<rparr>)"

definition program_start :: "app \<Rightarrow> u64 \<Rightarrow> program" where
  "program_start a clock =
     \<lparr>pg_conn = conn_start [], pg_next = 0, pg_registry = app_registry a, pg_reported = app_reported_evictions a,
      pg_push = None, pg_worker = worker_start (app_queue a) clock, pg_running = True, pg_pc = G_construct,
      pg_undefined = False\<rparr>"

inductive program_reachable :: "nat \<Rightarrow> u32 \<Rightarrow> program \<Rightarrow> bool" for lw :: nat and o_nonblock :: u32 where
  start: "start_app = Some a \<Longrightarrow> clock < clock_horizon \<Longrightarrow> program_reachable lw o_nonblock (program_start a clock)"
| step: "program_reachable lw o_nonblock s \<Longrightarrow> program_step lw o_nonblock s s' \<Longrightarrow> program_reachable lw o_nonblock s'"
| environment: "program_reachable lw o_nonblock s \<Longrightarrow> environment_step s s' \<Longrightarrow> program_reachable lw o_nonblock s'"

inductive_cases receiver_stepE [consumes 1, case_names recv line undefined push]: "receiver_step lw s s'"
inductive_cases main_stepE [consumes 1, case_names construct constructed loop sleeping no_reconnect reconnect connecting
    connected count sweeping down disconnect disconnected stop destroy]: "main_step nb s s'"
inductive_cases program_stepE [consumes 1, case_names receiver main worker]: "program_step lw nb s s'"
inductive_cases environment_stepE [consumes 1, case_names ticking signal peer reply attempted]: "environment_step s s'"

subsection \<open>The components inside the program\<close>

text \<open>Each component's own transition system covers what it does in the program.\<close>

lemma start_app_parts:
  assumes "start_app = Some a"
  shows "new_registry 4096 = Some (app_registry a)" and "new_queue 4096 = Some (app_queue a)"
    and "app_reported_evictions a = 0"
  using assms
  by (auto simp: start_app_def default_registry_capacity_def report_queue_capacity_def split: option.splits)

lemma main_step_conn:
  assumes "main_step nb s s'"
  shows "pg_conn s' = pg_conn s \<or> main_move nb (pg_conn s) (pg_conn s')"
  using assms by (cases rule: main_stepE) (auto simp: sweep_def split: prod.splits)

lemma main_step_worker:
  assumes "main_step nb s s'"
  shows "pg_worker s' = pg_worker s \<or> stop_move 5000 (pg_worker s) (pg_worker s')"
  using assms by (cases rule: main_stepE) (auto simp: sweep_def default_drain_timeout_ms_def split: prod.splits)

lemma program_conn_reachable: "program_reachable lw nb s \<Longrightarrow> conn_reachable log_line nb [] (pg_conn s)"
proof (induction rule: program_reachable.induct)
  case (start a clock)
  show ?case by (simp add: program_start_def conn_reachable.start)
next
  case (step s s')
  from step(2) show ?case
  proof (cases rule: program_stepE)
    case receiver
    then show ?thesis using step(3) by (cases rule: receiver_stepE) (auto intro: conn_reachable.recv)
  next
    case main
    then show ?thesis using step(3) main_step_conn[OF main] by (auto intro: conn_reachable.main)
  next
    case (worker w)
    then show ?thesis using step(3) by simp
  qed
next
  case (environment s s')
  then show ?case by (auto elim!: environment_stepE intro: conn_reachable.peer)
qed

lemma program_worker_reachable: "program_reachable lw nb s \<Longrightarrow> worker_reachable 4096 5000 (pg_worker s)"
proof (induction rule: program_reachable.induct)
  case (start a clock)
  then show ?case
    using worker_reachable.start[OF start_app_parts(2)[OF start(1)] start(2)] by (simp add: program_start_def)
next
  case (step s s')
  from step(2) show ?case
  proof (cases rule: program_stepE)
    case receiver
    then show ?thesis using step(3) by (cases rule: receiver_stepE) (auto intro: worker_reachable.pushes push_item_move)
  next
    case main
    then show ?thesis using step(3) main_step_worker[OF main] by (auto intro: worker_reachable.stops)
  next
    case (worker w)
    then show ?thesis using step(3) by (auto intro: worker_reachable.work)
  qed
next
  case (environment s s')
  from environment(2,3) show ?case
    by (cases rule: environment_stepE) (auto intro: worker_reachable.ticks worker_reachable.replies)
qed

lemmas program_conn_ok = conn_reachable_ok [OF program_conn_reachable]
lemmas program_worker_ok = worker_reachable_ok [OF program_worker_reachable]

end
