(* ===== verification/Program_Safety.thy ===== *)
theory Program_Safety
  imports Program
begin

text \<open>
  The safety of the whole program (src/src/main.cpp and everything it runs): in every reachable
  state nothing undefined has happened, and each report that has been sent comes from a line that was
  received, carries that line's position, takes every field it flags from messages of the same
  aircraft, and has its true age.
\<close>

subsection \<open>What has been delivered\<close>

definition delivered :: "nat \<Rightarrow> program \<Rightarrow> ADSBData list" where
  \<comment> \<open>the messages of the lines handled so far\<close>
  "delivered lw s = List.map_filter (\<lambda>(l, t). parse_message lw l t) (take (pg_next s) (cs_app (pg_conn s)))"

definition outputs :: "program \<Rightarrow> pending_report list" where
  \<comment> \<open>the reports made so far\<close>
  "outputs s = ws_pushed (pg_worker s) @ (case pg_push s of None \<Rightarrow> [] | Some item \<Rightarrow> [item])"

definition position_fix :: "ADSBData \<Rightarrow> u32 \<times> Point \<times> u64" where
  "position_fix m = (ICAOAddress m, pos m, last_seen m)"

definition report_fix :: "pending_report \<Rightarrow> u32 \<times> Point \<times> u64" where
  "report_fix i = (report_address i, pr_position (prep_report i), prep_received i)"

definition output_backed :: "ADSBData list \<Rightarrow> pending_report \<Rightarrow> bool" where
  "output_backed ms i \<longleftrightarrow> (\<exists>m\<in>set ms. prep_received i = last_seen m \<and> report_ok (ICAOAddress m) i \<and>
     report_backed (own_messages (ICAOAddress m) ms) m (prep_report i))"

definition sent_well :: "program \<Rightarrow> pending_report \<Rightarrow> wire_report \<Rightarrow> bool" where
  \<comment> \<open>sent from the outputs, at a time between its reception and now\<close>
  "sent_well s i w \<longleftrightarrow> i \<in> set (ws_pushed (pg_worker s)) \<and>
     (\<exists>now wall. prep_received i \<le> now \<and> now \<le> now_of s \<and> w = send_report i now wall)"

definition program_ok :: "nat \<Rightarrow> program \<Rightarrow> bool" where
  "program_ok lw s \<longleftrightarrow>
     registry_ok (pg_registry s) \<and> reg_capacity (pg_registry s) = 4096 \<and> \<not> pg_undefined s \<and>
     pg_next s \<le> length (cs_app (pg_conn s)) \<and> (\<forall>(l, t)\<in>set (cs_app (pg_conn s)). t \<le> now_of s) \<and>
     registry_backed (delivered lw s) (pg_registry s) \<and>
     map report_fix (outputs s) = map position_fix (filter (\<lambda>m. valid (pos m)) (delivered lw s)) \<and>
     (\<forall>i\<in>set (outputs s). output_backed (delivered lw s) i) \<and>
     (\<forall>(i, w)\<in>set (ws_sent (pg_worker s)). sent_well s i w)"

lemma map_filter_snoc:
  "List.map_filter f (xs @ [x]) = List.map_filter f xs @ (case f x of None \<Rightarrow> [] | Some y \<Rightarrow> [y])"
  by (simp add: List.map_filter_def split: option.splits)

lemma parsed_delivered:
  assumes "16 \<le> lw" and "m \<in> set (delivered lw s)"
  shows "ranges_ok m" and "stamped m"
  using assms parsed_ranges_ok parsed_stamped
  by (auto simp: delivered_def List.map_filter_def dest!: in_set_takeD)

lemma delivered_stamp:
  assumes "16 \<le> lw" and "program_ok lw s" and "m \<in> set (delivered lw s)"
  shows "last_seen m \<le> now_of s"
proof -
  obtain l t where "(l, t) \<in> set (cs_app (pg_conn s))" "parse_message lw l t = Some m"
    using assms(3) by (auto simp: delivered_def List.map_filter_def dest!: in_set_takeD)
  then show ?thesis using parsed_address(1)[OF assms(1)] assms(2) by (auto simp: program_ok_def)
qed

lemma output_backed_mono:
  assumes "output_backed ms i" and "set ms \<subseteq> set ns"
  shows "output_backed ns i"
proof -
  obtain m where m: "m \<in> set ms" "prep_received i = last_seen m" "report_ok (ICAOAddress m) i"
    "report_backed (own_messages (ICAOAddress m) ms) m (prep_report i)"
    using assms(1) by (auto simp: output_backed_def)
  have "set (own_messages (ICAOAddress m) ms) \<subseteq> set (own_messages (ICAOAddress m) ns)"
    using assms(2) by (auto simp: own_messages_def)
  then have "report_backed (own_messages (ICAOAddress m) ns) m (prep_report i)"
    using m(4) unfolding report_backed_def by blast
  then show ?thesis using m assms(2) by (auto simp: output_backed_def)
qed

subsection \<open>The receive thread\<close>

lemma recv_move_app:
  assumes "recv_move log_line c c'"
  shows "\<exists>new. cs_app c' = cs_app c @ new"
  using assms
proof (cases rule: recv_moveE)
  case (data n chunk rest stamp acc app)
  then show ?thesis by (auto simp: receive_chunk_spec fold_log)
qed (auto simp: use_fd_def close_owned_def)

lemma main_move_app: "main_move nb c c' \<Longrightarrow> cs_app c' = cs_app c"
  by (erule main_moveE) (simp_all add: use_fd_def close_owned_def)

lemma delivered_extend:
  assumes "cs_app c' = cs_app (pg_conn s) @ new" and "pg_next s \<le> length (cs_app (pg_conn s))"
  shows "delivered lw (s\<lparr>pg_conn := c'\<rparr>) = delivered lw s"
  using assms by (simp add: delivered_def)

lemma delivered_line:
  assumes "pending s = (l, t) # rest"
  shows "delivered lw (s\<lparr>pg_next := Suc (pg_next s), pg_registry := reg, pg_push := item\<rparr>) =
    delivered lw s @ (case parse_message lw l t of None \<Rightarrow> [] | Some m \<Rightarrow> [m])"
proof -
  have "pg_next s < length (cs_app (pg_conn s))" and "cs_app (pg_conn s) ! pg_next s = (l, t)"
    using assms unfolding pending_def
    by (metis drop_eq_Nil leI list.discI) (metis assms pending_def hd_drop_conv_nth drop_eq_Nil leI list.discI list.sel(1))
  then show ?thesis by (simp add: delivered_def take_Suc_conv_app_nth map_filter_snoc)
qed

lemma line_result:
  assumes "16 \<le> lw" and "registry_ok reg" and "registry_backed ms reg" and "\<forall>m\<in>set ms. stamped m"
    and "parse_message lw l t = Some m"
  shows "\<exists>reg' item. fold_message m (Some (reg, None)) = Some (reg', item) \<and> registry_ok reg' \<and>
    reg_capacity reg' = reg_capacity reg \<and> registry_backed (ms @ [m]) reg' \<and>
    (item = None \<longleftrightarrow> \<not> valid (pos m)) \<and>
    (\<forall>i. item = Some i \<longrightarrow> report_fix i = position_fix m \<and> output_backed (ms @ [m]) i)"
proof -
  note r = parsed_ranges_ok[OF assms(1,5)] and a = parsed_address[OF assms(1,5)]
  let ?k = "ICAOAddress m"
  from fold_defined[OF assms(2) r] obtain old report reg' where
    at: "aircraft_at (admit ?k reg) ?k = Some old" and
    b: "build_report (update_record (setLastSeen (last_seen m) old) m) m = Some report" and
    f: "registry_fold reg m = Some (reg', report)"
    by blast
  let ?r = "update_record (setLastSeen (last_seen m) old) m"
  have adm: "registry_ok (admit ?k reg)" using admit_ok[OF assms(2)] by blast
  have ok: "record_ok ?r" "ICAOAddress ?r = ?k"
    using registry_ok_at[OF adm at] r by (simp_all add: record_ok_update record_ok_setters)
  have st: "\<forall>m'\<in>set (ms @ [m]). stamped m'" using assms(4) parsed_stamped[OF assms(1,5)] by simp
  have none: "report = None \<longleftrightarrow> \<not> valid (pos m)"
    using b by (auto simp: build_report_def split: if_splits option.splits)
  let ?item = "map_option (\<lambda>p. \<lparr>prep_report = p, prep_received = last_seen m\<rparr>) report"
  have "report_fix i = position_fix m \<and> output_backed (ms @ [m]) i" if i: "?item = Some i" for i
  proof -
    obtain p where p: "report = Some p" "i = \<lparr>prep_report = p, prep_received = last_seen m\<rparr>" using i by auto
    have rb: "report_backed (own_messages ?k (ms @ [m])) m p" using fold_backed(2)[OF assms(2) r assms(3) f st p(1)] .
    moreover have "report_ok ?k i"
      using built_report_ok(1)[OF ok(1) r, of p] b p ok(2) a by simp
    ultimately show ?thesis by (auto simp: p(2) report_fix_def position_fix_def report_backed_def output_backed_def)
  qed
  then show ?thesis
    using f fold_keeps_ok[OF assms(2) r f] fold_backed(1)[OF assms(2) r assms(3) f] none
    by (auto simp: fold_message_def)
qed

lemma receiver_step_ok:
  assumes "16 \<le> lw" and "program_ok lw s" and "receiver_step lw s s'"
  shows "program_ok lw s'"
  using assms(3)
proof (cases rule: receiver_stepE)
  case (recv c)
  obtain new where new: "cs_app c = cs_app (pg_conn s) @ new" using recv_move_app[OF recv(3)] by blast
  have n: "pg_next s \<le> length (cs_app (pg_conn s))" using assms(2) by (simp add: program_ok_def)
  have full: "pg_next s = length (cs_app (pg_conn s))" using recv(2) n by (simp add: receiving_def pending_def)
  have "\<forall>(l, t)\<in>set new. t = now_of s" using recv(4) by (simp add: new full)
  then have stamps: "\<forall>(l, t)\<in>set (cs_app c). t \<le> now_of s" using assms(2) by (auto simp: new program_ok_def)
  have out: "outputs s' = outputs s" by (simp add: outputs_def recv(1))
  show ?thesis using assms(2) n stamps out delivered_extend[OF new n, of lw]
    by (simp add: program_ok_def recv(1) new sent_well_def)
next
  case (line l t rest reg item)
  have out: "outputs s = ws_pushed (pg_worker s)" using line(2) by (simp add: outputs_def)
  have len: "Suc (pg_next s) \<le> length (cs_app (pg_conn s))"
    using arg_cong[OF line(3), of length] by (simp add: pending_def)
  note dl = delivered_line[OF line(3), where lw = lw and reg = reg and item = item, folded line(1)]
  show ?thesis
  proof (cases "parse_message lw l t")
    case None
    then have "reg = pg_registry s" "item = None" using line(4) by (simp_all add: processMessage_eq)
    then show ?thesis using assms(2) len line(2) dl None
      by (simp add: program_ok_def line(1) outputs_def sent_well_def)
  next
    case (Some m)
    have reg: "registry_ok (pg_registry s)" "registry_backed (delivered lw s) (pg_registry s)"
      using assms(2) by (simp_all add: program_ok_def)
    have st: "\<forall>m\<in>set (delivered lw s). stamped m" using parsed_delivered(2)[OF assms(1)] by blast
    from line_result[OF assms(1) reg st Some] line(4) Some have r: "registry_ok reg"
      "reg_capacity reg = reg_capacity (pg_registry s)" "registry_backed (delivered lw s @ [m]) reg"
      "item = None \<longleftrightarrow> \<not> valid (pos m)"
      "\<forall>i. item = Some i \<longrightarrow> report_fix i = position_fix m \<and> output_backed (delivered lw s @ [m]) i"
      by (auto simp: processMessage_eq)
    have out': "outputs s' = outputs s @ (case item of None \<Rightarrow> [] | Some i \<Rightarrow> [i])"
      using line(2) by (simp add: outputs_def line(1))
    have dl': "delivered lw s' = delivered lw s @ [m]" using dl Some by simp
    have same_fixes: "map report_fix (outputs s') = map position_fix (filter (\<lambda>m. valid (pos m)) (delivered lw s'))"
      using assms(2) r(4,5) by (cases item) (auto simp: program_ok_def out' dl')
    have backed: "\<forall>i\<in>set (outputs s'). output_backed (delivered lw s') i"
      using assms(2) r(5) output_backed_mono[of "delivered lw s" _ "delivered lw s @ [m]"]
      by (cases item) (auto simp: program_ok_def out' dl')
    have f: "pg_registry s' = reg" "pg_conn s' = pg_conn s" "pg_undefined s' = pg_undefined s"
      "pg_next s' = Suc (pg_next s)" "pg_worker s' = pg_worker s" by (simp_all add: line(1))
    then have "sent_well s' = sent_well s" by (simp add: fun_eq_iff sent_well_def)
    then show ?thesis using assms(2) len r(1-3) same_fixes backed unfolding program_ok_def f dl' by simp
  qed
next
  case (undefined l t rest)
  have reg: "registry_ok (pg_registry s)" "registry_backed (delivered lw s) (pg_registry s)"
    using assms(2) by (simp_all add: program_ok_def)
  have st: "\<forall>m\<in>set (delivered lw s). stamped m" using parsed_delivered(2)[OF assms(1)] by blast
  show ?thesis using undefined(4) line_result[OF assms(1) reg st, of l t]
    by (auto simp: processMessage_eq split: option.splits)
next
  case (push item)
  have "outputs s' = outputs s" by (simp add: outputs_def push push_item_def)
  moreover have "delivered lw s' = delivered lw s" by (simp add: delivered_def push)
  ultimately show ?thesis using assms(2)
    by (auto simp: program_ok_def push push_item_def sent_well_def)
qed

subsection \<open>The other threads\<close>

lemma program_frame:
  assumes "program_ok lw s" and "pg_conn s' = pg_conn s" and "pg_next s' = pg_next s" and "pg_push s' = pg_push s"
    and "pg_registry s' = pg_registry s" and "pg_undefined s' = pg_undefined s"
    and "ws_pushed (pg_worker s') = ws_pushed (pg_worker s)" and "now_of s \<le> now_of s'"
    and "\<forall>(i, w)\<in>set (ws_sent (pg_worker s')). (i, w) \<in> set (ws_sent (pg_worker s)) \<or> sent_well s' i w"
  shows "program_ok lw s'"
proof -
  have "delivered lw s' = delivered lw s" "outputs s' = outputs s"
    using assms(2-4,7) by (simp_all add: delivered_def outputs_def)
  moreover have "sent_well s i w \<Longrightarrow> sent_well s' i w" for i w
    using assms(7,8) by (auto simp: sent_well_def intro: order_trans)
  ultimately show ?thesis using assms unfolding program_ok_def by (fastforce intro: order_trans)
qed

lemma conn_frame:
  assumes "program_ok lw s" and "cs_app c = cs_app (pg_conn s)"
  shows "program_ok lw (s\<lparr>pg_conn := c\<rparr>)"
proof -
  have "delivered lw (s\<lparr>pg_conn := c\<rparr>) = delivered lw s" by (simp add: delivered_def assms(2))
  then show ?thesis using assms by (simp add: program_ok_def outputs_def sent_well_def)
qed

lemma conn_move_frame: "program_ok lw s \<Longrightarrow> main_move nb (pg_conn s) c \<Longrightarrow> program_ok lw (s\<lparr>pg_conn := c\<rparr>)"
  by (intro conn_frame main_move_app)

lemma pc_frame: "program_ok lw (s\<lparr>pg_pc := pc\<rparr>) = program_ok lw s"
  by (simp add: program_ok_def delivered_def outputs_def sent_well_def)

lemma sweep_ok:
  assumes "program_ok lw s"
  shows "program_ok lw (sweep s)"
proof -
  have reg: "registry_ok (pg_registry s)" "registry_backed (delivered lw s) (pg_registry s)"
    "reg_capacity (pg_registry s) = 4096"
    using assms by (simp_all add: program_ok_def)
  let ?reg = "fst (evict_stale (pg_registry s) (now_of s) stale_window_ms)"
  have "app_registry (fst (evict_stale_aircraft (now_of s) (app_of s))) = ?reg"
    by (simp add: evict_stale_aircraft_def app_of_def Let_def split_beta)
  then have "sweep s = s\<lparr>pg_registry := ?reg,
      pg_reported := app_reported_evictions (fst (evict_stale_aircraft (now_of s) (app_of s)))\<rparr>"
    by (simp add: sweep_def split_beta)
  then obtain rep where s': "sweep s = s\<lparr>pg_registry := ?reg, pg_reported := rep\<rparr>" by blast
  have "registry_ok ?reg" "registry_backed (delivered lw s) ?reg"
    using evict_stale_ok(1)[OF reg(1)] swept_backed[OF reg(1,2)] by simp_all
  moreover have "reg_capacity ?reg = 4096" using reg(3) by (simp add: evict_stale_def split_beta)
  ultimately show ?thesis using assms
    by (simp add: s' program_ok_def delivered_def outputs_def sent_well_def)
qed

lemma main_step_ok:
  assumes "program_ok lw s" and "main_step nb s s'"
  shows "program_ok lw s'"
  using assms(2)
proof (cases rule: main_stepE)
  case (stop d w)
  then have "ws_pushed w = ws_pushed (pg_worker s)" "ws_sent w = ws_sent (pg_worker s)"
    "ws_clock w = now_of s" by (auto elim: stop_moveE)
  then show ?thesis by (intro program_frame[OF assms(1)]) (auto simp: stop(1))
next
  case (sweeping n)
  then show ?thesis using sweep_ok[OF assms(1)] by (simp add: pc_frame)
qed (use assms(1) in \<open>auto simp: pc_frame intro: conn_move_frame\<close>)

lemma held_pushed:
  assumes "worker_ok cap w" and "ws_pc w = Holding i"
  shows "i \<in> set (ws_pushed w)"
proof -
  have "i \<in> set (of_aircraft (report_address i) (pipeline w))"
    using assms(2) by (simp add: of_aircraft_def pipeline_def in_hand_def)
  moreover have "subseq (of_aircraft (report_address i) (pipeline w)) (of_aircraft (report_address i) (ws_pushed w))"
    using assms(1) by (simp add: worker_ok_def)
  ultimately show ?thesis using subseq_set_mem by (fastforce simp: of_aircraft_def)
qed

lemma output_received:
  assumes "16 \<le> lw" and "program_ok lw s" and "i \<in> set (outputs s)"
  shows "prep_received i \<le> now_of s"
  using delivered_stamp[OF assms(1,2)] assms(2,3) by (auto simp: program_ok_def output_backed_def)

lemma worker_step_ok:
  assumes "16 \<le> lw" and "program_ok lw s" and "worker_ok 4096 (pg_worker s)" and "worker_move (pg_worker s) w"
  shows "program_ok lw (s\<lparr>pg_worker := w\<rparr>)"
  using assms(4)
proof (cases rule: worker_moveE)
  case (4 item wall)
  have "item \<in> set (ws_pushed (pg_worker s))" using held_pushed[OF assms(3) 4(2)] .
  moreover from this have "prep_received item \<le> now_of s"
    using output_received[OF assms(1,2)] by (simp add: outputs_def)
  ultimately have "sent_well (s\<lparr>pg_worker := w\<rparr>) item (send_report item (now_of s) wall)"
    by (auto simp: sent_well_def 4(1))
  then show ?thesis by (intro program_frame[OF assms(2)]) (auto simp: 4(1))
qed (rule program_frame[OF assms(2)]; auto)+

lemma environment_step_ok:
  assumes "program_ok lw s" and "environment_step s s'"
  shows "program_ok lw s'"
  using assms(2)
proof (cases rule: environment_stepE)
  case (peer c)
  then show ?thesis using conn_frame[OF assms(1)] peer_move_frame[OF peer(2)] by simp
next
  case (reply w)
  note frame = reporter_move_frame[OF reply(2)]
  show ?thesis by (rule program_frame[OF assms(1)]) (use frame in \<open>simp_all add: reply(1), simp add: case_prod_beta\<close>)
next
  case (attempted n)
  then show ?thesis using assms(1) by (simp add: pc_frame)
qed (rule program_frame[OF assms(1)]; auto elim!: tickE)+

lemma program_reachable_ok:
  assumes "16 \<le> lw" and "program_reachable lw nb s"
  shows "program_ok lw s"
  using assms(2)
proof (induction rule: program_reachable.induct)
  case (start a clock)
  note parts = start_app_parts[OF start(1)]
  have "reg_capacity (app_registry a) = 4096" using reachable_ok[OF registry_reachable.start[OF parts(1)]] by simp
  then show ?case using registry_ok_new[OF parts(1)] registry_backed_new[OF parts(1)]
    by (simp add: program_ok_def program_start_def conn_start_def worker_start_def delivered_def outputs_def
        List.map_filter_def)
next
  case (step s s')
  from step(2) show ?case
  proof (cases rule: program_stepE)
    case receiver
    then show ?thesis using receiver_step_ok[OF assms(1) step(3)] by blast
  next
    case main
    then show ?thesis using main_step_ok[OF step(3)] by blast
  next
    case (worker w)
    then show ?thesis using worker_step_ok[OF assms(1) step(3) program_worker_ok[OF step(1)]] by blast
  qed
next
  case (environment s s')
  then show ?case using environment_step_ok by blast
qed

subsection \<open>Properties\<close>







lemma report_fix_aircraft:
  "map report_fix (of_aircraft k xs) = filter (\<lambda>(a, _, _). a = k) (map report_fix xs)"
  by (induction xs) (auto simp: of_aircraft_def report_fix_def)

text \<open>C3: end to end, per aircraft: the positions sent for an aircraft, each with its time of reception, are a
  subsequence of the positions received for it: none is invented, repeated or sent out of order.\<close>

theorem positions_sent_in_received_order:
  assumes "16 \<le> lw" and "program_reachable lw nb s"
  shows "subseq (map report_fix (of_aircraft k (map fst (ws_sent (pg_worker s)))))
    (map position_fix (filter (\<lambda>m. ICAOAddress m = k \<and> valid (pos m)) (delivered lw s)))"
proof -
  have ok: "program_ok lw s" using program_reachable_ok[OF assms(1,2)] .
  have wok: "worker_ok 4096 (pg_worker s)" using program_worker_ok[OF assms(2)] .
  let ?w = "pg_worker s"
  have "subseq (of_aircraft k (map fst (ws_sent ?w))) (of_aircraft k (pipeline ?w))"
    by (simp add: pipeline_def subseq_rev_drop_many)
  also have "subseq \<dots> (of_aircraft k (ws_pushed ?w))" using wok by (simp add: worker_ok_def)
  also have "subseq \<dots> (of_aircraft k (outputs s))" by (simp add: outputs_def subseq_rev_drop_many)
  finally have "subseq (map report_fix (of_aircraft k (map fst (ws_sent ?w)))) (map report_fix (of_aircraft k (outputs s)))"
    by (rule subseq_map)
  also have "map report_fix (of_aircraft k (outputs s)) =
      filter (\<lambda>(a, _, _). a = k) (map position_fix (filter (\<lambda>m. valid (pos m)) (delivered lw s)))"
    using ok by (simp add: report_fix_aircraft program_ok_def)
  also have "\<dots> = map position_fix (filter (\<lambda>m. ICAOAddress m = k \<and> valid (pos m)) (delivered lw s))"
    by (simp add: filter_map o_def position_fix_def conj_commute)
  finally show ?thesis .
qed

subsection \<open>A concrete run\<close>

text \<open>The program connects, receives one line, and the worker sends the report it makes.\<close>

definition "link_up =
  (conn_start [])\<lparr>cs_kernel := [5 \<mapsto> good_socket], cs_fd := 5, cs_recv := R_loop, cs_streams := [[]], cs_main := M_idle\<rparr>"
definition "link_used =
  link_up\<lparr>cs_app := [(example_line, 1000)], cs_streams := [[(example_line @ newline, 1000)]]\<rparr>"

lemma link_up_reachable:
  assumes "start_app = Some a"
  shows "program_reachable 64 2048 ((program_start a 1000)\<lparr>pg_conn := link_up\<rparr>)"
proof -
  let ?s = "program_start a 1000"
  let ?c = "(conn_start [])\<lparr>cs_recv := R_none, cs_main := M_connecting\<rparr> :: (string \<times> u64) list conn_sys"
  have s: "program_reachable 64 2048 ?s"
    by (rule program_reachable.start[OF assms]) (simp add: clock_horizon_def)
  have "main_move 2048 (pg_conn ?s) ?c"
    using main_move.m_join_old[of "pg_conn ?s"] by (simp add: program_start_def conn_start_def joinable_done_def)
  then have "main_step 2048 ?s (?s\<lparr>pg_conn := ?c\<rparr>)"
    by (intro main_step.g_construct) (simp_all add: program_start_def conn_start_def)
  then have t: "program_reachable 64 2048 (?s\<lparr>pg_conn := ?c\<rparr>)"
    by (rule program_reachable.step[OF s program_step.main])
  have "main_move 2048 ?c link_up"
    using main_move.m_connected[of ?c "[(AF_INET, good_env)]" 2048 5 "[5 \<mapsto> good_socket]"] good_env_connects
    by (simp add: conn_start_def link_up_def new_backoff_def note_success_def retry_delay_start_def)
  then have "main_step 2048 (?s\<lparr>pg_conn := ?c\<rparr>) (?s\<lparr>pg_conn := link_up\<rparr>)"
    using main_step.g_construct[of "?s\<lparr>pg_conn := ?c\<rparr>" 2048 link_up] by (simp add: program_start_def conn_start_def)
  then show ?thesis by (rule program_reachable.step[OF t program_step.main])
qed

lemma line_received:
  assumes "start_app = Some a"
  shows "program_reachable 64 2048 ((program_start a 1000)\<lparr>pg_conn := link_used\<rparr>)"
proof -
  let ?s = "(program_start a 1000)\<lparr>pg_conn := link_up\<rparr>"
  let ?in = "(\<lambda>_. [])(5 := example_line @ newline) :: int \<Rightarrow> string"
  let ?t = "?s\<lparr>pg_conn := link_up\<lparr>cs_recv := R_recv 5\<rparr>\<rparr>"
  let ?u = "?s\<lparr>pg_conn := link_up\<lparr>cs_recv := R_recv 5, cs_input := ?in\<rparr>\<rparr>"
  have "recv_move log_line link_up (link_up\<lparr>cs_recv := R_recv 5\<rparr>)"
    using recv_move.r_load[of link_up] by (simp add: link_up_def)
  then have "receiver_step 64 ?s ?t"
    using receiver_step.t_recv[of ?s "link_up\<lparr>cs_recv := R_recv 5\<rparr>" 64]
    by (simp add: receiving_def pending_def program_start_def link_up_def conn_start_def)
  then have t: "program_reachable 64 2048 ?t"
    by (rule program_reachable.step[OF link_up_reachable[OF assms] program_step.receiver])
  have "peer_move (link_up\<lparr>cs_recv := R_recv 5\<rparr>) (link_up\<lparr>cs_recv := R_recv 5, cs_input := ?in\<rparr>)"
    using peer_move.p_bytes[of "link_up\<lparr>cs_recv := R_recv 5\<rparr>" 5 "example_line @ newline"]
    by (simp add: link_up_def conn_start_def)
  then have u: "program_reachable 64 2048 ?u"
    using program_reachable.environment[OF t environment_step.e_peer[of ?t]] by simp
  have "receive_chunk log_line (example_line @ newline, 1000) ([], []) = ([], [(example_line, 1000)])"
    unfolding receive_chunk_spec append_Nil example_chunk by simp
  then have "recv_move log_line (link_up\<lparr>cs_recv := R_recv 5, cs_input := ?in\<rparr>) link_used"
    using recv_move.r_data[of "link_up\<lparr>cs_recv := R_recv 5, cs_input := ?in\<rparr>" 5 "example_line @ newline" "[]" log_line 1000 "[]"]
    by (simp add: link_up_def link_used_def conn_start_def use_fd_def log_chunk_def buffer_length_def)
  then have "receiver_step 64 ?u (?s\<lparr>pg_conn := link_used\<rparr>)"
    using receiver_step.t_recv[of ?u link_used 64]
    by (simp add: receiving_def pending_def program_start_def worker_start_def link_up_def link_used_def conn_start_def)
  then show ?thesis using program_reachable.step[OF u program_step.receiver] by simp
qed

lemma example_sent:
  "\<exists>s s' i w. program_reachable 64 2048 s \<and> program_step 64 2048 s s' \<and> now_of s = 4000 \<and>
     ws_sent (pg_worker s) = [] \<and> ws_sent (pg_worker s') = [(i, w)] \<and> prep_received i = 1000"
proof -
  obtain a where a: "start_app = Some a" by (rule start_app_ok)
  let ?s = "(program_start a 1000)\<lparr>pg_conn := link_used\<rparr>"
  note s = line_received[OF a]
  obtain m where m: "parse_message 64 example_line 1000 = Some m" "valid (pos m)" by (rule example_line_position)
  have ok: "registry_ok (app_registry a)" "registry_backed [] (app_registry a)"
    using registry_ok_new registry_backed_new start_app_parts(1)[OF a] by blast+
  from line_result[OF _ ok _ m(1)] m(2) obtain reg item where
    f: "fold_message m (Some (app_registry a, None)) = Some (reg, Some item)" and "report_fix item = position_fix m"
    by fastforce
  then have rx: "prep_received item = 1000"
    using parsed_address(1)[OF _ m(1)] by (simp add: report_fix_def position_fix_def)
  have q: "app_queue a = \<lparr>rq_items = [], rq_order = [], rq_capacity = 4096, rq_stopped = False\<rparr>"
    using start_app_parts(2)[OF a] by (simp add: new_queue_def)
  let ?s1 = "?s\<lparr>pg_next := 1, pg_registry := reg, pg_push := Some item\<rparr>"
  have "receiver_step 64 ?s ?s1"
    using receiver_step.t_line[of ?s example_line 1000 "[]" 64 reg "Some item"] f m(1)
    by (simp add: pending_def program_start_def link_used_def processMessage_eq)
  then have s1: "program_reachable 64 2048 ?s1" by (rule program_reachable.step[OF s program_step.receiver])
  let ?w0 = "worker_start (app_queue a) 1000"
  let ?s2 = "?s1\<lparr>pg_push := None, pg_worker := push_item item ?w0\<rparr>"
  have "receiver_step 64 ?s1 ?s2"
    using receiver_step.t_push[of ?s1 item] by (simp add: program_start_def)
  then have s2: "program_reachable 64 2048 ?s2" by (rule program_reachable.step[OF s1 program_step.receiver])
  let ?w1 = "(push_item item ?w0)\<lparr>ws_queue := app_queue a, ws_pc := Holding item\<rparr>"
  have "worker_move (push_item item ?w0) ?w1"
    using worker_move.w_pop[of "push_item item ?w0" "app_queue a" item]
    by (simp add: q worker_start_def push_item_def rq_pop_def rq_push_def drop_oldest_def try_emplace_def map_erase_def)
  then have s3: "program_reachable 64 2048 (?s2\<lparr>pg_worker := ?w1\<rparr>)"
    using program_reachable.step[OF s2 program_step.worker[of ?s2]] by simp
  let ?w2 = "?w1\<lparr>ws_clock := 4000\<rparr>"
  let ?s4 = "?s2\<lparr>pg_worker := ?w2\<rparr>"
  have "tick ?w1 ?w2"
    by (rule tick.intros) (simp_all add: worker_start_def push_item_def clock_horizon_def)
  then have s4: "program_reachable 64 2048 ?s4"
    using program_reachable.environment[OF s3 environment_step.e_tick[of "?s2\<lparr>pg_worker := ?w1\<rparr>"]] by simp
  let ?w3 = "?w2\<lparr>ws_sent := [(item, send_report item 4000 77)], ws_pc := Sending\<rparr>"
  have "worker_move ?w2 ?w3"
    using worker_move.w_send[of ?w2 item 77] by (simp add: worker_start_def push_item_def)
  then have "program_step 64 2048 ?s4 (?s4\<lparr>pg_worker := ?w3\<rparr>)"
    using program_step.worker[of ?s4] by simp
  then show ?thesis
    by (intro exI[of _ ?s4] exI[of _ "?s4\<lparr>pg_worker := ?w3\<rparr>"] exI[of _ item] exI[of _ "send_report item 4000 77"] conjI s4 rx)
      (simp_all add: worker_start_def push_item_def)
qed


theorem positions_sent_in_received_order_witness:
  "\<exists>s i w. program_reachable 64 2048 s \<and> ws_sent (pg_worker s) = [(i, w)] \<and>
     subseq [report_fix i] (map position_fix (filter (\<lambda>m. ICAOAddress m = report_address i \<and> valid (pos m)) (delivered 64 s)))"
proof -
  obtain r s i w where r: "program_reachable 64 2048 r" "program_step 64 2048 r s" and w: "ws_sent (pg_worker s) = [(i, w)]"
    using example_sent by blast
  have s: "program_reachable 64 2048 s" by (rule program_reachable.step[OF r])
  from positions_sent_in_received_order[OF _ s, of "report_address i"] s w show ?thesis
    by (auto simp: of_aircraft_def)
qed

end
