(* ===== verification/Program_Shutdown.thy ===== *)
theory Program_Shutdown
  imports Program_Safety
begin

text \<open>
  The end of the program (the last part of main in src/src/main.cpp and the destructors): once the
  loop has been left, ingestion stops before the worker does, the program exits as soon as its calls
  of reportAircraft return, and a shutdown that stays within the drain timeout has sent the newest
  position of every aircraft. Progress is progress of the program's own threads: bytes from the
  server, the end of a connection and the return of a library call are never counted on, save
  where a statement names the call that is waited for.
\<close>

subsection \<open>Phases\<close>

fun phase_at :: "program_pc \<Rightarrow> 's conn_sys \<Rightarrow> stop_pc \<Rightarrow> worker_pc \<Rightarrow> bool" where
  \<comment> \<open>what main's position says of the connection and the worker\<close>
  "phase_at (G_disconnect False) c stop w = (stop = Running \<and> (disconnecting c \<or> quiet c))"
| "phase_at (G_disconnect True) c stop w =
     (stop = Joined \<and> w = Finished \<and> (disconnecting c \<or> quiet c) \<and> cs_recv c = R_none)"
| "phase_at (G_stop False) c stop w = (stop \<noteq> Joined \<and> quiet c)"
| "phase_at (G_stop True) c stop w = (stop \<noteq> Running \<and> w = Finished \<and> quiet c)"
| "phase_at G_return c stop w = (stop = Joined \<and> w = Finished \<and> quiet c)"
| "phase_at G_exit c stop w = (stop = Joined \<and> w = Finished \<and> quiet c)"
| "phase_at (G_test n) c stop w = (stop = Running \<and> cs_main c = M_idle)"
| "phase_at (G_sleep n) c stop w = (stop = Running \<and> cs_main c = M_idle)"
| "phase_at (G_attempt n) c stop w = (stop = Running \<and> cs_main c = M_idle)"
| "phase_at (G_reconnect n) c stop w = (stop = Running \<and> cs_main c = M_idle)"
| "phase_at (G_count n) c stop w = (stop = Running \<and> cs_main c = M_idle)"
| "phase_at (G_connecting n) c stop w = (stop = Running \<and> \<not> disconnecting c)"
| "phase_at G_construct c stop w = (stop = Running \<and> \<not> disconnecting c)"

definition phase_ok :: "program \<Rightarrow> bool" where
  "phase_ok s \<longleftrightarrow> phase_at (pg_pc s) (pg_conn s) (ws_stop (pg_worker s)) (ws_pc (pg_worker s)) \<and>
     (receiving s \<or> cs_recv (pg_conn s) = R_loop)"

lemma quiet_no_recv: "cs_recv c = R_none \<Longrightarrow> \<not> recv_move f c c'"
  by (auto elim: recv_moveE)

lemma quiet_receiving: "phase_ok s \<Longrightarrow> quiet (pg_conn s) \<Longrightarrow> receiving s"
  by (simp add: phase_ok_def quiet_def)

lemma disconnect_keeps_none: "main_move nb c c' \<Longrightarrow> disconnecting c' \<Longrightarrow> cs_recv c = R_none \<Longrightarrow> cs_recv c' = R_none"
  by (erule main_moveE) (auto simp: disconnecting_def use_fd_def)

lemma recv_disconnecting: "recv_move f c c' \<Longrightarrow> disconnecting c' = disconnecting c \<and> cs_main c' = cs_main c"
  by (erule recv_moveE) (auto simp: disconnecting_def use_fd_def close_owned_def)

lemma main_recv_state:
  assumes "main_move nb c c'"
  shows "cs_recv c' = cs_recv c \<or> joinable_done c \<or> cs_recv c' = R_loop"
  using assms by (cases rule: main_moveE) (auto simp: use_fd_def close_owned_def)

lemma busy_stays:
  assumes "receiving s \<or> cs_recv (pg_conn s) = R_loop" and "main_move nb (pg_conn s) c"
  shows "receiving (s\<lparr>pg_conn := c\<rparr>) \<or> cs_recv c = R_loop"
proof (cases "receiving s")
  case True
  then show ?thesis using main_move_app[OF assms(2)] by (simp add: receiving_def pending_def)
next
  case False
  then show ?thesis using assms main_recv_state[OF assms(2)] by (auto simp: joinable_done_def)
qed

lemma receiving_pc [simp]: "receiving (s\<lparr>pg_pc := pc\<rparr>) = receiving s"
  "receiving (s\<lparr>pg_worker := w\<rparr>) = receiving s" "receiving (s\<lparr>pg_running := r\<rparr>) = receiving s"
  "receiving (sweep s) = receiving s"
  by (simp_all add: receiving_def pending_def sweep_def split_beta)

lemma sweep_simps [simp]: "pg_conn (sweep s) = pg_conn s" "pg_worker (sweep s) = pg_worker s" "pg_pc (sweep s) = pg_pc s"
  by (simp_all add: sweep_def split_beta)

lemma recv_phase_at:
  assumes "phase_at pc c stop w" and "recv_move f c c'"
  shows "phase_at pc c' stop w"
proof -
  have "cs_recv c \<noteq> R_none" "disconnecting c' = disconnecting c" "cs_main c' = cs_main c"
    using quiet_no_recv recv_disconnecting[OF assms(2)] assms(2) by blast+
  then show ?thesis using assms(1) by (cases "(pc, c, stop, w)" rule: phase_at.cases) (auto simp: quiet_def)
qed

lemma receiver_phase:
  assumes "phase_ok s" and "receiver_step lw s s'"
  shows "phase_ok s'"
  using assms(2)
proof (cases rule: receiver_stepE)
  case (recv c)
  have "receiving (s\<lparr>pg_conn := c\<rparr>) \<or> cs_recv c = R_loop"
    using recv(3,2) by (cases rule: recv_moveE) (auto simp: receiving_def pending_def use_fd_def close_owned_def)
  then show ?thesis using assms(1) recv_phase_at[OF _ recv(3)] by (simp add: phase_ok_def recv(1))
qed (use assms(1) in \<open>auto simp: phase_ok_def receiving_def push_item_def\<close>)

lemma worker_move_stop: "worker_move w w' \<Longrightarrow> ws_stop w' = ws_stop w \<and> ws_pc w \<noteq> Finished"
  by (auto elim: worker_moveE)

lemma worker_phase:
  assumes "phase_ok s" and "worker_move (pg_worker s) w"
  shows "phase_ok (s\<lparr>pg_worker := w\<rparr>)"
  using assms(1) worker_move_stop[OF assms(2)]
  by (cases "(pg_pc s, pg_conn s, ws_stop (pg_worker s), ws_pc (pg_worker s))" rule: phase_at.cases)
    (auto simp: phase_ok_def)

lemma peer_phase_at:
  assumes "peer_move c c'"
  shows "phase_at pc c' stop w = phase_at pc c stop w"
proof -
  note frame = peer_move_frame[OF assms]
  then have "disconnecting c' = disconnecting c" "quiet c' = quiet c" by (simp_all add: disconnecting_def quiet_def)
  then show ?thesis using frame by (cases "(pc, c, stop, w)" rule: phase_at.cases) simp_all
qed

lemma reply_phase_at: "phase_at pc c stop Sending \<Longrightarrow> phase_at pc c stop Sent_one"
  by (cases "(pc, c, stop, Sending)" rule: phase_at.cases) simp_all

lemma environment_phase:
  assumes "phase_ok s" and "environment_step s s'"
  shows "phase_ok s'"
  using assms(2)
proof (cases rule: environment_stepE)
  case (peer c)
  have "receiving s' = receiving s" using peer_move_frame[OF peer(2)] by (simp add: receiving_def pending_def peer(1))
  then show ?thesis using assms(1) peer_move_frame[OF peer(2)] peer_phase_at[OF peer(2)]
    by (simp add: phase_ok_def peer(1))
next
  case (reply w)
  note frame = reporter_move_frame[OF reply(2)]
  then show ?thesis using assms(1) reply_phase_at[of "pg_pc s" "pg_conn s" "ws_stop (pg_worker s)"]
    by (simp add: phase_ok_def reply(1))
qed (use assms(1) in \<open>auto elim!: tickE simp: phase_ok_def\<close>)

lemma main_down:
  assumes "main_move nb c c'" and "disconnecting c'" and "cs_main c = M_idle"
  shows "cs_recv c' = cs_recv c"
  using assms by (cases rule: main_moveE) (auto simp: disconnecting_def)

lemma main_up:
  assumes "main_move nb c c'" and "\<not> disconnecting c" and "cs_main c \<noteq> M_idle"
  shows "\<not> disconnecting c'"
  using assms by (cases rule: main_moveE) (auto simp: disconnecting_def)

lemma quiet_idle: "quiet c \<Longrightarrow> cs_main c = M_idle \<and> cs_recv c = R_none"
  by (simp add: quiet_def)

lemma idle_not_disconnecting: "cs_main c = M_idle \<Longrightarrow> \<not> disconnecting c"
  by (simp add: disconnecting_def)

lemma main_phase:
  assumes "conn_ok (pg_conn s)" and "phase_ok s" and "main_step nb s s'"
  shows "phase_ok s'"
  using assms(3)
proof (cases rule: main_stepE)
  case (construct c)
  then show ?thesis using assms(2) busy_stays[of s nb c] main_up[of nb "pg_conn s" c] by (simp add: phase_ok_def)
next
  case (reconnect n c)
  then show ?thesis using assms(2) busy_stays[of s nb c] by (simp add: phase_ok_def disconnecting_def)
next
  case (connecting n c)
  then show ?thesis using assms(2) busy_stays[of s nb c] main_up[of nb "pg_conn s" c] by (simp add: phase_ok_def)
next
  case (down n c)
  then show ?thesis using assms(2) busy_stays[of s nb c] by (simp add: phase_ok_def)
next
  case (destroy c)
  then show ?thesis using assms(2) busy_stays[of s nb c] disconnect_keeps_none[of nb "pg_conn s" c]
    by (auto simp: phase_ok_def quiet_def)
next
  case (disconnect d c)
  have "disconnecting (pg_conn s)"
    using assms(2) disconnect(2,3) quiet_idle by (cases d) (auto simp: phase_ok_def)
  from closing_main[OF assms(1) this disconnect(4)] have "disconnecting c \<or> quiet c" by blast
  then show ?thesis
    using assms(2) disconnect(1,2) busy_stays[of s nb c] disconnect(4) disconnect_keeps_none[OF disconnect(4)] quiet_idle
    by (cases d) (auto simp: phase_ok_def)
next
  case (disconnected d)
  then show ?thesis using assms(2) idle_not_disconnecting by (cases d) (auto simp: phase_ok_def)
next
  case (stop d w)
  have st: "(ws_stop w = Joined \<longrightarrow> ws_pc w = Finished) \<and> ws_stop w \<noteq> Running \<and> ws_pc w = ws_pc (pg_worker s)"
    using stop(3) by (cases rule: stop_moveE) simp_all
  show ?thesis using assms(2) st by (cases d) (auto simp: phase_ok_def stop(1,2))
qed (use assms(2) in \<open>auto simp: phase_ok_def disconnecting_def\<close>)

lemma program_phase: "program_reachable lw nb s \<Longrightarrow> phase_ok s"
proof (induction rule: program_reachable.induct)
  case (start a clock)
  show ?case
    by (simp add: phase_ok_def program_start_def conn_start_def worker_start_def disconnecting_def receiving_def pending_def)
next
  case (step s s')
  from step(2) show ?case
  proof (cases rule: program_stepE)
    case receiver
    then show ?thesis by (rule receiver_phase[OF step(3)])
  next
    case main
    then show ?thesis by (rule main_phase[OF program_conn_ok[OF step(1)] step(3)])
  next
    case (worker w)
    then show ?thesis using worker_phase[OF step(3)] by simp
  qed
next
  case (environment s s')
  then show ?case using environment_phase by blast
qed

subsection \<open>Nothing is lost in a timely shutdown\<close>

definition second_pass :: "program_pc \<Rightarrow> bool" where
  \<comment> \<open>the destructors, after stop has returned to main\<close>
  "second_pass pc \<longleftrightarrow> pc = G_disconnect True \<or> pc = G_stop True \<or> pc = G_exit"

definition kept_all :: "worker_sys \<Rightarrow> bool" where
  \<comment> \<open>where the worker gives reports up, the drain deadline has passed\<close>
  "kept_all w \<longleftrightarrow> (ws_pc w = Discarding \<longrightarrow> ws_deadline w \<le> ws_clock w) \<and>
     (ws_pc w = Finished \<longrightarrow> ws_deadline w \<le> ws_clock w \<or> (waiting w = [] \<and> (fits 4096 w \<longrightarrow> newest_kept w)))"

lemma worker_kept:
  assumes "worker_reachable 4096 5000 w" and "kept_all w" and "worker_move w w'"
  shows "kept_all w'"
  using assms(3)
proof (cases rule: worker_moveE)
  case (2 q)
  have ok: "worker_ok 4096 w" using worker_reachable_ok[OF assms(1)] .
  then have q: "q = ws_queue w" "rq_contents (ws_queue w) = []"
    using rq.pop_ends_iff[of "ws_queue w" q] 2(3) by (simp_all add: worker_ok_def)
  have "fits 4096 w' \<Longrightarrow> newest_kept w'"
    using newest_kept_until_finished[OF assms(1)] worker_move_newest[OF ok _ assms(3)] 2
    by (simp add: fits_def)
  then show ?thesis using q by (simp add: kept_all_def waiting_def 2(1))
qed (use assms(2) in \<open>simp_all add: kept_all_def\<close>)

lemma kept_running: "worker_ok cap w \<Longrightarrow> ws_stop w = Running \<Longrightarrow> kept_all w"
  by (simp add: worker_ok_def kept_all_def)

lemma stop_kept:
  assumes "worker_ok cap w" and "kept_all w" and "stop_move timeout w w'" and "ws_stop w \<noteq> Joined"
  shows "kept_all w'"
  using assms(3)
proof (cases rule: stop_moveE)
  case 1
  then show ?thesis using assms(1,4) by (auto simp: kept_all_def worker_ok_def)
next
  case 2
  have "rq_ok (ws_queue w)" using assms(1) by (simp add: worker_ok_def)
  then have "waiting w' = waiting w" using rq.shutdown_law by (simp add: waiting_def 2)
  then show ?thesis using assms(2) stop_move_newest[OF assms(1,3)] by (simp add: kept_all_def fits_def 2(1))
next
  case 3
  then show ?thesis using assms(2) stop_move_newest[OF assms(1,3)] by (simp add: kept_all_def fits_def waiting_def)
qed

lemma tick_kept:
  assumes "kept_all w" and "tick w w'"
  shows "kept_all w'"
  using assms(2)
proof (cases rule: tickE)
  case (1 c)
  then show ?thesis using assms(1) tick_newest[OF assms(2)]
    by (auto simp: kept_all_def fits_def waiting_def intro: order_trans)
qed

lemma not_receiving_running:
  assumes "phase_ok s" and "\<not> receiving s"
  shows "ws_stop (pg_worker s) = Running"
proof -
  have "cs_recv (pg_conn s) = R_loop" using assms by (simp add: phase_ok_def)
  then show ?thesis using assms(1)
    by (cases "(pg_pc s, pg_conn s, ws_stop (pg_worker s), ws_pc (pg_worker s))" rule: phase_at.cases)
      (auto simp: phase_ok_def quiet_def)
qed

lemma program_kept:
  "program_reachable lw nb s \<Longrightarrow> second_pass (pg_pc s) \<or> kept_all (pg_worker s)"
proof (induction rule: program_reachable.induct)
  case (start a clock)
  show ?case by (simp add: kept_all_def program_start_def worker_start_def)
next
  case (step s s')
  note wr = program_worker_reachable[OF step(1)] and wok = program_worker_ok[OF step(1)]
    and ph = program_phase[OF step(1)]
  from step(2) show ?case
  proof (cases rule: program_stepE)
    case receiver
    then show ?thesis
    proof (cases rule: receiver_stepE)
      case (push item)
      then have "ws_stop (pg_worker s) = Running" using not_receiving_running[OF ph] by (simp add: receiving_def)
      then have "ws_stop (pg_worker s') = Running" by (simp add: push(1) push_item_def)
      then show ?thesis using kept_running program_worker_ok[OF program_reachable.step[OF step(1,2)]] by blast
    qed (use step(3) in simp_all)
  next
    case main
    then show ?thesis
    proof (cases rule: main_stepE)
      case (stop d w)
      show ?thesis
      proof (cases d)
        case True
        then show ?thesis by (simp add: stop(1) second_pass_def)
      next
        case False
        then have "ws_stop (pg_worker s) \<noteq> Joined" using ph stop(2) by (simp add: phase_ok_def)
        moreover have "kept_all (pg_worker s)" using step(3) False stop(2) by (simp add: second_pass_def)
        ultimately show ?thesis using stop_kept[OF wok _ stop(3)] by (simp add: stop(1))
      qed
    next
      case (disconnected d)
      then show ?thesis using step(3) by (cases d) (auto simp: second_pass_def)
    qed (use step(3) in \<open>auto simp: second_pass_def\<close>)
  next
    case (worker w)
    then show ?thesis using step(3) worker_kept[OF wr] by auto
  qed
next
  case (environment s s')
  from environment(2) show ?case
  proof (cases rule: environment_stepE)
    case (reply w)
    then show ?thesis using environment(3) reporter_move_frame[OF reply(2)] by (auto simp: kept_all_def)
  qed (use environment(3) tick_kept in \<open>auto simp: second_pass_def\<close>)
qed

subsection \<open>The measure of a shutdown\<close>

definition shutting :: "program_pc \<Rightarrow> bool" where
  \<comment> \<open>main has left the loop\<close>
  "shutting pc = (case pc of G_disconnect _ \<Rightarrow> True | G_stop _ \<Rightarrow> True | G_return \<Rightarrow> True | G_exit \<Rightarrow> True | _ \<Rightarrow> False)"

definition stop_work :: "stop_pc \<Rightarrow> nat" where
  "stop_work st = (case st of Deadline_set \<Rightarrow> 2 | Joining \<Rightarrow> 1 | _ \<Rightarrow> 3)"

definition exit_work_main :: "program_pc \<Rightarrow> stop_pc \<Rightarrow> nat" where
  "exit_work_main pc st =
     (case pc of G_disconnect d \<Rightarrow> (if d then 5 else 12) | G_stop d \<Rightarrow> (if d then 1 else 8) + stop_work st
      | G_return \<Rightarrow> 8 | _ \<Rightarrow> 0)"

definition exit_work_recv :: "program \<Rightarrow> nat" where
  \<comment> \<open>each line still to handle can fold and push, and a push gives the worker three more moves; one more
    chunk of at most 4096 lines may arrive\<close>
  "exit_work_recv s = 5 * length (pending s) + (if pg_push s = None then 0 else 4) +
     (case cs_recv (pg_conn s) of R_recv _ \<Rightarrow> 5 * 4096 | _ \<Rightarrow> 0)"

definition exit_work :: "program \<Rightarrow> nat" where
  "exit_work s = exit_work_recv s + close_work (pg_conn s) + work_left (pg_worker s) +
     exit_work_main (pg_pc s) (ws_stop (pg_worker s))"

lemma complete_lines_length: "length (complete_lines s) \<le> length s"
proof -
  have "length (runs s) \<le> Suc (length s)"
  proof (induction s)
    case (Cons c s)
    then show ?case by (cases "runs s") auto
  qed simp
  then have "length (butlast (runs s)) \<le> length s" by simp
  then show ?thesis unfolding complete_lines_def using length_filter_le le_trans by blast
qed

lemma acc_bounded: "conn_reachable process nb app c \<Longrightarrow> length (cs_acc c) \<le> buffer_length"
proof (induction rule: conn_reachable.induct)
  case (recv s t)
  from recv(2) show ?case
  proof (cases rule: recv_moveE)
    case (data n chunk rest stamp acc app)
    then show ?thesis by (auto simp: receive_chunk_spec use_fd_def split: if_splits)
  qed (use recv(3) in \<open>simp_all add: use_fd_def close_owned_def\<close>)
next
  case (main s t)
  from main(2) show ?case
    by (cases rule: main_moveE) (use main(3) in \<open>simp_all add: use_fd_def close_owned_def\<close>)
next
  case (peer s t)
  then show ?case using peer_move_frame[OF peer(2)] by simp
qed (simp add: conn_start_def)

lemma recv_new_lines:
  assumes "recv_move log_line c c'" and "length (cs_acc c) \<le> buffer_length"
  shows "length (cs_app c') \<le> length (cs_app c) + 4096 \<and>
    ((\<exists>n. cs_recv c = R_recv n) \<or> cs_app c' = cs_app c)"
  using assms(1)
proof (cases rule: recv_moveE)
  case (data n chunk rest stamp acc app)
  have "length (complete_lines (cs_acc c @ chunk)) \<le> 4096"
    using complete_lines_length[of "cs_acc c @ chunk"] data(5) assms(2) by (simp add: buffer_length_def)
  then show ?thesis using data by (auto simp: receive_chunk_spec fold_log use_fd_def)
qed (simp_all add: use_fd_def close_owned_def)

lemma pending_bounded: "program_reachable lw nb s \<Longrightarrow> length (pending s) \<le> 4096"
proof (induction rule: program_reachable.induct)
  case (start a clock)
  show ?case by (simp add: pending_def program_start_def conn_start_def)
next
  case (step s s')
  from step(2) show ?case
  proof (cases rule: program_stepE)
    case receiver
    then show ?thesis
    proof (cases rule: receiver_stepE)
      case (recv c)
      have "length (cs_acc (pg_conn s)) \<le> buffer_length"
        using acc_bounded[OF program_conn_reachable[OF step(1)]] .
      from recv_new_lines[OF recv(3) this] show ?thesis using recv(2)
        by (auto simp: recv(1) receiving_def pending_def)
    next
      case (line l t rest reg item)
      show ?thesis using step(3) by (simp add: line(1) pending_def)
    qed (use step(3) in \<open>auto simp: pending_def\<close>)
  next
    case main
    have "cs_app (pg_conn s') = cs_app (pg_conn s)" using main_step_conn[OF main] main_move_app by auto
    moreover have "pg_next s' = pg_next s" using main by (cases rule: main_stepE) (auto simp: sweep_def split: prod.splits)
    ultimately show ?thesis using step(3) by (simp add: pending_def)
  next
    case (worker w)
    then show ?thesis using step(3) by (simp add: pending_def)
  qed
next
  case (environment s s')
  from environment(2,3) show ?case
    by (cases rule: environment_stepE) (auto simp: pending_def dest: peer_move_frame)
qed

lemma push_work:
  assumes "worker_ok cap w"
  shows "work_left (push_item item w) \<le> work_left w + 3"
proof -
  have ok: "rq_ok (ws_queue w)" using assms by (simp add: worker_ok_def)
  have "length (fifo_push n k v xs) \<le> Suc (length xs)" for n k v and xs :: "(u32 \<times> pending_report) list"
    by (simp add: fifo_push_def fifo_update_def)
  then have "length (rq_contents (rq_push k item (ws_queue w))) \<le> Suc (length (rq_contents (ws_queue w)))" for k
    using rq.push_law[OF ok, of k item] by simp
  note le = this[of "pr_icao_address (prep_report item)"]
  show ?thesis using le
    by (auto simp: work_left_def push_item_def Let_def split: worker_pc.splits)
qed

lemma stop_work_left:
  assumes "worker_ok cap w" and "stop_move timeout w w'"
  shows "work_left w' = work_left w"
proof -
  have ok: "rq_ok (ws_queue w)" using assms(1) by (simp add: worker_ok_def)
  show ?thesis using assms(2) by (cases rule: stop_moveE) (simp_all add: work_left_def rq.shutdown_law[OF ok])
qed

lemma exit_work_frame [simp]:
  "exit_work_recv (s\<lparr>pg_pc := pc\<rparr>) = exit_work_recv s"
  "exit_work_recv (s\<lparr>pg_worker := w\<rparr>) = exit_work_recv s"
  "exit_work_recv (s\<lparr>pg_running := r\<rparr>) = exit_work_recv s"
  by (simp_all add: exit_work_recv_def pending_def)

lemma shutting_quiet:
  assumes "phase_ok s" and "shutting (pg_pc s)" and "recv_move f (pg_conn s) c"
  shows "disconnecting (pg_conn s)"
  using assms(1,2) quiet_no_recv[of "pg_conn s"] assms(3)
  by (cases "(pg_pc s, pg_conn s, ws_stop (pg_worker s), ws_pc (pg_worker s))" rule: phase_at.cases)
    (auto simp: phase_ok_def shutting_def quiet_def)

lemma receiver_exit_work:
  assumes "program_reachable lw nb s" and "16 \<le> lw" and "shutting (pg_pc s)" and "receiver_step lw s s'"
  shows "exit_work s' < exit_work s"
  using assms(4)
proof (cases rule: receiver_stepE)
  case (recv c)
  note ph = program_phase[OF assms(1)] and cok = program_conn_ok[OF assms(1)]
  have d: "disconnecting (pg_conn s)" by (rule shutting_quiet[OF ph assms(3) recv(3)])
  have acc: "length (cs_acc (pg_conn s)) \<le> buffer_length" using acc_bounded[OF program_conn_reachable[OF assms(1)]] .
  note new = recv_new_lines[OF recv(3) acc]
  have less: "close_work c < close_work (pg_conn s)" using closing_recv[OF cok d recv(3)] by blast
  have none: "pending s = []" "pg_push s = None" using recv(2) by (simp_all add: receiving_def)
  have fd: "cs_fd (pg_conn s) = -1" using disconnecting_fd[OF cok d] .
  have not_recv: "cs_recv c \<noteq> R_recv n" for n
    using recv(3) fd by (cases rule: recv_moveE) (auto simp: use_fd_def close_owned_def)
  have "exit_work_recv s' \<le> exit_work_recv s"
  proof (cases "\<exists>n. cs_recv (pg_conn s) = R_recv n")
    case True
    have "length (pending s') \<le> 4096" using new none(1) by (auto simp: recv(1) pending_def)
    then show ?thesis using True none not_recv
      by (auto simp: exit_work_recv_def recv(1) split: recv_pc.splits)
  next
    case False
    then have "cs_app c = cs_app (pg_conn s)" using new by blast
    then show ?thesis using not_recv none by (auto simp: exit_work_recv_def recv(1) pending_def split: recv_pc.splits)
  qed
  then show ?thesis using less by (simp add: exit_work_def recv(1))
next
  case (line l t rest reg item)
  have "pending s' = tl (pending s)" by (simp add: pending_def line(1) drop_Suc tl_drop)
  then have "pending s' = rest" by (simp add: line(3))
  then show ?thesis using line by (auto simp: exit_work_def exit_work_recv_def line(1))
next
  case (undefined l t rest)
  have "\<not> pg_undefined s'" using program_reachable_ok[OF assms(2) program_reachable.step[OF assms(1) program_step.receiver[OF assms(4)]]]
    by (simp add: program_ok_def)
  then show ?thesis by (simp add: undefined(1))
next
  case (push item)
  have "work_left (push_item item (pg_worker s)) \<le> work_left (pg_worker s) + 3"
    by (rule push_work[OF program_worker_ok[OF assms(1)]])
  moreover have "exit_work_recv s = exit_work_recv s' + 4" by (simp add: exit_work_recv_def push(1,2) pending_def)
  ultimately show ?thesis by (simp add: exit_work_def push(1) push_item_def)
qed

lemma main_exit_work:
  assumes "program_reachable lw nb s" and "shutting (pg_pc s)" and "main_step nb s s'"
  shows "exit_work s' < exit_work s \<and> shutting (pg_pc s')"
  using assms(3)
proof (cases rule: main_stepE)
  case (disconnect d c)
  note ph = program_phase[OF assms(1)] and cok = program_conn_ok[OF assms(1)]
  have dis: "disconnecting (pg_conn s)"
    using ph disconnect(2,3) quiet_idle by (cases d) (auto simp: phase_ok_def)
  have "close_work c < close_work (pg_conn s)" using closing_main[OF cok dis disconnect(4)] by blast
  moreover have "exit_work_recv s' = exit_work_recv s"
  proof -
    have "cs_recv c = cs_recv (pg_conn s) \<or> cs_recv c = R_none \<and> joinable_done (pg_conn s)"
      using disconnect(4) dis by (cases rule: main_moveE) (auto simp: disconnecting_def use_fd_def close_owned_def)
    then show ?thesis using main_move_app[OF disconnect(4)]
      by (auto simp: exit_work_recv_def disconnect(1) pending_def joinable_done_def)
  qed
  ultimately show ?thesis using assms(2) by (simp add: exit_work_def disconnect(1))
next
  case (disconnected d)
  then show ?thesis using program_phase[OF assms(1)]
    by (cases d) (auto simp: exit_work_def exit_work_main_def shutting_def phase_ok_def stop_work_def
        disconnecting_def split: stop_pc.splits)
next
  case (stop d w)
  have "work_left w = work_left (pg_worker s)" using stop_work_left[OF program_worker_ok[OF assms(1)] stop(3)] .
  moreover have "exit_work_main (pg_pc s') (ws_stop w) < exit_work_main (pg_pc s) (ws_stop (pg_worker s))"
    using stop(3) by (cases rule: stop_moveE) (auto simp: exit_work_main_def stop_work_def stop(1,2))
  ultimately show ?thesis by (auto simp: exit_work_def stop(1) shutting_def)
next
  case (destroy c)
  note ph = program_phase[OF assms(1)]
  have q: "quiet (pg_conn s)" using ph destroy(2) by (simp add: phase_ok_def)
  have "close_work c = 2 \<and> cs_recv c = R_none"
    using destroy(3) q destroy(4) by (cases rule: main_moveE) (auto simp: close_work_def quiet_def disconnecting_def)
  moreover have "exit_work_recv s' = exit_work_recv s"
    using main_move_app[OF destroy(3)] calculation q by (simp add: exit_work_recv_def destroy(1) pending_def quiet_def)
  moreover have "close_work (pg_conn s) = 0" using q by (simp add: close_work_def quiet_def)
  ultimately show ?thesis by (simp add: exit_work_def exit_work_main_def destroy(1,2) shutting_def)
qed (use assms(2) in \<open>simp_all add: shutting_def\<close>)

lemma worker_exit_work:
  assumes "program_reachable lw nb s" and "worker_move (pg_worker s) w"
  shows "exit_work (s\<lparr>pg_worker := w\<rparr>) < exit_work s"
  using worker_move_decreases[OF program_worker_ok[OF assms(1)] assms(2)] worker_move_stop[OF assms(2)]
  by (simp add: exit_work_def)

lemma receiver_pc: "receiver_step lw s s' \<Longrightarrow> pg_pc s' = pg_pc s"
  by (erule receiver_stepE) simp_all

lemma program_exit_work:
  assumes "program_reachable lw nb s" and "16 \<le> lw" and "shutting (pg_pc s)" and "program_step lw nb s s'"
  shows "exit_work s' < exit_work s \<and> shutting (pg_pc s')"
  using assms(4)
proof (cases rule: program_stepE)
  case receiver
  then show ?thesis using receiver_exit_work[OF assms(1-3) receiver] receiver_pc assms(3) by metis
next
  case main
  then show ?thesis using main_exit_work[OF assms(1,3)] by blast
next
  case (worker w)
  then show ?thesis using worker_exit_work[OF assms(1) worker(2)] assms(3) by simp
qed

subsection \<open>Progress\<close>

definition moves_on :: "nat \<Rightarrow> u32 \<Rightarrow> program \<Rightarrow> bool" where
  \<comment> \<open>some thread of the program can move, and not by receiving\<close>
  "moves_on lw nb s \<longleftrightarrow>
     (\<exists>s'. program_step lw nb s s' \<and> cs_app (pg_conn s') = cs_app (pg_conn s) \<and> now_of s' = now_of s)"

lemma busy_receiver_moves:
  assumes "\<not> receiving s"
  shows "\<exists>s'. receiver_step lw s s' \<and> cs_app (pg_conn s') = cs_app (pg_conn s) \<and> now_of s' = now_of s"
proof (cases "pg_push s")
  case None
  then obtain l t rest where p: "pending s = (l, t) # rest"
    using assms by (cases "pending s") (auto simp: receiving_def)
  show ?thesis
  proof (cases "processMessage lw (Some fold_message) l t (Some (pg_registry s, None))")
    case None': None
    show ?thesis
      using receiver_step.t_undefined[OF None p None']
      by (intro exI conjI) (assumption, simp_all)
  next
    case (Some r)
    then obtain reg item where "processMessage lw (Some fold_message) l t (Some (pg_registry s, None)) = Some (reg, item)"
      by (cases r) auto
    from receiver_step.t_line[OF None p this] show ?thesis
      by (intro exI conjI) (assumption, simp_all)
  qed
next
  case (Some item)
  from receiver_step.t_push[OF this, of lw] show ?thesis
    by (intro exI conjI) (assumption, simp_all add: push_item_def)
qed

lemma busy_receiver_steps: "\<not> receiving s \<Longrightarrow> (\<exists>c. main_move nb (pg_conn s) c) \<or> (\<exists>s'. receiver_step lw s s')"
  using busy_receiver_moves[of s lw] by blast

lemma receiver_moves_on: "\<not> receiving s \<Longrightarrow> moves_on lw nb s"
  using busy_receiver_moves[of s lw] unfolding moves_on_def by (blast intro: program_step.receiver)

lemma main_moves_on:
  "main_step nb s s' \<Longrightarrow> now_of s' = now_of s \<Longrightarrow> moves_on lw nb s"
  unfolding moves_on_def using main_step_conn[of nb s s'] main_move_app
  by (intro exI[of _ s'] conjI program_step.main) auto

lemma disconnect_moves_on:
  assumes "program_reachable lw nb s" and "pg_pc s = G_disconnect d" and "receiving s"
  shows "moves_on lw nb s"
proof (cases "cs_main (pg_conn s) = M_idle")
  case True
  from main_moves_on[OF main_step.g_disconnected[OF assms(2) True]] show ?thesis by simp
next
  case False
  note ph = program_phase[OF assms(1)] and cok = program_conn_ok[OF assms(1)]
  have d: "disconnecting (pg_conn s)"
    using ph assms(2) False quiet_idle by (cases d) (auto simp: phase_ok_def)
  show ?thesis
  proof (cases "joinable_done (pg_conn s) \<or> (\<exists>n. cs_main (pg_conn s) = M_shut n)")
    case True
    then obtain c where "main_move nb (pg_conn s) c" using main_can_disconnect d by blast
    from main_moves_on[OF main_step.g_disconnect[OF assms(2) False this]] show ?thesis by simp
  next
    case nd: False
    then have "cs_recv (pg_conn s) = R_recv n \<Longrightarrow> cs_ended (pg_conn s) n" for n
      using closing_unblocked[OF cok d] by blast
    then obtain c where c: "recv_move log_line (pg_conn s) c" "cs_app c = cs_app (pg_conn s)"
      using recv_can_end[of "pg_conn s" log_line] nd disconnecting_fd[OF cok d] by blast
    have "\<forall>(l, t)\<in>set (drop (pg_next s) (cs_app c)). t = now_of s"
      using assms(3) by (simp add: c(2) receiving_def pending_def)
    from receiver_step.t_recv[OF assms(3) c(1) this, of lw] show ?thesis unfolding moves_on_def using c(2)
      by (intro exI conjI program_step.receiver) (assumption, simp_all)
  qed
qed

definition awaits_reporter :: "program \<Rightarrow> bool" where
  \<comment> \<open>main is in the join of stop, and the worker in a call of reportAircraft that has not returned\<close>
  "awaits_reporter s \<longleftrightarrow> pg_pc s = G_stop False \<and> ws_stop (pg_worker s) = Joining \<and> ws_pc (pg_worker s) = Sending"

lemma stop_moves_on:
  assumes "program_reachable lw nb s" and "pg_pc s = G_stop d" and "\<not> awaits_reporter s"
  shows "moves_on lw nb s"
proof -
  let ?w = "pg_worker s"
  have wok: "worker_ok 4096 ?w" using program_worker_ok[OF assms(1)] .
  have main: "moves_on lw nb s" if "stop_move default_drain_timeout_ms ?w w" "ws_clock w = now_of s" for w
    using main_moves_on[OF main_step.g_stop[OF assms(2) that(1)]] that(2) by simp
  show ?thesis
  proof (cases "ws_stop ?w")
    case Running
    show ?thesis by (rule main[OF stop_move.s_deadline]) (simp_all add: Running)
  next
    case Joined
    show ?thesis by (rule main[OF stop_move.s_deadline]) (simp_all add: Joined)
  next
    case Deadline_set
    show ?thesis by (rule main[OF stop_move.s_shutdown]) (simp_all add: Deadline_set)
  next
    case Joining
    show ?thesis
    proof (cases "ws_pc ?w = Finished")
      case True
      show ?thesis by (rule main[OF stop_move.s_join]) (simp_all add: Joining True)
    next
      case False
      have "rq_stopped (ws_queue ?w)" using wok Joining by (simp add: worker_ok_def)
      moreover have "ws_pc ?w \<noteq> Sending"
        using assms(2,3) Joining program_phase[OF assms(1)] by (cases d) (auto simp: awaits_reporter_def phase_ok_def)
      ultimately obtain w where w: "worker_move ?w w" using worker_progress[OF wok _ False] by blast
      show ?thesis unfolding moves_on_def
        by (rule exI, rule conjI, rule program_step.worker[OF w]) (simp add: worker_move_frame[OF wok w])
    qed
  qed
qed

lemma shutting_moves_on:
  assumes "program_reachable lw nb s" and "shutting (pg_pc s)" and "pg_pc s \<noteq> G_exit" and "\<not> awaits_reporter s"
  shows "moves_on lw nb s"
proof (cases "receiving s")
  case True
  from assms(2,3) consider d where "pg_pc s = G_disconnect d" | d where "pg_pc s = G_stop d" | "pg_pc s = G_return"
    by (cases "pg_pc s") (auto simp: shutting_def)
  then show ?thesis
  proof cases
    case 3
    then have q: "quiet (pg_conn s)" using program_phase[OF assms(1)] by (simp add: phase_ok_def)
    let ?c = "(pg_conn s)\<lparr>cs_fd := -1, cs_main := M_join (-1)\<rparr>"
    have "main_move nb (pg_conn s) ?c" using main_move.m_disconnect[of "pg_conn s" nb] q by (simp add: quiet_def)
    from main_moves_on[OF main_step.g_destroy[OF 3 this]] show ?thesis by (simp add: disconnecting_def)
  qed (use disconnect_moves_on[OF assms(1) _ True] stop_moves_on[OF assms(1) _ assms(4)] in auto)
next
  case False
  then show ?thesis by (rule receiver_moves_on)
qed

subsection \<open>Runs to the end\<close>

text \<open>Runs of the whole program with its environment, counting the program's moves.\<close>

inductive exit_run :: "nat \<Rightarrow> u32 \<Rightarrow> nat \<Rightarrow> program \<Rightarrow> program \<Rightarrow> bool" for lw :: nat and o_nonblock :: u32 where
  here: "exit_run lw o_nonblock 0 s s"
| move: "exit_run lw o_nonblock n s t \<Longrightarrow> program_step lw o_nonblock t u \<Longrightarrow> exit_run lw o_nonblock (Suc n) s u"
| environment: "exit_run lw o_nonblock n s t \<Longrightarrow> environment_step t u \<Longrightarrow> exit_run lw o_nonblock n s u"

lemma environment_exit_work:
  assumes "environment_step s s'"
  shows "exit_work s' = exit_work s \<and> shutting (pg_pc s') = shutting (pg_pc s)"
  using assms
proof (cases rule: environment_stepE)
  case (peer c)
  note frame = peer_move_frame[OF peer(2)]
  have "exit_work_recv s' = exit_work_recv s" using frame by (simp add: exit_work_recv_def pending_def peer(1))
  then show ?thesis using frame by (simp add: exit_work_def close_work_def peer(1))
next
  case (reply w)
  then show ?thesis using reporter_move_frame[OF reply(2)] by (simp add: exit_work_def)
next
  case (attempted n)
  then show ?thesis by (simp add: exit_work_def exit_work_main_def shutting_def)
qed (auto elim!: tickE simp: exit_work_def work_left_def)

lemma exit_run_ok:
  assumes "exit_run lw nb n s s'" and "program_reachable lw nb s" and "16 \<le> lw" and "shutting (pg_pc s)"
  shows "program_reachable lw nb s' \<and> shutting (pg_pc s') \<and> n + exit_work s' \<le> exit_work s"
  using assms
proof (induction rule: exit_run.induct)
  case (move n s t u)
  then have ih: "program_reachable lw nb t" "shutting (pg_pc t)" "n + exit_work t \<le> exit_work s" by simp_all
  show ?case using program_exit_work[OF ih(1) move(5) ih(2) move(2)] program_reachable.step[OF ih(1) move(2)] ih(3)
    by simp
next
  case (environment n s t u)
  then show ?case using environment_exit_work[OF environment(2)] program_reachable.environment by metis
qed simp

lemma exit_work_bound:
  assumes "program_reachable lw nb s"
  shows "exit_work s \<le> 53273"
proof -
  have "exit_work_recv s \<le> 5 * 4096 + 4 + 5 * 4096"
    using pending_bounded[OF assms] by (simp add: exit_work_recv_def split: recv_pc.splits)
  moreover have "close_work (pg_conn s) \<le> 6"
    by (simp add: close_work_def split: recv_pc.splits main_pc.splits)
  moreover have "work_left (pg_worker s) \<le> 3 * 4096 + 3" using work_left_bound[OF program_worker_ok[OF assms]] .
  moreover have "exit_work_main (pg_pc s) (ws_stop (pg_worker s)) \<le> 12"
    by (simp add: exit_work_main_def stop_work_def split: program_pc.splits stop_pc.splits)
  ultimately show ?thesis by (simp add: exit_work_def)
qed

subsection \<open>From the signal to the shutdown\<close>

text \<open>Runs of the whole program after a signal, counting the moves of the main thread.\<close>

inductive signalled_run :: "nat \<Rightarrow> u32 \<Rightarrow> nat \<Rightarrow> program \<Rightarrow> program \<Rightarrow> bool" for lw :: nat and o_nonblock :: u32 where
  here: "signalled_run lw o_nonblock 0 s s"
| main: "signalled_run lw o_nonblock n s t \<Longrightarrow> \<not> shutting (pg_pc t) \<Longrightarrow> main_step o_nonblock t u \<Longrightarrow>
    signalled_run lw o_nonblock (Suc n) s u"
| receiver: "signalled_run lw o_nonblock n s t \<Longrightarrow> receiver_step lw t u \<Longrightarrow> signalled_run lw o_nonblock n s u"
| worker: "signalled_run lw o_nonblock n s t \<Longrightarrow> worker_move (pg_worker t) w \<Longrightarrow>
    signalled_run lw o_nonblock n s (t\<lparr>pg_worker := w\<rparr>)"
| environment: "signalled_run lw o_nonblock n s t \<Longrightarrow> environment_step t u \<Longrightarrow> signalled_run lw o_nonblock n s u"

definition loop_left :: "program_pc \<Rightarrow> main_pc \<Rightarrow> nat" where
  \<comment> \<open>moves of main until it leaves the loop\<close>
  "loop_left pc m =
     (let connecting = (case m of M_connect \<Rightarrow> 2 | M_connecting \<Rightarrow> 1 | _ \<Rightarrow> 0)
      in case pc of G_construct \<Rightarrow> 2 + connecting | G_test _ \<Rightarrow> 1 | G_sleep _ \<Rightarrow> 7 | G_reconnect _ \<Rightarrow> 6
         | G_connecting _ \<Rightarrow> 3 + connecting | G_attempt _ \<Rightarrow> 2 | G_count _ \<Rightarrow> 2 | _ \<Rightarrow> 0)"

lemma main_loop_left:
  assumes "phase_ok s" and "\<not> pg_running s" and "\<not> shutting (pg_pc s)" and "main_step nb s s'"
  shows "loop_left (pg_pc s') (cs_main (pg_conn s')) < loop_left (pg_pc s) (cs_main (pg_conn s)) \<and> \<not> pg_running s'"
  using assms(4)
proof (cases rule: main_stepE)
  case (construct c)
  have "\<not> disconnecting (pg_conn s)" using assms(1) construct(2) by (simp add: phase_ok_def)
  with construct(4,3) assms(2) show ?thesis
    by (cases rule: main_moveE) (auto simp: construct(1,2) loop_left_def disconnecting_def)
next
  case (connecting n c)
  have "\<not> disconnecting (pg_conn s)" using assms(1) connecting(2) by (simp add: phase_ok_def)
  with connecting(4,3) assms(2) show ?thesis
    by (cases rule: main_moveE) (auto simp: connecting(1,2) loop_left_def disconnecting_def)
next
  case (sweeping n)
  then show ?thesis using assms(2) by (simp add: loop_left_def sweep_def split_beta)
qed (use assms(2,3) in \<open>auto simp: loop_left_def shutting_def Let_def\<close>)

lemma loop_left_frame:
  "receiver_step lw s s' \<Longrightarrow> pg_pc s' = pg_pc s \<and> cs_main (pg_conn s') = cs_main (pg_conn s) \<and> pg_running s' = pg_running s"
  "environment_step s s' \<Longrightarrow> loop_left (pg_pc s') (cs_main (pg_conn s')) = loop_left (pg_pc s) (cs_main (pg_conn s)) \<and>
     (pg_running s' \<longrightarrow> pg_running s)"
  by (auto elim!: receiver_stepE environment_stepE dest: recv_disconnecting peer_move_frame simp: loop_left_def)

lemma signalled_run_ok:
  assumes "signalled_run lw nb n s s'" and "program_reachable lw nb s" and "\<not> pg_running s"
  shows "program_reachable lw nb s' \<and> \<not> pg_running s' \<and>
    n + loop_left (pg_pc s') (cs_main (pg_conn s')) \<le> loop_left (pg_pc s) (cs_main (pg_conn s))"
  using assms
proof (induction rule: signalled_run.induct)
  case (main n s t u)
  then have ih: "program_reachable lw nb t" "\<not> pg_running t"
    "n + loop_left (pg_pc t) (cs_main (pg_conn t)) \<le> loop_left (pg_pc s) (cs_main (pg_conn s))" by simp_all
  show ?case using main_loop_left[OF program_phase[OF ih(1)] ih(2) main(2,3)] ih(3)
      program_reachable.step[OF ih(1) program_step.main[OF main(3)]] by simp
next
  case (receiver n s t u)
  then show ?case using loop_left_frame(1)[OF receiver(2)] program_reachable.step[OF _ program_step.receiver[OF receiver(2)]]
    by simp
next
  case (worker n s t w)
  then show ?case using program_reachable.step[OF _ program_step.worker[OF worker(2)]] by simp
next
  case (environment n s t u)
  then show ?case using loop_left_frame(2)[OF environment(2)] program_reachable.environment[OF _ environment(2)] by auto
qed simp

definition last_close :: "nat \<Rightarrow> u32 \<Rightarrow> program \<Rightarrow> bool" where
  \<comment> \<open>the receive thread has one move left, the close of a dropped connection, and then main can move\<close>
  "last_close lw nb s \<longleftrightarrow> (\<exists>n. cs_recv (pg_conn s) = R_close n) \<and> (\<exists>s'. receiver_step lw s s') \<and>
     (\<forall>s'. receiver_step lw s s' \<longrightarrow> (\<exists>s''. main_step nb s' s''))"

lemma connecting_step:
  assumes "pg_pc s = G_construct \<or> (\<exists>n. pg_pc s = G_connecting n)" and "cs_main (pg_conn s) \<noteq> M_idle"
    and "main_move nb (pg_conn s) c"
  shows "\<exists>s'. main_step nb s s'"
  using assms main_step.g_construct main_step.g_connecting by blast

lemma connect_can_move:
  assumes "program_reachable lw nb s" and pc: "pg_pc s = G_construct \<or> (\<exists>n. pg_pc s = G_connecting n)"
    and "cs_main (pg_conn s) = M_connect \<or> cs_main (pg_conn s) = M_connecting"
  shows "(\<exists>s'. main_step nb s s') \<or> last_close lw nb s"
proof (cases "cs_main (pg_conn s) = M_connecting")
  case True
  have "main_move nb (pg_conn s) ((pg_conn s)\<lparr>cs_kernel := cs_kernel (pg_conn s), cs_main := M_idle\<rparr>)"
    by (rule main_move.m_unreachable[OF True, of "[]"]) simp_all
  then show ?thesis using connecting_step[OF pc] True by auto
next
  case False
  then have m: "cs_main (pg_conn s) = M_connect" using assms(3) by simp
  show ?thesis
  proof (cases "joinable_done (pg_conn s)")
    case True
    then show ?thesis using connecting_step[OF pc _ main_move.m_join_old[OF m True]] m by auto
  next
    case nd: False
    have "recv_alone (pg_conn s)" using program_conn_ok[OF assms(1)] m by (auto simp: conn_ok_def split: if_splits)
    with nd obtain k where k: "cs_recv (pg_conn s) = R_close k"
      by (auto simp: recv_alone_def joinable_done_def split: recv_pc.splits)
    have rec: "receiving s" using program_phase[OF assms(1)] k by (simp add: phase_ok_def)
    let ?c = "(close_owned k (pg_conn s))\<lparr>cs_recv := R_exited\<rparr>"
    have "receiver_step lw s (s\<lparr>pg_conn := ?c\<rparr>)"
      by (rule receiver_step.t_recv[OF rec recv_move.r_close[OF k]])
        (use rec in \<open>simp add: close_owned_def use_fd_def receiving_def pending_def\<close>)
    moreover have "\<exists>s''. main_step nb s' s''" if "receiver_step lw s s'" for s'
      using that
    proof (cases rule: receiver_stepE)
      case (recv c)
      have c: "cs_recv c = R_exited" "cs_main c = M_connect"
        using recv(3) k m by (cases rule: recv_moveE; simp add: close_owned_def use_fd_def)+
      then have "main_move nb c (c\<lparr>cs_recv := R_none, cs_main := M_connecting\<rparr>)"
        by (intro main_move.m_join_old) (simp_all add: joinable_done_def)
      then show ?thesis using connecting_step[of s' nb] pc c(2) by (simp add: recv(1))
    qed (use rec in \<open>simp_all add: receiving_def\<close>)
    ultimately show ?thesis using k unfolding last_close_def by blast
  qed
qed

lemma signalled_progress:
  assumes "program_reachable lw nb s" and "\<not> pg_running s" and "\<not> shutting (pg_pc s)" and "\<nexists>n. pg_pc s = G_attempt n"
  shows "(\<exists>s'. main_step nb s s') \<or> last_close lw nb s"
proof -
  have ph: "phase_ok s" using program_phase[OF assms(1)] .
  have conn: "(\<exists>s'. main_step nb s s') \<or> last_close lw nb s"
    if pc: "pg_pc s = G_construct \<or> (\<exists>n. pg_pc s = G_connecting n)"
  proof (cases "cs_main (pg_conn s) = M_idle")
    case True
    then show ?thesis using pc main_step.g_constructed main_step.g_connected by blast
  next
    case False
    have "\<not> disconnecting (pg_conn s)" using ph pc by (auto simp: phase_ok_def)
    then have "cs_main (pg_conn s) = M_connect \<or> cs_main (pg_conn s) = M_connecting"
      using False by (cases "cs_main (pg_conn s)") (simp_all add: disconnecting_def)
    then show ?thesis by (rule connect_can_move[OF assms(1) pc])
  qed
  show ?thesis
  proof (cases "pg_pc s")
    case (G_test n)
    then have m: "cs_main (pg_conn s) = M_idle" using ph by (simp add: phase_ok_def)
    have "disconnecting ((pg_conn s)\<lparr>cs_fd := -1,
        cs_main := (if cs_fd (pg_conn s) \<noteq> -1 then M_shut (cs_fd (pg_conn s)) else M_join (-1))\<rparr>)"
      by (simp add: disconnecting_def)
    from main_step.g_down[OF G_test assms(2) main_move.m_disconnect[OF m] this] show ?thesis by blast
  next
    case (G_sleep n)
    from main_step.g_sleep[OF this] show ?thesis by blast
  next
    case (G_reconnect n)
    then have m: "cs_main (pg_conn s) = M_idle" using ph by (simp add: phase_ok_def)
    show ?thesis
    proof (cases "cs_fd (pg_conn s) = -1 \<and> retry_due (cs_backoff (pg_conn s)) (now_of s)")
      case True
      from main_step.g_reconnect[OF G_reconnect main_move.m_reconnect[OF m, of "now_of s"]] True show ?thesis
        by (auto simp: note_attempt_def)
    next
      case False
      then show ?thesis using main_step.g_no_reconnect[OF G_reconnect] by blast
    qed
  next
    case (G_count n)
    then show ?thesis using main_step.g_count main_step.g_sweep by blast
  qed (use conn assms(3,4) in \<open>auto simp: shutting_def\<close>)
qed

subsection \<open>Properties\<close>

text \<open>C15: a stop signal is obeyed: after it main makes at most seven more moves before it leaves the loop and
  starts to disconnect. Until then it can always move, whatever the dump1090 server does, with two
  exceptions: while a call of the library's attemptReconnect has not returned, and while a reconnect
  joins the receive thread of a dropped connection, which then has a single move left, always open
  to it, after which main can move. A reconnect's own calls, the resolver and the connection attempts
  with their bounded waits, and the sleep are taken to return.\<close>

theorem signal_leads_to_shutdown:
  assumes "program_reachable lw nb s" and "\<not> pg_running s" and "signalled_run lw nb n s s'"
  shows "n \<le> 7 \<and>
    (shutting (pg_pc s') \<or> (\<exists>s''. main_step nb s' s'') \<or> (\<exists>k. pg_pc s' = G_attempt k) \<or>
     (\<exists>k. cs_recv (pg_conn s') = R_close k) \<and> (\<exists>s''. receiver_step lw s' s'') \<and>
       (\<forall>s''. receiver_step lw s' s'' \<longrightarrow> (\<exists>t. main_step nb s'' t)))"
proof -
  note run = signalled_run_ok[OF assms(3,1,2)]
  have "loop_left (pg_pc s) (cs_main (pg_conn s)) \<le> 7"
    by (simp add: loop_left_def split: program_pc.splits main_pc.splits)
  then show ?thesis using run signalled_progress[of lw nb s'] by (auto simp: last_close_def)
qed

text \<open>C5: the program exits as soon as its sends return: from the moment main has left its loop, whatever the
  dump1090 server, the clock and the scheduler do, the threads make at most 53273 moves in all, and
  some thread can move until main has returned and the destructors have run. The one thing they may
  wait for is a call of reportAircraft that has not returned, while main is in the join of stop: no
  byte and no end of a connection is waited for, since disconnect has shut the socket down. At the
  end no descriptor is open, both threads have been joined, and every line received has been
  handled.\<close>

theorem program_always_exits:
  assumes "16 \<le> lw" and "program_reachable lw nb s" and "shutting (pg_pc s)" and "exit_run lw nb n s s'"
  shows "n \<le> 53273 \<and>
    (if pg_pc s' = G_exit
     then cs_kernel (pg_conn s') = (\<lambda>_. None) \<and> cs_recv (pg_conn s') = R_none \<and>
       ws_pc (pg_worker s') = Finished \<and> pending s' = [] \<and> pg_push s' = None
     else (\<exists>s''. program_step lw nb s' s'') \<or>
       pg_pc s' = G_stop False \<and> ws_stop (pg_worker s') = Joining \<and> ws_pc (pg_worker s') = Sending)"
proof -
  note run = exit_run_ok[OF assms(4,2,1,3)]
  have "n \<le> 53273" using run exit_work_bound[OF assms(2)] by simp
  moreover have "(\<exists>s''. program_step lw nb s' s'') \<or> awaits_reporter s'" if "pg_pc s' \<noteq> G_exit"
    using shutting_moves_on[of lw nb s'] run that by (auto simp: moves_on_def)
  moreover have "cs_kernel (pg_conn s') = (\<lambda>_. None) \<and> cs_recv (pg_conn s') = R_none \<and>
      ws_pc (pg_worker s') = Finished \<and> pending s' = [] \<and> pg_push s' = None" if "pg_pc s' = G_exit"
  proof -
    have ph: "phase_ok s'" using program_phase run by blast
    then have "quiet (pg_conn s')" "ws_pc (pg_worker s') = Finished" using that by (simp_all add: phase_ok_def)
    then show ?thesis using quiet_receiving[OF ph] by (simp add: quiet_def receiving_def)
  qed
  ultimately show ?thesis by (auto simp: awaits_reporter_def)
qed

definition latest_fix :: "u32 \<Rightarrow> (u32 \<times> Point \<times> u64) list \<Rightarrow> (u32 \<times> Point \<times> u64) option" where
  "latest_fix k fs = (let own = filter (\<lambda>(a, _, _). a = k) fs in if own = [] then None else Some (last own))"

definition received_fixes :: "nat \<Rightarrow> (string \<times> u64) list \<Rightarrow> (u32 \<times> Point \<times> u64) list" where
  \<comment> \<open>the positions in a log of lines\<close>
  "received_fixes lw lines =
     map position_fix (filter (\<lambda>m. valid (pos m)) (List.map_filter (\<lambda>(l, t). parse_message lw l t) lines))"

lemma newest_fix: "map_option report_fix (newest k xs) = latest_fix k (map report_fix xs)"
  by (auto simp: newest_def latest_fix_def report_fix_aircraft [symmetric] Let_def last_map)

lemma all_delivered:
  assumes "program_ok lw s" and "receiving s"
  shows "delivered lw s = List.map_filter (\<lambda>(l, t). parse_message lw l t) (cs_app (pg_conn s))"
    and "map report_fix (ws_pushed (pg_worker s)) = received_fixes lw (cs_app (pg_conn s))"
proof -
  have "pg_next s = length (cs_app (pg_conn s))"
    using assms by (auto simp: program_ok_def receiving_def pending_def)
  then show d: "delivered lw s = List.map_filter (\<lambda>(l, t). parse_message lw l t) (cs_app (pg_conn s))"
    by (simp add: delivered_def)
  have "outputs s = ws_pushed (pg_worker s)" using assms(2) by (simp add: outputs_def receiving_def)
  then show "map report_fix (ws_pushed (pg_worker s)) = received_fixes lw (cs_app (pg_conn s))"
    using assms(1) d by (simp add: program_ok_def received_fixes_def)
qed

lemma pushed_aircraft:
  assumes "program_ok lw s" and "receiving s"
  shows "report_address ` set (ws_pushed (pg_worker s)) = fst ` set (received_fixes lw (cs_app (pg_conn s)))"
  by (simp add: all_delivered(2)[OF assms, symmetric] image_image report_fix_def)

text \<open>C4: an orderly shutdown loses nothing that matters: when the worker's stop returns to main before its drain
  deadline, and the aircraft that reported positions fit the queue, the last report sent for every
  aircraft is the last position that was received for it, over the whole life of the program.\<close>

theorem shutdown_sends_newest_positions:
  assumes "16 \<le> lw" and "program_reachable lw nb s" and "pg_pc s = G_return"
    and "now_of s < ws_deadline (pg_worker s)"
    and "card (fst ` set (received_fixes lw (cs_app (pg_conn s)))) \<le> 4096"
  shows "map_option report_fix (newest k (map fst (ws_sent (pg_worker s)))) =
    latest_fix k (received_fixes lw (cs_app (pg_conn s)))"
proof -
  let ?w = "pg_worker s"
  have ok: "program_ok lw s" using program_reachable_ok[OF assms(1,2)] .
  have ph: "phase_ok s" using program_phase[OF assms(2)] .
  then have fin: "quiet (pg_conn s)" "ws_pc ?w = Finished" using assms(3) by (simp_all add: phase_ok_def)
  have rec: "receiving s" using quiet_receiving[OF ph fin(1)] .
  have "kept_all ?w" using program_kept[OF assms(2)] assms(3) by (simp add: second_pass_def)
  moreover have "fits 4096 ?w" using assms(5) by (simp add: fits_def pushed_aircraft[OF ok rec])
  ultimately have "waiting ?w = []" "newest_kept ?w" using fin(2) assms(4) by (auto simp: kept_all_def)
  moreover from this have "pipeline ?w = map fst (ws_sent ?w)" by (simp add: pipeline_def in_hand_def fin(2))
  ultimately have "newest k (map fst (ws_sent ?w)) = newest k (ws_pushed ?w)" by (simp add: newest_kept_def)
  then show ?thesis using newest_fix[of k "ws_pushed ?w"] by (simp add: all_delivered(2)[OF ok rec])
qed

subsection \<open>A concrete shutdown\<close>

text \<open>The run of Program\_Safety up to the received line, then a signal, and main leaves the loop.\<close>

lemma leaving_reachable:
  obtains s where "program_reachable 64 2048 s" and "pg_pc s = G_disconnect False"
    and "cs_app (pg_conn s) = [(example_line, 1000)]" and "now_of s = 1000"
proof -
  obtain a where a: "start_app = Some a" by (rule start_app_ok)
  let ?s = "(program_start a 1000)\<lparr>pg_conn := link_used\<rparr>"
  let ?t = "?s\<lparr>pg_pc := G_test 0\<rparr>" and ?c = "link_used\<lparr>cs_fd := -1, cs_main := M_shut 5\<rparr>"
  have "main_step 2048 ?s ?t"
    using main_step.g_constructed[of ?s 2048] by (simp add: program_start_def link_used_def link_up_def)
  then have t: "program_reachable 64 2048 ?t" by (rule program_reachable.step[OF line_received[OF a] program_step.main])
  have u: "program_reachable 64 2048 (?t\<lparr>pg_running := False\<rparr>)"
    by (rule program_reachable.environment[OF t environment_step.e_signal])
  have "main_move 2048 link_used ?c"
    using main_move.m_disconnect[of link_used 2048] by (simp add: link_used_def link_up_def)
  then have "main_step 2048 (?t\<lparr>pg_running := False\<rparr>) (?t\<lparr>pg_running := False, pg_conn := ?c, pg_pc := G_disconnect False\<rparr>)"
    using main_step.g_down[of "?t\<lparr>pg_running := False\<rparr>" 0 2048 ?c] by (simp add: program_start_def disconnecting_def)
  from program_reachable.step[OF u program_step.main[OF this]] show thesis
    by (rule that) (simp_all add: program_start_def worker_start_def link_used_def)
qed

lemma first_deadline:
  assumes "program_step lw nb s s'" and "now_of s' = now_of s"
    and "ws_stop (pg_worker s) = Running \<or> ws_deadline (pg_worker s) = now_of s + 5000"
  shows "ws_stop (pg_worker s') = Running \<or> ws_deadline (pg_worker s') = now_of s' + 5000"
  using assms(1)
proof (cases rule: program_stepE)
  case receiver
  then show ?thesis using assms(3) by (cases rule: receiver_stepE) (auto simp: push_item_def)
next
  case main
  from main_step_worker[OF main] show ?thesis
  proof
    assume "stop_move 5000 (pg_worker s) (pg_worker s')"
    then show ?thesis using assms(2,3) by (cases rule: stop_moveE) auto
  qed (use assms(3) in simp)
next
  case (worker w)
  then show ?thesis using assms(2,3) by (auto elim: worker_moveE)
qed

definition rounds :: "program \<Rightarrow> nat" where
  \<comment> \<open>the moves left, and the replies to the sends\<close>
  "rounds s = 2 * exit_work s + (if ws_pc (pg_worker s) = Sending then 1 else 0)"

lemma reply_step:
  assumes "awaits_reporter s"
  obtains t where "environment_step s t" and "rounds t < rounds s" and "pg_pc t = pg_pc s"
    and "pg_conn t = pg_conn s" and "now_of t = now_of s"
    and "ws_stop (pg_worker t) = ws_stop (pg_worker s)" and "ws_deadline (pg_worker t) = ws_deadline (pg_worker s)"
proof -
  let ?w = "(pg_worker s)\<lparr>ws_pc := Sent_one\<rparr>"
  have r: "reporter_move (pg_worker s) ?w"
    by (rule reporter_move.intros) (use assms in \<open>simp add: awaits_reporter_def\<close>)
  have e: "environment_step s (s\<lparr>pg_worker := ?w\<rparr>)" by (rule environment_step.e_reply[OF r])
  have "rounds (s\<lparr>pg_worker := ?w\<rparr>) < rounds s"
    using environment_exit_work[OF e] assms by (simp add: rounds_def awaits_reporter_def)
  from that[OF e this] show thesis by simp
qed

lemma reaches_return:
  assumes "program_reachable lw nb s" and "16 \<le> lw" and "shutting (pg_pc s)" and "\<not> second_pass (pg_pc s)"
    and "ws_stop (pg_worker s) = Running \<or> ws_deadline (pg_worker s) = now_of s + 5000"
  shows "\<exists>s'. program_reachable lw nb s' \<and> pg_pc s' = G_return \<and> cs_app (pg_conn s') = cs_app (pg_conn s) \<and>
    now_of s' = now_of s \<and> ws_deadline (pg_worker s') = now_of s + 5000"
  using assms(1,3-5)
proof (induction "rounds s" arbitrary: s rule: less_induct)
  case less
  show ?case
  proof (cases "pg_pc s = G_return \<or> awaits_reporter s")
    case True
    then show ?thesis
    proof
      assume "pg_pc s = G_return"
      moreover from this have "ws_stop (pg_worker s) \<noteq> Running"
        using program_phase[OF less(2)] by (simp add: phase_ok_def)
      ultimately show ?thesis using less(2,5) by blast
    next
      assume "awaits_reporter s"
      then obtain t where t: "environment_step s t" "rounds t < rounds s" "pg_pc t = pg_pc s" "pg_conn t = pg_conn s"
        "now_of t = now_of s" "ws_stop (pg_worker t) = ws_stop (pg_worker s)"
        "ws_deadline (pg_worker t) = ws_deadline (pg_worker s)" by (rule reply_step)
      from less(1)[OF t(2) program_reachable.environment[OF less(2) t(1)]] less(3-5) show ?thesis by (simp add: t(3-7))
    qed
  next
    case False
    have "pg_pc s \<noteq> G_exit" using less(4) by (simp add: second_pass_def)
    from shutting_moves_on[OF less(2,3) this] False obtain t where t: "program_step lw nb s t"
      "cs_app (pg_conn t) = cs_app (pg_conn s)" "now_of t = now_of s"
      by (auto simp: moves_on_def)
    have r: "program_reachable lw nb t" by (rule program_reachable.step[OF less(2) t(1)])
    note w = program_exit_work[OF less(2) assms(2) less(3) t(1)]
    have "\<not> second_pass (pg_pc t)" using t(1)
    proof (cases rule: program_stepE)
      case receiver
      then show ?thesis using less(4) receiver_pc by metis
    next
      case main
      then show ?thesis
        by (cases rule: main_stepE) (use less(4) False in \<open>auto simp: second_pass_def split: if_splits\<close>)
    next
      case (worker v)
      then show ?thesis using less(4) by simp
    qed
    moreover have "rounds t < rounds s" using w by (simp add: rounds_def)
    ultimately show ?thesis
      using less(1)[OF _ r conjunct2[OF w] _ first_deadline[OF t(1,3) less(5)]] t(2,3) by simp
  qed
qed

lemma reaches_exit:
  assumes "exit_run lw nb n s0 s" and "16 \<le> lw" and "program_reachable lw nb s" and "shutting (pg_pc s)"
  shows "\<exists>m t. exit_run lw nb m s0 t \<and> pg_pc t = G_exit"
  using assms(1,3,4)
proof (induction "rounds s" arbitrary: n s rule: less_induct)
  case less
  show ?case
  proof (cases "awaits_reporter s")
    case True
    then obtain t where t: "environment_step s t" "rounds t < rounds s" by (rule reply_step)
    show ?thesis
      using less(1)[OF t(2) exit_run.environment[OF less(2) t(1)] program_reachable.environment[OF less(3) t(1)]]
        environment_exit_work[OF t(1)] less(4) by blast
  next
    case False
    show ?thesis
    proof (cases "pg_pc s = G_exit")
      case True
      then show ?thesis using less(2) by blast
    next
      case no_exit: False
      obtain t where t: "program_step lw nb s t"
        using shutting_moves_on[OF less(3,4) no_exit False] by (auto simp: moves_on_def)
      note w = program_exit_work[OF less(3) assms(2) less(4) t]
      then have "rounds t < rounds s" by (simp add: rounds_def)
      then show ?thesis
        using less(1)[OF _ exit_run.move[OF less(2) t] program_reachable.step[OF less(3) t]] w by blast
    qed
  qed
qed

lemma signalled_reachable:
  obtains s where "program_reachable 64 2048 s" and "pg_pc s = G_construct" and "\<not> pg_running s"
    and "cs_recv (pg_conn s) = R_loop"
proof -
  obtain a where a: "start_app = Some a" by (rule start_app_ok)
  from program_reachable.environment[OF line_received[OF a] environment_step.e_signal] show thesis
    by (rule that) (simp_all add: program_start_def link_used_def link_up_def)
qed

theorem signal_leads_to_shutdown_witness:
  "\<exists>s. program_reachable 64 2048 s \<and> \<not> pg_running s \<and> \<not> shutting (pg_pc s) \<and> (\<exists>s''. main_step 2048 s s'')"
proof -
  obtain s where s: "program_reachable 64 2048 s" "pg_pc s = G_construct" "\<not> pg_running s"
    "cs_recv (pg_conn s) = R_loop" by (rule signalled_reachable)
  then show ?thesis using signal_leads_to_shutdown[OF s(1,3) signalled_run.here] by (auto simp: shutting_def)
qed

theorem program_always_exits_witness:
  "\<exists>n s s'. program_reachable 64 2048 s \<and> pg_pc s = G_disconnect False \<and> exit_run 64 2048 n s s' \<and> n \<le> 53273 \<and>
     pg_pc s' = G_exit \<and> cs_kernel (pg_conn s') = (\<lambda>_. None) \<and> ws_pc (pg_worker s') = Finished"
proof -
  obtain s where s: "program_reachable 64 2048 s" "pg_pc s = G_disconnect False" by (rule leaving_reachable)
  then have d: "shutting (pg_pc s)" by (simp add: shutting_def)
  obtain n s' where e: "exit_run 64 2048 n s s'" "pg_pc s' = G_exit"
    using reaches_exit[OF exit_run.here _ s(1) d] by auto
  from program_always_exits[OF _ s(1) d e(1)] e s show ?thesis by auto
qed

theorem shutdown_sends_newest_positions_witness:
  "\<exists>s m. program_reachable 64 2048 s \<and> pg_pc s = G_return \<and> parse_message 64 example_line 1000 = Some m \<and>
     map_option report_fix (newest (ICAOAddress m) (map fst (ws_sent (pg_worker s)))) = Some (position_fix m)"
proof -
  obtain m where m: "parse_message 64 example_line 1000 = Some m" "valid (pos m)" by (rule example_line_position)
  obtain s where s: "program_reachable 64 2048 s" "pg_pc s = G_disconnect False"
    "cs_app (pg_conn s) = [(example_line, 1000)]" "now_of s = 1000" by (rule leaving_reachable)
  have "ws_stop (pg_worker s) = Running" using program_phase[OF s(1)] s(2) by (simp add: phase_ok_def)
  with reaches_return[OF s(1)] s(2) obtain t where t: "program_reachable 64 2048 t" "pg_pc t = G_return"
    "cs_app (pg_conn t) = [(example_line, 1000)]" "now_of t = 1000" "ws_deadline (pg_worker t) = 6000"
    by (auto simp: shutting_def second_pass_def s(3,4))
  have f: "received_fixes 64 [(example_line, 1000)] = [position_fix m]"
    by (simp add: received_fixes_def List.map_filter_def m)
  have "map_option report_fix (newest (ICAOAddress m) (map fst (ws_sent (pg_worker t)))) =
      latest_fix (ICAOAddress m) (received_fixes 64 (cs_app (pg_conn t)))"
    by (rule shutdown_sends_newest_positions[OF _ t(1,2)]) (simp_all add: t(3-5) f)
  also have "\<dots> = Some (position_fix m)" unfolding t(3) f by (simp add: latest_fix_def position_fix_def)
  finally show ?thesis using t m by blast
qed

end
