(* ===== verification/Queue_Monitor.thy ===== *)
theory Queue_Monitor
  imports Report_Queue
begin

text \<open>
  The report queue one level down: src/src/report\_queue.cpp as a monitor. The mutex has an owner,
  the condition variable has a waiting thread, and push, pop, shutdown and clear are sequences of
  moves (lock, test, wait, body, unlock, notify), with spurious wakeups. Three threads use it: the
  receive thread pushes, the worker pops and clears, the main thread shuts down. The history lists
  the operations in the order in which their critical sections ran; it is shown to be a run of the
  atomic operations of Report\_Queue, which the other theories use, and no wakeup is lost.
\<close>

subsection \<open>The operations as sequences of moves\<close>

datatype thread = Receiver | Worker | Main

datatype push_pc = P_out | P_lock u32 pending_report | P_body u32 pending_report | P_unlock | P_notify

datatype pop_pc =
    C_out
  | C_lock \<comment> \<open>acquiring the mutex, at first or after a wakeup\<close>
  | C_test \<comment> \<open>about to evaluate the predicate of wait\<close>
  | C_waiting \<comment> \<open>blocked in wait, with the mutex released\<close>
  | C_body
  | C_unlock "pending_report option"
  | C_returned "pending_report option"
  | C_clear_lock
  | C_clear_body
  | C_clear_unlock

datatype stop_op_pc = S_out | S_lock | S_body | S_unlock | S_notify

datatype queue_event = E_push u32 pending_report | E_pop "pending_report option" | E_shutdown | E_clear

record monitor =
  mo_queue :: report_queue
  mo_owner :: "thread option"
  mo_push :: push_pc
  mo_pop :: pop_pc
  mo_stop :: stop_op_pc
  mo_history :: "queue_event list"
  mo_broken :: bool \<comment> \<open>pop went on with its predicate false, or dereferenced a missing entry\<close>

definition pop_ready :: "report_queue \<Rightarrow> bool" where
  \<comment> \<open>the predicate given to wait\<close>
  "pop_ready q = (rq_stopped q \<or> rq_order q \<noteq> [])"

definition wake :: "pop_pc \<Rightarrow> pop_pc" where
  \<comment> \<open>notify\_one and notify\_all: only the worker ever waits\<close>
  "wake pc = (if pc = C_waiting then C_lock else pc)"

inductive push_step :: "monitor \<Rightarrow> monitor \<Rightarrow> bool" where
  p_acquire: "mo_push m = P_lock k item \<Longrightarrow> mo_owner m = None \<Longrightarrow>
    push_step m (m\<lparr>mo_owner := Some Receiver, mo_push := P_body k item\<rparr>)"
| p_body: "mo_push m = P_body k item \<Longrightarrow>
    push_step m (m\<lparr>mo_queue := rq_push k item (mo_queue m), mo_push := P_unlock,
                   mo_history := mo_history m @ [E_push k item]\<rparr>)"
| p_unlock: "mo_push m = P_unlock \<Longrightarrow> push_step m (m\<lparr>mo_owner := None, mo_push := P_notify\<rparr>)"
| p_notify: "mo_push m = P_notify \<Longrightarrow> push_step m (m\<lparr>mo_pop := wake (mo_pop m), mo_push := P_out\<rparr>)"

inductive pop_step :: "monitor \<Rightarrow> monitor \<Rightarrow> bool" where
  c_acquire: "mo_pop m = C_lock \<Longrightarrow> mo_owner m = None \<Longrightarrow>
    pop_step m (m\<lparr>mo_owner := Some Worker, mo_pop := C_test\<rparr>)"
| c_ready: "mo_pop m = C_test \<Longrightarrow> pop_ready (mo_queue m) \<Longrightarrow> pop_step m (m\<lparr>mo_pop := C_body\<rparr>)"
| c_wait: "mo_pop m = C_test \<Longrightarrow> \<not> pop_ready (mo_queue m) \<Longrightarrow>
    pop_step m (m\<lparr>mo_owner := None, mo_pop := C_waiting\<rparr>)"
| c_body: "mo_pop m = C_body \<Longrightarrow> rq_pop (mo_queue m) = Pop_returns q r \<Longrightarrow>
    pop_step m (m\<lparr>mo_queue := q, mo_pop := C_unlock r, mo_history := mo_history m @ [E_pop r]\<rparr>)"
| c_broken: "mo_pop m = C_body \<Longrightarrow> rq_pop (mo_queue m) = Pop_blocks \<or> rq_pop (mo_queue m) = Pop_undefined \<Longrightarrow>
    pop_step m (m\<lparr>mo_broken := True\<rparr>)"
| c_unlock: "mo_pop m = C_unlock r \<Longrightarrow> pop_step m (m\<lparr>mo_owner := None, mo_pop := C_returned r\<rparr>)"
| c_clear_acquire: "mo_pop m = C_clear_lock \<Longrightarrow> mo_owner m = None \<Longrightarrow>
    pop_step m (m\<lparr>mo_owner := Some Worker, mo_pop := C_clear_body\<rparr>)"
| c_clear: "mo_pop m = C_clear_body \<Longrightarrow>
    pop_step m (m\<lparr>mo_queue := rq_clear (mo_queue m), mo_pop := C_clear_unlock,
                  mo_history := mo_history m @ [E_clear]\<rparr>)"
| c_clear_unlock: "mo_pop m = C_clear_unlock \<Longrightarrow> pop_step m (m\<lparr>mo_owner := None, mo_pop := C_out\<rparr>)"

inductive shutdown_step :: "monitor \<Rightarrow> monitor \<Rightarrow> bool" where
  d_acquire: "mo_stop m = S_lock \<Longrightarrow> mo_owner m = None \<Longrightarrow>
    shutdown_step m (m\<lparr>mo_owner := Some Main, mo_stop := S_body\<rparr>)"
| d_body: "mo_stop m = S_body \<Longrightarrow>
    shutdown_step m (m\<lparr>mo_queue := rq_shutdown (mo_queue m), mo_stop := S_unlock,
                       mo_history := mo_history m @ [E_shutdown]\<rparr>)"
| d_unlock: "mo_stop m = S_unlock \<Longrightarrow> shutdown_step m (m\<lparr>mo_owner := None, mo_stop := S_notify\<rparr>)"
| d_notify: "mo_stop m = S_notify \<Longrightarrow> shutdown_step m (m\<lparr>mo_pop := wake (mo_pop m), mo_stop := S_out\<rparr>)"

text \<open>A new call begins, or wait wakes up for no reason.\<close>

inductive call_step :: "monitor \<Rightarrow> monitor \<Rightarrow> bool" where
  a_push: "mo_push m = P_out \<Longrightarrow> call_step m (m\<lparr>mo_push := P_lock k item\<rparr>)"
| a_pop: "mo_pop m = C_out \<or> mo_pop m = C_returned r \<Longrightarrow> call_step m (m\<lparr>mo_pop := C_lock\<rparr>)"
| a_clear: "mo_pop m = C_out \<or> mo_pop m = C_returned r \<Longrightarrow> call_step m (m\<lparr>mo_pop := C_clear_lock\<rparr>)"
| a_shutdown: "mo_stop m = S_out \<Longrightarrow> call_step m (m\<lparr>mo_stop := S_lock\<rparr>)"
| a_spurious: "mo_pop m = C_waiting \<Longrightarrow> call_step m (m\<lparr>mo_pop := C_lock\<rparr>)"

inductive monitor_step :: "monitor \<Rightarrow> monitor \<Rightarrow> bool" where
  pushing: "push_step m m' \<Longrightarrow> monitor_step m m'"
| popping: "pop_step m m' \<Longrightarrow> monitor_step m m'"
| shutting: "shutdown_step m m' \<Longrightarrow> monitor_step m m'"

definition monitor_start :: "report_queue \<Rightarrow> monitor" where
  "monitor_start q =
     \<lparr>mo_queue = q, mo_owner = None, mo_push = P_out, mo_pop = C_out, mo_stop = S_out,
      mo_history = [], mo_broken = False\<rparr>"

inductive monitor_reachable :: "nat \<Rightarrow> monitor \<Rightarrow> bool" for cap :: nat where
  start: "new_queue cap = Some q \<Longrightarrow> monitor_reachable cap (monitor_start q)"
| move: "monitor_reachable cap m \<Longrightarrow> monitor_step m m' \<Longrightarrow> monitor_reachable cap m'"
| call: "monitor_reachable cap m \<Longrightarrow> call_step m m' \<Longrightarrow> monitor_reachable cap m'"

inductive_cases push_stepE [consumes 1, case_names acquire body unlock notify]: "push_step m m'"
inductive_cases pop_stepE [consumes 1,
    case_names acquire ready wait body broken unlock clear_acquire clear clear_unlock]: "pop_step m m'"
inductive_cases shutdown_stepE [consumes 1, case_names acquire body unlock notify]: "shutdown_step m m'"
inductive_cases call_stepE [consumes 1, case_names push pop clear shutdown spurious]: "call_step m m'"

subsection \<open>The abstract queue: a history of atomic operations\<close>

inductive atomic_run :: "nat \<Rightarrow> queue_event list \<Rightarrow> report_queue \<Rightarrow> bool" for cap :: nat where
  none: "new_queue cap = Some q \<Longrightarrow> atomic_run cap [] q"
| push: "atomic_run cap es q \<Longrightarrow> atomic_run cap (es @ [E_push k item]) (rq_push k item q)"
| pop: "atomic_run cap es q \<Longrightarrow> rq_pop q = Pop_returns q' r \<Longrightarrow> atomic_run cap (es @ [E_pop r]) q'"
| shutdown: "atomic_run cap es q \<Longrightarrow> atomic_run cap (es @ [E_shutdown]) (rq_shutdown q)"
| clear: "atomic_run cap es q \<Longrightarrow> atomic_run cap (es @ [E_clear]) (rq_clear q)"

lemma atomic_run_reachable: "atomic_run cap es q \<Longrightarrow> queue_reachable cap q"
  by (induction rule: atomic_run.induct) (auto intro: queue_reachable.intros)

lemma atomic_run_ok: "atomic_run cap es q \<Longrightarrow> rq_ok q"
  using atomic_run_reachable queue_reachable_ok by blast

lemma pop_ready_returns:
  assumes "rq_ok q" and "pop_ready q"
  shows "\<exists>q' r. rq_pop q = Pop_returns q' r"
proof -
  have "rq_pop q \<noteq> Pop_undefined" by (rule rq.pop_defined[OF assms(1)])
  moreover have "rq_pop q \<noteq> Pop_blocks"
    using assms(2) by (auto simp: rq_pop_def pop_ready_def Let_def split: list.splits option.splits)
  ultimately show ?thesis by (cases "rq_pop q") auto
qed

subsection \<open>The invariant\<close>

definition in_push :: "push_pc \<Rightarrow> bool" where
  "in_push pc = (case pc of P_body _ _ \<Rightarrow> True | P_unlock \<Rightarrow> True | _ \<Rightarrow> False)"

definition in_pop :: "pop_pc \<Rightarrow> bool" where
  "in_pop pc = (case pc of C_test \<Rightarrow> True | C_body \<Rightarrow> True | C_unlock _ \<Rightarrow> True | C_clear_body \<Rightarrow> True
     | C_clear_unlock \<Rightarrow> True | _ \<Rightarrow> False)"

definition in_stop :: "stop_op_pc \<Rightarrow> bool" where
  "in_stop pc = (case pc of S_body \<Rightarrow> True | S_unlock \<Rightarrow> True | _ \<Rightarrow> False)"

definition notifier :: "monitor \<Rightarrow> bool" where
  \<comment> \<open>a thread that has changed the queue and has still to notify\<close>
  "notifier m \<longleftrightarrow> mo_push m = P_unlock \<or> mo_push m = P_notify \<or> mo_stop m = S_unlock \<or> mo_stop m = S_notify"

definition popped :: "queue_event list \<Rightarrow> pending_report option list" where
  \<comment> \<open>the results of the pops of a history\<close>
  "popped es = concat (map (\<lambda>e. case e of E_pop r \<Rightarrow> [r] | _ \<Rightarrow> []) es)"

lemma popped_append [simp]: "popped (es @ [e]) = popped es @ (case e of E_pop r \<Rightarrow> [r] | _ \<Rightarrow> [])"
  by (simp add: popped_def)

definition pop_result :: "pop_pc \<Rightarrow> pending_report option option" where
  "pop_result pc = (case pc of C_unlock r \<Rightarrow> Some r | C_returned r \<Rightarrow> Some r | _ \<Rightarrow> None)"

definition monitor_ok :: "nat \<Rightarrow> monitor \<Rightarrow> bool" where
  "monitor_ok cap m \<longleftrightarrow> atomic_run cap (mo_history m) (mo_queue m) \<and> \<not> mo_broken m \<and>
     (in_push (mo_push m) \<longleftrightarrow> mo_owner m = Some Receiver) \<and>
     (in_pop (mo_pop m) \<longleftrightarrow> mo_owner m = Some Worker) \<and>
     (in_stop (mo_stop m) \<longleftrightarrow> mo_owner m = Some Main) \<and>
     (\<forall>r. pop_result (mo_pop m) = Some r \<longrightarrow> popped (mo_history m) \<noteq> [] \<and> last (popped (mo_history m)) = r) \<and>
     (mo_pop m = C_body \<longrightarrow> pop_ready (mo_queue m)) \<and>
     (mo_pop m = C_waiting \<and> pop_ready (mo_queue m) \<longrightarrow> notifier m)"

lemmas pc_defs = in_push_def in_pop_def in_stop_def notifier_def wake_def pop_result_def

lemma push_step_ok:
  assumes "monitor_ok cap m" and "push_step m m'"
  shows "monitor_ok cap m'"
  using assms(2)
proof (cases rule: push_stepE)
  case (body k item)
  then show ?thesis using assms(1) atomic_run.push[of cap "mo_history m" "mo_queue m" k item]
    by (auto simp: monitor_ok_def pc_defs)
qed (use assms(1) in \<open>auto simp: monitor_ok_def pc_defs split: if_splits\<close>)

lemma pop_step_ok:
  assumes "monitor_ok cap m" and "pop_step m m'"
  shows "monitor_ok cap m'"
  using assms(2)
proof (cases rule: pop_stepE)
  case (body q r)
  then show ?thesis using assms(1) atomic_run.pop[of cap "mo_history m" "mo_queue m" q r]
    by (auto simp: monitor_ok_def pc_defs)
next
  case broken
  then show ?thesis using assms(1) pop_ready_returns[of "mo_queue m"] atomic_run_ok
    by (auto simp: monitor_ok_def)
next
  case clear
  then show ?thesis using assms(1) atomic_run.clear[of cap "mo_history m" "mo_queue m"]
    by (auto simp: monitor_ok_def pc_defs)
qed (use assms(1) in \<open>auto simp: monitor_ok_def pc_defs\<close>)

lemma shutdown_step_ok:
  assumes "monitor_ok cap m" and "shutdown_step m m'"
  shows "monitor_ok cap m'"
  using assms(2)
proof (cases rule: shutdown_stepE)
  case body
  then show ?thesis using assms(1) atomic_run.shutdown[of cap "mo_history m" "mo_queue m"]
    by (auto simp: monitor_ok_def pc_defs)
qed (use assms(1) in \<open>auto simp: monitor_ok_def pc_defs split: if_splits\<close>)

lemma call_step_ok: "monitor_ok cap m \<Longrightarrow> call_step m m' \<Longrightarrow> monitor_ok cap m'"
  by (erule call_stepE) (auto simp: monitor_ok_def pc_defs)

lemma monitor_step_ok: "monitor_ok cap m \<Longrightarrow> monitor_step m m' \<Longrightarrow> monitor_ok cap m'"
  by (erule monitor_step.cases) (auto intro: push_step_ok pop_step_ok shutdown_step_ok)

lemma monitor_reachable_ok: "monitor_reachable cap m \<Longrightarrow> monitor_ok cap m"
proof (induction rule: monitor_reachable.induct)
  case (start q)
  then show ?case by (auto simp: monitor_ok_def monitor_start_def pc_defs intro: atomic_run.none)
qed (auto intro: monitor_step_ok call_step_ok)

subsection \<open>Calls that have begun\<close>

text \<open>Runs in which no new call begins and no wakeup is spurious, counting the moves.\<close>

inductive finishing_run :: "nat \<Rightarrow> monitor \<Rightarrow> monitor \<Rightarrow> bool" where
  here: "finishing_run 0 m m"
| more: "finishing_run n m m' \<Longrightarrow> monitor_step m' m'' \<Longrightarrow> finishing_run (Suc n) m m''"

definition call_work :: "monitor \<Rightarrow> nat" where
  "call_work m =
     (case mo_push m of P_out \<Rightarrow> 0 | P_lock _ _ \<Rightarrow> 8 | P_body _ _ \<Rightarrow> 7 | P_unlock \<Rightarrow> 6 | P_notify \<Rightarrow> 5) +
     (case mo_stop m of S_out \<Rightarrow> 0 | S_lock \<Rightarrow> 8 | S_body \<Rightarrow> 7 | S_unlock \<Rightarrow> 6 | S_notify \<Rightarrow> 5) +
     (case mo_pop m of C_lock \<Rightarrow> 4 | C_test \<Rightarrow> 3 | C_body \<Rightarrow> 2 | C_unlock _ \<Rightarrow> 1 | C_clear_lock \<Rightarrow> 3
      | C_clear_body \<Rightarrow> 2 | C_clear_unlock \<Rightarrow> 1 | _ \<Rightarrow> 0)"

lemma call_work_bound: "call_work m \<le> 20"
  by (simp add: call_work_def split: push_pc.splits stop_op_pc.splits pop_pc.splits)

lemma monitor_step_decreases:
  assumes "monitor_ok cap m" and "monitor_step m m'"
  shows "call_work m' < call_work m"
  using assms(2)
proof (cases rule: monitor_step.cases)
  case pushing
  then show ?thesis by (cases rule: push_stepE) (auto simp: call_work_def wake_def)
next
  case popping
  then show ?thesis
  proof (cases rule: pop_stepE)
    case broken
    then show ?thesis using assms(1) pop_ready_returns[of "mo_queue m"] atomic_run_ok
      by (auto simp: monitor_ok_def)
  qed (auto simp: call_work_def)
next
  case shutting
  then show ?thesis by (cases rule: shutdown_stepE) (auto simp: call_work_def wake_def)
qed

lemma finishing_run_ok:
  assumes "finishing_run n m m'" and "monitor_ok cap m"
  shows "monitor_ok cap m' \<and> n + call_work m' \<le> call_work m"
  using assms
proof (induction rule: finishing_run.induct)
  case (more n m m' m'')
  then have ih: "monitor_ok cap m'" "n + call_work m' \<le> call_work m" by simp_all
  show ?case using monitor_step_ok[OF ih(1) more(2)] monitor_step_decreases[OF ih(1) more(2)] ih(2) by simp
qed simp

definition settled :: "monitor \<Rightarrow> bool" where
  \<comment> \<open>every call has returned, except that pop waits on a queue that is empty and not shut down\<close>
  "settled m \<longleftrightarrow> mo_owner m = None \<and> mo_push m = P_out \<and> mo_stop m = S_out \<and>
     (mo_pop m = C_out \<or> (\<exists>r. mo_pop m = C_returned r) \<or>
      mo_pop m = C_waiting \<and> rq_order (mo_queue m) = [] \<and> \<not> rq_stopped (mo_queue m))"

lemma owner_moves:
  assumes "monitor_ok cap m" and "mo_owner m \<noteq> None"
  shows "\<exists>m'. monitor_step m m'"
proof -
  obtain t where t: "mo_owner m = Some t" using assms(2) by blast
  show ?thesis
  proof (cases t)
    case Receiver
    then have "in_push (mo_push m)" using assms(1) t by (simp add: monitor_ok_def)
    then show ?thesis by (cases "mo_push m") (auto simp: in_push_def intro: monitor_step.pushing push_step.intros)
  next
    case Main
    then have "in_stop (mo_stop m)" using assms(1) t by (simp add: monitor_ok_def)
    then show ?thesis by (cases "mo_stop m") (auto simp: in_stop_def intro: monitor_step.shutting shutdown_step.intros)
  next
    case Worker
    then have i: "in_pop (mo_pop m)" using assms(1) t by (simp add: monitor_ok_def)
    have "\<exists>m'. pop_step m m'"
    proof (cases "mo_pop m")
      case C_body
      then have "\<exists>q r. rq_pop (mo_queue m) = Pop_returns q r"
        using assms(1) pop_ready_returns atomic_run_ok unfolding monitor_ok_def by blast
      then show ?thesis using C_body by (auto intro: pop_step.intros)
    next
      case C_test
      then show ?thesis by (cases "pop_ready (mo_queue m)") (auto intro: pop_step.intros)
    qed (use i in \<open>auto simp: in_pop_def intro: pop_step.intros\<close>)
    then show ?thesis by (auto intro: monitor_step.popping)
  qed
qed

lemma free_moves:
  assumes "monitor_ok cap m" and "mo_owner m = None" and "\<not> settled m"
  shows "\<exists>m'. monitor_step m m'"
proof (cases "mo_push m = P_out \<and> mo_stop m = S_out")
  case True
  then have "\<not> notifier m" by (simp add: notifier_def)
  then have "mo_pop m = C_lock \<or> mo_pop m = C_clear_lock"
    using assms True by (cases "mo_pop m") (auto simp: settled_def monitor_ok_def in_pop_def pop_ready_def)
  then show ?thesis using assms(2) by (auto intro: monitor_step.popping pop_step.intros)
next
  case False
  have "\<not> in_push (mo_push m)" "\<not> in_stop (mo_stop m)" using assms(1,2) by (simp_all add: monitor_ok_def)
  then consider k item where "mo_push m = P_lock k item" | "mo_push m = P_notify" | "mo_stop m = S_lock"
    | "mo_stop m = S_notify"
    using False by (cases "mo_push m"; cases "mo_stop m") (auto simp: in_push_def in_stop_def)
  then show ?thesis using assms(2)
    by cases (auto intro: monitor_step.pushing monitor_step.shutting push_step.intros shutdown_step.intros)
qed

subsection \<open>Properties\<close>

text \<open>C9: the locking makes every operation atomic: in every interleaving of the three threads at most one is
  inside a critical section, the queue is that of the operations run one after another in the order of
  their critical sections, a pop returns what its operation yielded there, and the body of pop never
  runs with its predicate false or meets a missing entry.\<close>

theorem monitor_refines_atomic_queue:
  assumes "monitor_reachable cap m"
  shows "atomic_run cap (mo_history m) (mo_queue m) \<and>
    \<not> (in_push (mo_push m) \<and> in_pop (mo_pop m)) \<and> \<not> (in_push (mo_push m) \<and> in_stop (mo_stop m)) \<and>
    \<not> (in_pop (mo_pop m) \<and> in_stop (mo_stop m)) \<and>
    (\<forall>r. mo_pop m = C_returned r \<longrightarrow> popped (mo_history m) \<noteq> [] \<and> last (popped (mo_history m)) = r) \<and>
    \<not> mo_broken m"
proof -
  have ok: "monitor_ok cap m" using monitor_reachable_ok[OF assms] .
  then have "mo_pop m = C_returned r \<Longrightarrow> popped (mo_history m) \<noteq> [] \<and> last (popped (mo_history m)) = r" for r
    by (simp add: monitor_ok_def pop_result_def)
  moreover have "\<not> (in_push (mo_push m) \<and> in_pop (mo_pop m))" "\<not> (in_push (mo_push m) \<and> in_stop (mo_stop m))"
    "\<not> (in_pop (mo_pop m) \<and> in_stop (mo_stop m))" "\<not> mo_broken m" "atomic_run cap (mo_history m) (mo_queue m)"
    using ok by (auto simp: monitor_ok_def)
  ultimately show ?thesis by blast
qed

text \<open>C7: no wakeup is lost and no call is stuck: whenever pop sleeps although the queue has a report or is shut
  down, a notification is on its way; and from every reachable state the calls that have begun need
  at most 20 moves in all until each has returned, save a pop that waits on an empty running queue.\<close>

theorem no_lost_wakeup:
  assumes "monitor_reachable cap m" and "finishing_run n m m'"
  shows "n \<le> 20 \<and> (settled m' \<or> (\<exists>m''. monitor_step m' m'')) \<and>
    (mo_pop m = C_waiting \<longrightarrow> rq_order (mo_queue m) = [] \<and> \<not> rq_stopped (mo_queue m) \<or> notifier m)"
proof -
  have ok: "monitor_ok cap m" using monitor_reachable_ok[OF assms(1)] .
  note run = finishing_run_ok[OF assms(2) ok]
  have "n \<le> 20" using run call_work_bound[of m] by simp
  moreover have "settled m' \<or> (\<exists>m''. monitor_step m' m'')"
    using owner_moves[of cap m'] free_moves[of cap m'] run by (cases "mo_owner m' = None") auto
  moreover have "mo_pop m = C_waiting \<longrightarrow> rq_order (mo_queue m) = [] \<and> \<not> rq_stopped (mo_queue m) \<or> notifier m"
    using ok by (auto simp: monitor_ok_def pop_ready_def)
  ultimately show ?thesis by blast
qed

subsection \<open>A concrete interleaving\<close>

text \<open>pop finds the queue empty and waits; then a push runs up to its notification.\<close>

definition "asleep = (monitor_start empty_queue)\<lparr>mo_pop := C_waiting\<rparr>"
definition "pushed_over =
  asleep\<lparr>mo_queue := rq_push 7 (sample_report 7 1) empty_queue, mo_push := P_notify,
         mo_history := [E_push 7 (sample_report 7 1)]\<rparr>"

lemma asleep_reachable: "monitor_reachable 2 asleep"
proof -
  let ?m0 = "monitor_start empty_queue"
  let ?m1 = "?m0\<lparr>mo_pop := C_lock\<rparr>" and ?m2 = "?m0\<lparr>mo_owner := Some Worker, mo_pop := C_test\<rparr>"
  have m0: "monitor_reachable 2 ?m0" by (rule monitor_reachable.start[OF empty_queue_ok(1)])
  have "call_step ?m0 ?m1" by (rule call_step.a_pop) (simp add: monitor_start_def)
  then have m1: "monitor_reachable 2 ?m1" by (rule monitor_reachable.call[OF m0])
  have "pop_step ?m1 ?m2" using pop_step.c_acquire[of ?m1] by (simp add: monitor_start_def)
  then have m2: "monitor_reachable 2 ?m2" by (intro monitor_reachable.move[OF m1] monitor_step.popping)
  have "pop_step ?m2 asleep"
    using pop_step.c_wait[of ?m2] by (simp add: monitor_start_def asleep_def pop_ready_def)
  then show ?thesis by (intro monitor_reachable.move[OF m2] monitor_step.popping)
qed

lemma pushed_over_reachable: "monitor_reachable 2 pushed_over"
proof -
  let ?i = "sample_report 7 1"
  let ?m1 = "asleep\<lparr>mo_push := P_lock 7 ?i\<rparr>"
  let ?m2 = "asleep\<lparr>mo_owner := Some Receiver, mo_push := P_body 7 ?i\<rparr>"
  let ?m3 = "asleep\<lparr>mo_queue := rq_push 7 ?i empty_queue, mo_owner := Some Receiver, mo_push := P_unlock,
    mo_history := [E_push 7 ?i]\<rparr>"
  have "call_step asleep ?m1" by (rule call_step.a_push) (simp add: asleep_def monitor_start_def)
  then have m1: "monitor_reachable 2 ?m1" by (rule monitor_reachable.call[OF asleep_reachable])
  have "push_step ?m1 ?m2" using push_step.p_acquire[of ?m1 7 ?i] by (simp add: asleep_def monitor_start_def)
  then have m2: "monitor_reachable 2 ?m2" by (intro monitor_reachable.move[OF m1] monitor_step.pushing)
  have "push_step ?m2 ?m3" using push_step.p_body[of ?m2 7 ?i] by (simp add: asleep_def monitor_start_def)
  then have m3: "monitor_reachable 2 ?m3" by (intro monitor_reachable.move[OF m2] monitor_step.pushing)
  have "push_step ?m3 pushed_over"
    using push_step.p_unlock[of ?m3] by (simp add: asleep_def monitor_start_def pushed_over_def)
  then show ?thesis by (intro monitor_reachable.move[OF m3] monitor_step.pushing)
qed

theorem monitor_refines_atomic_queue_witness:
  "atomic_run 2 [E_push 7 (sample_report 7 1)] (rq_push 7 (sample_report 7 1) empty_queue)"
  using monitor_refines_atomic_queue[OF pushed_over_reachable] by (simp add: pushed_over_def)

theorem no_lost_wakeup_witness:
  "mo_pop pushed_over = C_waiting \<and> notifier pushed_over \<and>
   monitor_step pushed_over (pushed_over\<lparr>mo_pop := C_lock, mo_push := P_out\<rparr>)"
proof -
  have r: "mo_pop pushed_over = C_waiting" "rq_order (mo_queue pushed_over) \<noteq> []"
    by (simp_all add: pushed_over_def asleep_def rq_push_def drop_oldest_def)
  have "push_step pushed_over (pushed_over\<lparr>mo_pop := C_lock, mo_push := P_out\<rparr>)"
    using push_step.p_notify[of pushed_over] by (simp add: pushed_over_def asleep_def wake_def)
  then show ?thesis
    using no_lost_wakeup[OF pushed_over_reachable finishing_run.here] r by (auto intro: monitor_step.pushing)
qed

end
