(* ===== verification/Spec2Isabelle.thy ===== *)
theory Spec2Isabelle
  imports Program_Shutdown Queue_Monitor
begin

text \<open>
  A verification of fss-adsb, the daemon that reads aircraft messages from a dump1090 server (SBS-1
  BaseStation text over TCP) and forwards position reports to a flight-safety-system (FSS) server.
  All of src/src is modelled except logging, the third-party FSS client library and the operating
  system, whose answers are arguments of the definitions.

  The program. dump1090 (dump1090.cpp) keeps a TCP connection and a receive thread, which cuts the
  stream into lines, parses each line into an ADSBData and calls handle\_adsb\_data (main.cpp). That
  folds the message into the aircraft\_registry, one accumulated record per ICAO address, and, when
  the message carried a position, pushes a position\_report on the report\_queue. The
  reporting\_worker pops reports on its own thread and hands them to the FSS client. The main thread
  reconnects, sweeps stale aircraft once a minute, and stops the parts in order on a signal.

  The theories, in the order of the data:

  \<^item> Adsb\_Prelude: word types, collections of rewrite rules, words, lists, clamping.
  \<^item> Binary64: IEEE binary64 as an executable datatype, with the four operations, comparison and
    the casts the sources use (None where a C++ cast is undefined). Rounding proves each operation
    to be the correctly rounded real operation.
  \<^item> Units (units.hpp): knots\_to\_cm\_per\_s, ft\_per\_min\_to\_cm\_per\_s, deg\_to\_centideg; exactness or
    error bounds, definedness, monotonicity. The locale half\_up\_conversion holds what two share.
  \<^item> Charconv: std::from\_chars for integers and doubles, strtol; errors as a result code.
  \<^item> Adsb\_Data (point.hpp, dump1090.hpp): Point and ADSBData with setters and staleness.
  \<^item> Sbs1\_Fields, Sbs1\_Double (sbs1\_to\_address, \_double, \_altitude, \_vertrate, \_squawk): exact
    characterisations, independence of the width of long, rejection of garbage. The locales
    strict\_field\_parser and exact\_field\_parser are interpreted on all five parsers.
  \<^item> Sbs1\_Parser, Sbs1\_Message (dump1090::processMessage): splitting with a string stream, the
    message switch on checked column reads, which lines are delivered and with what content.
  \<^item> Framing (dump1090::processMessages, the loop body): chunks to lines; independence of the
    chunking, round trip, bounds, resynchronisation.
  \<^item> Adsb\_Record (adsb\_record.hpp): update\_record, report\_flags, build\_report, derive\_tslc,
    derive\_report\_timestamp; the record as the per-field summary of a history, the flags bit by
    bit, reports always defined.
  \<^item> Std\_Map: std::map as sorted association lists; the locale ordered\_map is its contract.
  \<^item> Registry, Registry\_History (aircraft\_registry.cpp): fold, eviction, sweep; capacity, least
    recently heard eviction, separation of aircraft over histories.
  \<^item> Report\_Queue (report\_queue.cpp): the locale coalescing\_queue states the contract over lists;
    the interpretation shows that the source's map and deque implement it (a refinement with
    \<^theory_text>\<open>rq_contents\<close> as the abstraction).
  \<^item> Queue\_Monitor (report\_queue.cpp again): push, pop, shutdown and clear as moves on the mutex and
    the condition variable. Every interleaving is a run of the atomic operations in the order of
    their critical sections, no wakeup is lost, and every call completes within 20 moves of the
    threads inside the queue, unless pop waits on an empty queue that has not been shut down.
  \<^item> Reporting\_Worker (reporting\_worker.cpp, aircraft\_reporter.hpp): worker, producer, stop and
    clock as a transition system; order, safety, termination of stop, the bounded drain. Worker\_Delivery: while the aircraft fit the capacity, the
    newest report of each has been sent, is in hand or waits.
  \<^item> Fss\_Reporter (fss-reporter.cpp): the message sent and the server registered.
  \<^item> Args (args.hpp): ports and credential checks. Monotonic\_Time (monotonic\_time.hpp).
  \<^item> Dump1090\_Connect: resolve\_candidates, connect\_candidate, the candidate loop, the backoff.
    The kernel's table of open descriptors shows that no attempt leaks one, that a success is a
    blocking socket of the address's family with keepalive as far as it could be set, and that
    every wait in poll ends by the deadline.
  \<^item> Connection: the receive thread and the main thread sharing the atomic descriptor, with the
    whole of processMessages, reconnect and disconnect as moves, and the dump1090 server as their
    environment: recv blocks until bytes have come or the connection has ended, be it by shutdown;
    ownership of descriptors, termination of disconnect, and the framing of each connection apart.
  \<^item> Main\_Loop (main.cpp, shutdown\_signal.cpp): the callback, the sweep, the start-up checks, the
    loop; the theorem that no byte stream can break the registry, the queue or a report.
  \<^item> Provenance: what a record or a report owes to the messages received, as invariants of fold,
    sweep and build\_report.
  \<^item> Program: the threads of the running program composed into one transition system, from the
    construction of dump1090 in main to its destructors, with the signal handler, the clock, the
    server and the returns of the FSS library's calls as the environment. Each component's own
    system covers what it does there, so the invariants of Connection, Reporting\_Worker and
    Worker\_Delivery hold of the whole.
  \<^item> Program\_Safety: every report sent is true of the messages received and has its true age at the
    step that sends it, and the positions sent for an aircraft keep the order in which they were
    received.
  \<^item> Program\_Shutdown: a signal leads main out of its loop within seven of its moves; the shutdown
    ends within 53273 moves, waiting for nothing but a call of reportAircraft, with every descriptor
    closed and every thread joined; and if its drain ends in time the newest position of every
    aircraft has been sent.

  Conventions. A C++ record is a record, an enumeration a datatype, uint64\_t and its kin are words,
  std::optional is option, a string is a list of characters, double is the datatype of Binary64.
  Operations under a mutex are single transitions (Queue\_Monitor justifies this for the queue). Undefined behaviour (a cast out of range, an end
  iterator dereferenced, a vector indexed out of range, a recv or close on a descriptor that is not
  open) is a visible value (None, Pop\_undefined, cs\_bad) and is proved not to occur. The width of long is a parameter of at
  least 16 bits. The clock of the worker stays below 2 to the 63 milliseconds, so that the
  initial deadline of 2 to the 64 minus 1 is never reached. A comparison of a clock with the
  deadline is one move: the two reads are apart in the source, but a stop between them gives the
  outcome of a comparison made entirely before or after it. Loops end by structural recursion or
  a measure; poll's retry loop runs over the answers it has been given and is None while all of
  them are EINTR. The bound of a drain is three moves per report of the queue's capacity plus three.

  The 53273 moves of a shutdown are the sum of what each thread can still do: the lines of a chunk
  of 4096 bytes, a queue of 4096 reports, and the few moves of each routine. An atomic is read or
  written in one move, in the order of the interleaving.

  Blocking. A call that waits for someone else has no move of its own: recv returns by the bytes or
  the end of the connection, which are moves of the server or of shutdown; the calls of
  reportAircraft and attemptReconnect return by moves of the environment; pop waits for the queue and
  a join for its thread. A progress theorem never counts on the environment, and names the call where
  it can be waiting for one. The resolver, connect with its bounded polls, sleep and shutdown return;
  shutdown on an open socket succeeds, or fails with ENOTCONN when the connection has ended already.

  Not modelled: log lines (apart from the sweep's), the reading of the clocks, the size operation of
  the queue at the level of its monitor, the registration of the signal handlers, and the FSS client
  library, which is represented by function arguments in Fss\_Reporter. The unit tests, the Python
  tool for their traceability and the Debian packaging hold no logic of the daemon.
\<close>

end
